(* ===== verification/NRR_Prelude.thy ===== *)
theory NRR_Prelude
  imports
    Main
    "HOL-Library.Word"
    "HOL-Library.Char_ord"
    "HOL-Library.List_Lexorder"
    "HOL-Library.Product_Lexorder"
    "HOL-Library.Option_ord"
    "HOL-Library.Multiset"
    "HOL-Library.Sublist"
begin

text \<open>
  Shared ground of the development. A Rust \<open>String\<close> is the list of its UTF-8 bytes
  (\<open>string\<close>, one \<open>char\<close> a byte), so \<open>len()\<close> is \<open>length\<close> and a byte index is a list
  index. The theory holds the operations of \<open>str\<close> the sources call (\<open>split\<close>,
  \<open>rsplit_once\<close>, \<open>strip_suffix\<close>, \<open>trim\<close>, the ASCII tests), the encoding of characters
  as bytes, and the facts about them the components share. What depends on the Unicode
  tables (\<open>to_lowercase\<close>) or on the \<open>idna\<close> crate is a parameter of the definitions
  that use it.
\<close>

section \<open>Collections of facts\<close>

named_theorems str_simps \<open>computation rules of the string operations\<close>
named_theorems order_simps \<open>unfolding rules of the comparison keys\<close>

section \<open>Option chains\<close>

text \<open>\<open>Option::or_else\<close> with a value already at hand.\<close>

fun or_opt :: "'a option \<Rightarrow> 'a option \<Rightarrow> 'a option" where
  "or_opt (Some x) _ = Some x"
| "or_opt None y = y"

lemma or_opt_eq_None [simp]: "or_opt x y = None \<longleftrightarrow> x = None \<and> y = None"
  by (cases x) auto

lemma or_opt_None_right [simp]: "or_opt x None = x"
  by (cases x) auto

lemma or_opt_assoc: "or_opt (or_opt x y) z = or_opt x (or_opt y z)"
  by (cases x) auto

text \<open>The first value a list of stages returns: a cascade of early returns.\<close>

fun first_some :: "'a option list \<Rightarrow> 'a option" where
  "first_some [] = None"
| "first_some (x # xs) = or_opt x (first_some xs)"

lemma first_some_None [simp]: "first_some xs = None \<longleftrightarrow> (\<forall>x \<in> set xs. x = None)"
  by (induction xs) auto

lemma first_some_append: "first_some (xs @ ys) = or_opt (first_some xs) (first_some ys)"
  by (induction xs) (auto simp: or_opt_assoc)

lemma first_some_SomeD:
  "first_some xs = Some v \<Longrightarrow>
     \<exists>i < length xs. xs ! i = Some v \<and> (\<forall>j < i. xs ! j = None)"
proof (induction xs)
  case (Cons x xs)
  show ?case
  proof (cases x)
    case None
    with Cons obtain i where "i < length xs" "xs ! i = Some v" "\<forall>j < i. xs ! j = None"
      by auto
    with None show ?thesis
      by (intro exI [of _ "Suc i"]) (auto simp: less_Suc_eq_0_disj)
  next
    case (Some y)
    with Cons.prems show ?thesis by (intro exI [of _ 0]) auto
  qed
qed simp

section \<open>Bytes and ASCII\<close>

abbreviation byte_of :: "char \<Rightarrow> nat" where
  "byte_of \<equiv> of_char"

definition is_ascii :: "string \<Rightarrow> bool" where
  "is_ascii s \<longleftrightarrow> (\<forall>c \<in> set s. byte_of c < 128)"

definition ascii_digit :: "char \<Rightarrow> bool" where
  "ascii_digit c \<longleftrightarrow> 48 \<le> byte_of c \<and> byte_of c \<le> 57"

definition ascii_upper :: "char \<Rightarrow> bool" where
  "ascii_upper c \<longleftrightarrow> 65 \<le> byte_of c \<and> byte_of c \<le> 90"

definition ascii_lower :: "char \<Rightarrow> bool" where
  "ascii_lower c \<longleftrightarrow> 97 \<le> byte_of c \<and> byte_of c \<le> 122"

definition ascii_alphabetic :: "char \<Rightarrow> bool" where
  "ascii_alphabetic c \<longleftrightarrow> ascii_upper c \<or> ascii_lower c"

definition ascii_alphanumeric :: "char \<Rightarrow> bool" where
  "ascii_alphanumeric c \<longleftrightarrow> ascii_alphabetic c \<or> ascii_digit c"

text \<open>\<open>u8::to_ascii_lowercase\<close> and \<open>str::to_ascii_lowercase\<close>: bytes past ASCII stay.\<close>

definition lower_byte :: "char \<Rightarrow> char" where
  "lower_byte c = (if ascii_upper c then char_of (byte_of c + 32) else c)"

definition to_ascii_lowercase :: "string \<Rightarrow> string" where
  "to_ascii_lowercase = map lower_byte"

definition eq_ignore_ascii_case :: "string \<Rightarrow> string \<Rightarrow> bool" where
  "eq_ignore_ascii_case a b \<longleftrightarrow> to_ascii_lowercase a = to_ascii_lowercase b"

lemma byte_of_bound [simp]: "byte_of c < 256"
  using range_nat_of_char by (metis atLeastLessThan_iff rangeI)

lemma byte_of_lower:
  "byte_of (lower_byte c) = (if ascii_upper c then byte_of c + 32 else byte_of c)"
  by (auto simp: lower_byte_def ascii_upper_def of_char_of)

lemma lower_byte_idem [simp]: "lower_byte (lower_byte c) = lower_byte c"
  by (auto simp: lower_byte_def ascii_upper_def)

lemma to_ascii_lowercase_idem [simp]:
  "to_ascii_lowercase (to_ascii_lowercase s) = to_ascii_lowercase s"
  by (simp add: to_ascii_lowercase_def)

lemma length_to_ascii_lowercase [simp]: "length (to_ascii_lowercase s) = length s"
  by (simp add: to_ascii_lowercase_def)

lemma lower_byte_not_upper [simp]: "\<not> ascii_upper (lower_byte c)"
  by (auto simp: ascii_upper_def byte_of_lower)

lemma lower_byte_fixed [simp]: "\<not> ascii_upper c \<Longrightarrow> lower_byte c = c"
  by (simp add: lower_byte_def)

lemma lower_dot [simp]: "lower_byte c = CHR ''.'' \<longleftrightarrow> c = CHR ''.''"
proof
  assume l: "lower_byte c = CHR ''.''"
  show "c = CHR ''.''"
  proof (cases "ascii_upper c")
    case True
    then have "byte_of (lower_byte c) \<ge> 97" by (simp add: byte_of_lower ascii_upper_def)
    then show ?thesis unfolding l by simp
  qed (use l in simp)
qed (simp add: lower_byte_fixed ascii_upper_def)

section \<open>Splitting and joining\<close>

text \<open>\<open>str::split\<close> on the characters a predicate names: never empty, separators dropped.\<close>

fun split_by :: "('a \<Rightarrow> bool) \<Rightarrow> 'a list \<Rightarrow> 'a list list" where
  "split_by P [] = [[]]"
| "split_by P (x # xs) =
     (if P x then [] # split_by P xs
      else case split_by P xs of [] \<Rightarrow> [[x]] | y # ys \<Rightarrow> (x # y) # ys)"

abbreviation split_on :: "'a \<Rightarrow> 'a list \<Rightarrow> 'a list list" where
  "split_on c \<equiv> split_by (\<lambda>x. x = c)"

abbreviation labels :: "string \<Rightarrow> string list" where
  "labels \<equiv> split_on (CHR ''.'')"

fun join_with :: "'a \<Rightarrow> 'a list list \<Rightarrow> 'a list" where
  "join_with c [] = []"
| "join_with c [x] = x"
| "join_with c (x # y # ys) = x @ c # join_with c (y # ys)"

lemma split_by_nonempty [simp]: "split_by P xs \<noteq> []"
  by (induction xs) (auto split: list.splits)

lemma length_split_by: "length (split_by P xs) = Suc (length (filter P xs))"
  by (induction xs) (auto split: list.splits)

lemma split_by_sep: "P c \<Longrightarrow> split_by P (xs @ c # ys) = split_by P xs @ split_by P ys"
  by (induction xs) (auto split: list.splits)

lemma split_by_none: "(\<forall>x \<in> set xs. \<not> P x) \<Longrightarrow> split_by P xs = [xs]"
  by (induction xs) auto

lemma in_split_by: "y \<in> set (split_by P xs) \<Longrightarrow> x \<in> set y \<Longrightarrow> x \<in> set xs"
proof (induction xs arbitrary: y)
  case (Cons a xs)
  then show ?case by (cases "split_by P xs") (fastforce split: if_splits)+
qed simp

lemma split_by_no_sep: "y \<in> set (split_by P xs) \<Longrightarrow> x \<in> set y \<Longrightarrow> \<not> P x"
proof (induction xs arbitrary: y)
  case (Cons a xs)
  then show ?case by (cases "split_by P xs") (fastforce split: if_splits)+
qed simp

lemma join_split_on [simp]: "join_with c (split_on c xs) = xs"
proof (induction xs)
  case (Cons a xs)
  then show ?case
    by (cases "split_on c xs"; cases "tl (split_on c xs)") auto
qed simp

lemma split_on_inject: "split_on c xs = split_on c ys \<longleftrightarrow> xs = ys"
  by (metis join_split_on)

lemma split_on_join:
  "ys \<noteq> [] \<Longrightarrow> (\<forall>y \<in> set ys. c \<notin> set y) \<Longrightarrow> split_on c (join_with c ys) = ys"
proof (induction c ys rule: join_with.induct)
  case (2 c x)
  then show ?case by (auto intro: split_by_none)
next
  case (3 c x y ys)
  have "split_on c x = [x]" using 3 by (auto intro: split_by_none)
  with 3 show ?case by (simp add: split_by_sep)
qed simp

text \<open>\<open>str::split_once\<close> and \<open>str::rsplit_once\<close> on one character.\<close>

definition split_once :: "'a \<Rightarrow> 'a list \<Rightarrow> ('a list \<times> 'a list) option" where
  "split_once c s =
     (if c \<in> set s then Some (takeWhile (\<lambda>x. x \<noteq> c) s, tl (dropWhile (\<lambda>x. x \<noteq> c) s))
      else None)"

definition rsplit_once :: "'a \<Rightarrow> 'a list \<Rightarrow> ('a list \<times> 'a list) option" where
  "rsplit_once c s =
     (if c \<in> set s
      then Some (rev (tl (dropWhile (\<lambda>x. x \<noteq> c) (rev s))), rev (takeWhile (\<lambda>x. x \<noteq> c) (rev s)))
      else None)"

lemma split_once_None [simp]: "split_once c s = None \<longleftrightarrow> c \<notin> set s"
  by (simp add: split_once_def)

lemma split_once_SomeD: "split_once c s = Some (a, b) \<Longrightarrow> s = a @ c # b \<and> c \<notin> set a"
proof -
  assume "split_once c s = Some (a, b)"
  then have c: "c \<in> set s" and a: "a = takeWhile (\<lambda>x. x \<noteq> c) s"
    and b: "b = tl (dropWhile (\<lambda>x. x \<noteq> c) s)"
    by (auto simp: split_once_def split: if_splits)
  from c obtain u v where s: "s = u @ c # v" "c \<notin> set u" by (meson split_list_first)
  then have "takeWhile (\<lambda>x. x \<noteq> c) s = u" "dropWhile (\<lambda>x. x \<noteq> c) s = c # v"
    by (auto simp: takeWhile_append dropWhile_append)
  with s a b show ?thesis by simp
qed

lemma rsplit_once_rev:
  "rsplit_once c s = map_option (\<lambda>(a, b). (rev b, rev a)) (split_once c (rev s))"
  by (simp add: rsplit_once_def split_once_def)

lemma rsplit_once_None [simp]: "rsplit_once c s = None \<longleftrightarrow> c \<notin> set s"
  by (simp add: rsplit_once_def)

lemma rsplit_once_SomeD: "rsplit_once c s = Some (a, b) \<Longrightarrow> s = a @ c # b \<and> c \<notin> set b"
proof -
  assume "rsplit_once c s = Some (a, b)"
  then obtain p q where pq: "split_once c (rev s) = Some (p, q)" "a = rev q" "b = rev p"
    by (auto simp: rsplit_once_rev)
  then have "rev s = p @ c # q" "c \<notin> set p" using split_once_SomeD by fastforce+
  then have "s = rev (p @ c # q)" by (metis rev_rev_ident)
  with pq \<open>c \<notin> set p\<close> show ?thesis by simp
qed

lemma rsplit_once_sep: "c \<notin> set b \<Longrightarrow> rsplit_once c (a @ c # b) = Some (a, b)"
  by (auto simp: rsplit_once_def takeWhile_append dropWhile_append)

text \<open>\<open>strip_prefix\<close> and \<open>strip_suffix\<close>.\<close>

definition strip_prefix_str :: "'a list \<Rightarrow> 'a list \<Rightarrow> 'a list option" where
  "strip_prefix_str p s = (if take (length p) s = p then Some (drop (length p) s) else None)"

definition strip_suffix_str :: "'a list \<Rightarrow> 'a list \<Rightarrow> 'a list option" where
  "strip_suffix_str p s =
     (if length p \<le> length s \<and> drop (length s - length p) s = p
      then Some (take (length s - length p) s) else None)"

lemma strip_prefix_str_SomeD: "strip_prefix_str p s = Some r \<Longrightarrow> s = p @ r"
  by (auto simp: strip_prefix_str_def split: if_splits) (metis append_take_drop_id)

lemma strip_prefix_str_append [simp]: "strip_prefix_str p (p @ r) = Some r"
  by (simp add: strip_prefix_str_def)

lemma strip_suffix_str_SomeD: "strip_suffix_str p s = Some r \<Longrightarrow> s = r @ p"
  by (auto simp: strip_suffix_str_def split: if_splits) (metis append_take_drop_id)

lemma strip_suffix_str_append [simp]: "strip_suffix_str p (r @ p) = Some r"
  by (simp add: strip_suffix_str_def)

lemma strip_suffix_str_None: "strip_suffix_str p s = None \<longleftrightarrow> \<not> suffix p s"
proof
  assume "strip_suffix_str p s = None"
  then show "\<not> suffix p s" by (auto simp: suffix_def)
next
  assume "\<not> suffix p s"
  then show "strip_suffix_str p s = None"
    using strip_suffix_str_SomeD [of p s] by (cases "strip_suffix_str p s") (auto simp: suffix_def)
qed

section \<open>White space and control characters\<close>

text \<open>
  \<open>str::trim\<close> removes the characters of Unicode property White\_Space. In UTF-8 these are
  six ASCII bytes (\<open>U+0009\<close>--\<open>U+000D\<close>, space), two sequences of two bytes (\<open>U+0085\<close>,
  \<open>U+00A0\<close>) and the sequences of three bytes listed below (\<open>U+1680\<close>, \<open>U+2000\<close>--\<open>U+200A\<close>,
  \<open>U+2028\<close>, \<open>U+2029\<close>, \<open>U+202F\<close>, \<open>U+205F\<close>, \<open>U+3000\<close>). \<open>ws_len\<close> is the number of
  bytes of a white-space character with these leading bytes, 0 for any other.
\<close>

definition ws1 :: "nat \<Rightarrow> bool" where
  "ws1 a \<longleftrightarrow> (9 \<le> a \<and> a \<le> 13) \<or> a = 32"

definition ws2 :: "nat \<Rightarrow> nat \<Rightarrow> bool" where
  "ws2 a b \<longleftrightarrow> a = 194 \<and> (b = 133 \<or> b = 160)"

definition ws3 :: "nat \<Rightarrow> nat \<Rightarrow> nat \<Rightarrow> bool" where
  "ws3 a b c \<longleftrightarrow>
     (a = 225 \<and> b = 154 \<and> c = 128) \<or>
     (a = 226 \<and> b = 128 \<and> ((128 \<le> c \<and> c \<le> 138) \<or> c = 168 \<or> c = 169 \<or> c = 175)) \<or>
     (a = 226 \<and> b = 129 \<and> c = 159) \<or> (a = 227 \<and> b = 128 \<and> c = 128)"

fun ws_len :: "nat list \<Rightarrow> nat" where
  "ws_len [] = 0"
| "ws_len (a # rest) =
     (if ws1 a then 1
      else case rest of [] \<Rightarrow> 0
        | b # rest' \<Rightarrow> if ws2 a b then 2
            else (case rest' of [] \<Rightarrow> 0 | c # _ \<Rightarrow> if ws3 a b c then 3 else 0))"

fun rws_len :: "nat list \<Rightarrow> nat" where
  "rws_len [] = 0"
| "rws_len (a # rest) =
     (if ws1 a then 1
      else case rest of [] \<Rightarrow> 0
        | b # rest' \<Rightarrow> if ws2 b a then 2
            else (case rest' of [] \<Rightarrow> 0 | c # _ \<Rightarrow> if ws3 c b a then 3 else 0))"

lemma ws_len_bound: "ws_len bs \<le> length bs"
  by (cases bs rule: ws_len.cases) (auto split: list.splits)

lemma rws_len_bound: "rws_len bs \<le> length bs"
  by (cases bs rule: rws_len.cases) (auto split: list.splits)

function drop_ws :: "(nat list \<Rightarrow> nat) \<Rightarrow> string \<Rightarrow> string" where
  "drop_ws f s =
     (let n = f (map byte_of s) in if n = 0 \<or> s = [] then s else drop_ws f (drop n s))"
  by pat_completeness auto
termination
  by (relation "measure (\<lambda>(f, s). length s)") auto

declare drop_ws.simps [simp del]

definition trim_start :: "string \<Rightarrow> string" where
  "trim_start s = drop_ws ws_len s"

definition trim_end :: "string \<Rightarrow> string" where
  "trim_end s = rev (drop_ws rws_len (rev s))"

definition trim :: "string \<Rightarrow> string" where
  "trim s = trim_end (trim_start s)"

text \<open>A text is its own trimmed form when neither end shows white space.\<close>

lemma drop_ws_length: "length (drop_ws f s) \<le> length s"
proof (induction f s rule: drop_ws.induct)
  case (1 f s)
  show ?case
  proof (cases "f (map byte_of s) = 0 \<or> s = []")
    case True
    then show ?thesis by (auto simp: drop_ws.simps [of f s])
  next
    case False
    then have "length (drop_ws f (drop (f (map byte_of s)) s)) \<le> length (drop (f (map byte_of s)) s)" using 1 by blast
    then show ?thesis using False by (simp add: drop_ws.simps [of f s])
  qed
qed

lemma drop_ws_fixed: "length (drop_ws f s) = length s \<longleftrightarrow> s = [] \<or> f (map byte_of s) = 0"
proof (cases "f (map byte_of s) = 0 \<or> s = []")
  case True
  then show ?thesis by (auto simp: drop_ws.simps [of f s])
next
  case False
  then have "length s - f (map byte_of s) < length s" by (cases s) auto
  then have "length (drop_ws f (drop (f (map byte_of s)) s)) < length s"
    using drop_ws_length [of f "drop (f (map byte_of s)) s"] unfolding length_drop by linarith
  then show ?thesis using False by (simp add: drop_ws.simps [of f s])
qed

lemma drop_ws_id: "f (map byte_of s) = 0 \<Longrightarrow> drop_ws f s = s"
  by (simp add: drop_ws.simps [of f s])

lemma trim_fixed: "trim s = s \<longleftrightarrow> s = [] \<or> ws_len (map byte_of s) = 0 \<and> rws_len (map byte_of (rev s)) = 0"
proof
  assume t: "trim s = s"
  have "length (trim s) \<le> length (drop_ws ws_len s)"
    using drop_ws_length [of rws_len "rev (drop_ws ws_len s)"] by (simp add: trim_def trim_end_def trim_start_def)
  then have "length (drop_ws ws_len s) = length s" using t drop_ws_length [of ws_len s] by simp
  then have w: "s = [] \<or> ws_len (map byte_of s) = 0" by (simp only: drop_ws_fixed)
  then have "drop_ws ws_len s = s" by (auto simp: drop_ws_id)
  then have "length (drop_ws rws_len (rev s)) = length (rev s)"
    using t by (simp add: trim_def trim_end_def trim_start_def) (metis length_rev)
  then show "s = [] \<or> ws_len (map byte_of s) = 0 \<and> rws_len (map byte_of (rev s)) = 0"
    using w unfolding drop_ws_fixed by auto
next
  assume "s = [] \<or> ws_len (map byte_of s) = 0 \<and> rws_len (map byte_of (rev s)) = 0"
  then show "trim s = s"
    by (auto simp: trim_def trim_end_def trim_start_def drop_ws_id)
qed

text \<open>\<open>char::is_control\<close>: \<open>U+0000\<close>--\<open>U+001F\<close> and \<open>U+007F\<close>--\<open>U+009F\<close>.\<close>

fun has_control :: "string \<Rightarrow> bool" where
  "has_control [] = False"
| "has_control (a # s) =
     (byte_of a < 32 \<or> byte_of a = 127 \<or>
      (byte_of a = 194 \<and> (case s of [] \<Rightarrow> False | b # _ \<Rightarrow> 128 \<le> byte_of b \<and> byte_of b \<le> 159)) \<or>
      has_control s)"

text \<open>Printable ASCII with no space at either end is its own trimmed form.\<close>

definition graphic :: "char \<Rightarrow> bool" where
  "graphic c \<longleftrightarrow> 33 \<le> byte_of c \<and> byte_of c \<le> 126"

lemma ws_len_graphic: "graphic c \<Longrightarrow> ws_len (map byte_of (c # s)) = 0"
  by (auto simp: graphic_def ws1_def ws2_def ws3_def split: list.splits)

lemma rws_len_graphic: "graphic c \<Longrightarrow> rws_len (map byte_of (c # s)) = 0"
  by (auto simp: graphic_def ws1_def ws2_def ws3_def split: list.splits)

lemma drop_ws_graphic [str_simps]:
  "graphic c \<Longrightarrow> drop_ws ws_len (c # s) = c # s"
  "graphic c \<Longrightarrow> drop_ws rws_len (c # s) = c # s"
  using ws_len_graphic [of c s] rws_len_graphic [of c s]
  by (simp_all add: drop_ws.simps [of _ "c # s"] Let_def del: ws_len.simps rws_len.simps)

lemma trim_Nil [simp]: "trim [] = []"
  by (simp add: trim_def trim_end_def trim_start_def drop_ws.simps)

lemma trim_graphic:
  assumes "s \<noteq> []" "graphic (hd s)" "graphic (last s)"
  shows "trim s = s"
proof -
  from assms have "drop_ws ws_len s = s" by (cases s) (auto simp: drop_ws_graphic)
  moreover from assms have "drop_ws rws_len (rev s) = rev s"
    by (cases "rev s") (auto simp: drop_ws_graphic last_rev [symmetric])
  ultimately show ?thesis by (simp add: trim_def trim_end_def trim_start_def)
qed

section \<open>Characters as UTF-8 bytes\<close>

text \<open>The encoding of one Unicode scalar value, and of a text.\<close>

definition scalar :: "nat \<Rightarrow> bool" where
  "scalar u \<longleftrightarrow> u < 55296 \<or> (57344 \<le> u \<and> u < 1114112)"

definition utf8_char :: "nat \<Rightarrow> nat list" where
  "utf8_char u =
     (if u < 128 then [u]
      else if u < 2048 then [192 + u div 64, 128 + u mod 64]
      else if u < 65536 then [224 + u div 4096, 128 + (u div 64) mod 64, 128 + u mod 64]
      else [240 + u div 262144, 128 + (u div 4096) mod 64, 128 + (u div 64) mod 64,
            128 + u mod 64])"

definition utf8 :: "nat list \<Rightarrow> string" where
  "utf8 us = map char_of (concat (map utf8_char us))"

text \<open>
  \<open>str.get(i..).chars().next()\<close>: the character at the head of a byte suffix with its width
  in bytes. A suffix that does not start on a character boundary has none.
\<close>

fun next_char_bytes :: "nat list \<Rightarrow> (nat \<times> nat) option" where
  "next_char_bytes [] = None"
| "next_char_bytes (a # r) =
     (if a < 128 then Some (a, 1)
      else if a < 192 then None
      else if a < 224 then
        (case r of b # _ \<Rightarrow> Some ((a - 192) * 64 + (b - 128), 2) | [] \<Rightarrow> None)
      else if a < 240 then
        (case r of b # c # _ \<Rightarrow> Some ((a - 224) * 4096 + (b - 128) * 64 + (c - 128), 3)
         | _ \<Rightarrow> None)
      else
        (case r of b # c # d # _ \<Rightarrow>
             Some ((a - 240) * 262144 + (b - 128) * 4096 + (c - 128) * 64 + (d - 128), 4)
         | _ \<Rightarrow> None))"

definition next_char :: "string \<Rightarrow> (nat \<times> nat) option" where
  "next_char s = next_char_bytes (map byte_of s)"

lemma utf8_char_nonempty [simp]: "utf8_char u \<noteq> []"
  by (simp add: utf8_char_def)

lemma utf8_char_bytes: "scalar u \<Longrightarrow> \<forall>b \<in> set (utf8_char u). b < 256"
  by (auto simp: utf8_char_def scalar_def)

lemma utf8_Nil [simp]: "utf8 [] = []"
  by (simp add: utf8_def)

lemma utf8_Cons: "utf8 (u # us) = map char_of (utf8_char u) @ utf8 us"
  by (simp add: utf8_def)

lemma utf8_append: "utf8 (us @ vs) = utf8 us @ utf8 vs"
  by (simp add: utf8_def)

lemma utf8_eq_Nil [simp]: "utf8 us = [] \<longleftrightarrow> us = []"
  by (cases us) (auto simp: utf8_Cons)

lemma div64_split:
  fixes u :: nat
  shows "u div 4096 * 4096 + u div 64 mod 64 * 64 + u mod 64 = u"
    and "u div 262144 * 262144 + u div 4096 mod 64 * 4096 + u div 64 mod 64 * 64 + u mod 64 = u"
proof -
  have "u div 64 div 64 = u div 4096" "u div 4096 div 64 = u div 262144"
    by (simp_all flip: div_mult2_eq)
  moreover have "u div 64 * 64 + u mod 64 = u"
    "u div 64 div 64 * 64 + u div 64 mod 64 = u div 64"
    "u div 4096 div 64 * 64 + u div 4096 mod 64 = u div 4096" by simp_all
  ultimately show "u div 4096 * 4096 + u div 64 mod 64 * 64 + u mod 64 = u"
    and "u div 262144 * 262144 + u div 4096 mod 64 * 4096 + u div 64 mod 64 * 64 + u mod 64 = u"
    by linarith+
qed

lemma next_char_bytes_utf8:
  assumes "scalar u"
  shows "next_char_bytes (utf8_char u @ r) = Some (u, length (utf8_char u))"
proof -
  consider "u < 128" | "128 \<le> u" "u < 2048" | "2048 \<le> u" "u < 65536" | "65536 \<le> u"
    by linarith
  then show ?thesis
  proof cases
    case 2
    define q where "q = u div 64"
    have "utf8_char u = [192 + q, 128 + u mod 64]" using 2 by (simp add: utf8_char_def q_def)
    moreover have "q < 32" using 2 unfolding q_def by (simp add: div_less_iff_less_mult)
    moreover have "q * 64 + u mod 64 = u" unfolding q_def by simp
    ultimately show ?thesis by simp
  next
    case 3
    define q where "q = u div 4096"
    define p where "p = u div 64 mod 64"
    have "utf8_char u = [224 + q, 128 + p, 128 + u mod 64]"
      using 3 by (simp add: utf8_char_def q_def p_def)
    moreover have "q < 16" using 3 unfolding q_def by (simp add: div_less_iff_less_mult)
    moreover have "q * 4096 + p * 64 + u mod 64 = u"
      unfolding q_def p_def using div64_split [of u] by simp
    ultimately show ?thesis by simp
  next
    case 4
    with div64_split [of u] show ?thesis by (simp add: utf8_char_def)
  qed (simp add: utf8_char_def)
qed

lemma next_char_utf8:
  assumes "scalar u"
  shows "next_char (utf8 (u # us)) = Some (u, length (utf8_char u))"
proof -
  have "map byte_of (map char_of (utf8_char u) :: string) = utf8_char u"
    using utf8_char_bytes [OF assms] by (auto simp: of_char_of intro!: map_idI)
  then show ?thesis
    using next_char_bytes_utf8 [OF assms] by (simp add: next_char_def utf8_Cons)
qed

lemma next_char_width: "next_char s = Some (u, w) \<Longrightarrow> 0 < w \<and> s \<noteq> []"
  by (cases s) (auto simp: next_char_def split: if_splits list.splits)

text \<open>\<open>str::chars\<close>: decoding stops at the end of the text.\<close>

function chars_of :: "string \<Rightarrow> nat list" where
  "chars_of s = (case next_char s of None \<Rightarrow> [] | Some (u, w) \<Rightarrow> u # chars_of (drop w s))"
  by pat_completeness auto
termination
  by (relation "measure length") (auto dest: next_char_width)

declare chars_of.simps [simp del]

lemma chars_of_utf8: "(\<forall>u \<in> set us. scalar u) \<Longrightarrow> chars_of (utf8 us) = us"
proof (induction us)
  case Nil
  show ?case by (subst chars_of.simps) (simp add: next_char_def)
next
  case (Cons u us)
  have "drop (length (utf8_char u)) (utf8 (u # us)) = utf8 us" by (simp add: utf8_Cons)
  with Cons show ?case
    by (subst chars_of.simps) (simp add: next_char_utf8)
qed

section \<open>Numbers as text\<close>

text \<open>
  \<open>format!("{}", n)\<close> and its zero-padded and hexadecimal forms, and reading digits back.
  Values are integers, so that evaluation works on binary numerals.
\<close>

definition digit_char :: "int \<Rightarrow> char" where
  "digit_char d = char_of (nat (if d < 10 then 48 + d else 87 + d))"

function digits_of :: "int \<Rightarrow> int \<Rightarrow> string" where
  "digits_of base n =
     (if base < 2 \<or> n < base then [digit_char n]
      else digits_of base (n div base) @ [digit_char (n mod base)])"
  by pat_completeness auto
termination
proof (relation "measure (\<lambda>(base, n). nat n)")
  fix base n :: int
  assume "\<not> (base < 2 \<or> n < base)"
  then have "0 \<le> n div base" "n div base < n"
    by (auto simp: pos_imp_zdiv_nonneg_iff int_div_less_self)
  then show "((base, n div base), base, n) \<in> measure (\<lambda>(base, n). nat n)" by simp
qed simp

declare digits_of.simps [simp del]

definition dec :: "nat \<Rightarrow> string" where
  "dec n = digits_of 10 (int n)"

definition pad_zero :: "nat \<Rightarrow> string \<Rightarrow> string" where
  "pad_zero w s = replicate (w - length s) (CHR ''0'') @ s"

text \<open>Reading a digit back: \<open>char::to_digit\<close>.\<close>

definition to_digit :: "int \<Rightarrow> char \<Rightarrow> int option" where
  "to_digit radix c =
     (let b = int (byte_of c);
          d = (if ascii_digit c then b - 48
               else if ascii_lower c then b - 87
               else if ascii_upper c then b - 55 else 36)
      in if d < radix then Some d else None)"

fun digits_value :: "int \<Rightarrow> int \<Rightarrow> string \<Rightarrow> int option" where
  "digits_value radix acc [] = Some acc"
| "digits_value radix acc (c # s) =
     (case to_digit radix c of None \<Rightarrow> None
      | Some d \<Rightarrow> digits_value radix (acc * radix + d) s)"

lemma byte_of_digit_char:
  assumes "0 \<le> d" "d < 16"
  shows "byte_of (digit_char d) = nat (if d < 10 then 48 + d else 87 + d)"
  using assms by (simp add: digit_char_def)

lemma to_digit_digit_char:
  assumes "0 \<le> d" "d < radix" "radix \<le> 16"
  shows "to_digit radix (digit_char d) = Some d"
  using assms
  by (cases "d < 10")
    (auto simp: to_digit_def ascii_digit_def ascii_lower_def Let_def byte_of_digit_char)

lemma digits_value_append:
  "digits_value r a (s @ t) =
     (case digits_value r a s of None \<Rightarrow> None | Some v \<Rightarrow> digits_value r v t)"
  by (induction s arbitrary: a) (auto split: option.splits)

lemma digits_of_nonempty [simp]: "digits_of b n \<noteq> []"
  by (subst digits_of.simps) auto

lemma digits_of_value:
  "2 \<le> r \<Longrightarrow> r \<le> 16 \<Longrightarrow> 0 \<le> n \<Longrightarrow> digits_value r 0 (digits_of r n) = Some n"
proof (induction r n rule: digits_of.induct)
  case (1 base n)
  show ?case
  proof (cases "n < base")
    case True
    with 1 show ?thesis by (simp add: digits_of.simps [of base n] to_digit_digit_char)
  next
    case False
    with 1 have "digits_value base 0 (digits_of base (n div base)) = Some (n div base)"
      by (simp add: pos_imp_zdiv_nonneg_iff)
    with False 1 show ?thesis
      by (simp add: digits_of.simps [of base n] digits_value_append to_digit_digit_char)
  qed
qed

lemma digits_of_inject:
  "2 \<le> r \<Longrightarrow> r \<le> 16 \<Longrightarrow> 0 \<le> m \<Longrightarrow> 0 \<le> n \<Longrightarrow> digits_of r m = digits_of r n \<longleftrightarrow> m = n"
  by (metis digits_of_value option.inject)

lemma digits_value_pad:
  assumes "1 < r"
  shows "digits_value r 0 (pad_zero w s) = digits_value r 0 s"
proof -
  have z: "to_digit r (CHR ''0'') = Some 0"
    using assms by (simp add: to_digit_def ascii_digit_def)
  have "digits_value r 0 (replicate k (CHR ''0'') @ s) = digits_value r 0 s" for k
    by (induction k) (auto simp: z)
  then show ?thesis by (simp add: pad_zero_def)
qed

lemma pad_digits_inject:
  assumes "2 \<le> r" "r \<le> 16" "0 \<le> m" "0 \<le> n"
  shows "pad_zero w (digits_of r m) = pad_zero w (digits_of r n) \<longleftrightarrow> m = n"
proof
  assume "pad_zero w (digits_of r m) = pad_zero w (digits_of r n)"
  then have "digits_value r 0 (digits_of r m) = digits_value r 0 (digits_of r n)"
    using assms digits_value_pad [of r w] by (metis one_less_numeral_iff order_less_le_trans semiring_norm(76))
  then show "m = n" using assms by (simp add: digits_of_value)
qed simp

lemma filter_sorted_list_of_set:
  assumes "finite A"
  shows "filter P (sorted_list_of_set A) = sorted_list_of_set {x \<in> A. P x}"
proof -
  have "finite {x \<in> A. P x}" using assms by simp
  then have "set (filter P (sorted_list_of_set A)) = set (sorted_list_of_set {x \<in> A. P x})" using assms by simp
  then show ?thesis
    by (intro sorted_distinct_set_unique sorted_wrt_filter distinct_filter) simp_all
qed

end
