(* ===== verification/App_Identity.thy ===== *)
theory App_Identity
  imports NRR_Prelude
begin

text \<open>
  Spellings of an application's name, \<open>src/shared/contracts/src/app_identity.rs\<close> and
  \<open>dns_name.rs\<close>. Unicode lowercasing of a whole text (\<open>str::to_lowercase\<close>) is a parameter
  \<open>lc\<close>; what the theorems use of it is stated as \<open>lc_laws\<close>.
\<close>

section \<open>Definitions\<close>

datatype executable_naming = WindowsExe | AsNamed

record exact_name_changes =
  stripped_path_from :: "string option"
  appended_exe_to :: "string option"

definition path_sep :: "char \<Rightarrow> bool" where
  "path_sep c \<longleftrightarrow> c = CHR ''/'' \<or> byte_of c = 92"

definition exe_suffix :: string where
  "exe_suffix = ''.exe''"

definition canonical_exact_process_name ::
  "(string \<Rightarrow> string) \<Rightarrow> string \<Rightarrow> executable_naming \<Rightarrow> string \<times> exact_name_changes" where
  "canonical_exact_process_name lc raw0 naming =
     (let raw = trim raw0;
          has_path = list_ex path_sep raw;
          filename = (if has_path
            then (case filter (\<lambda>s. s \<noteq> []) (split_by path_sep raw) of [] \<Rightarrow> raw | ss \<Rightarrow> last ss)
            else raw);
          changes = \<lparr>stripped_path_from = (if has_path then Some raw else None), appended_exe_to = None\<rparr>;
          lowercased = lc filename
      in if naming = AsNamed \<or> suffix exe_suffix lowercased then (lowercased, changes)
         else (lowercased @ exe_suffix, changes\<lparr>appended_exe_to := Some filename\<rparr>))"

definition canonical_glob_process_pattern :: "(string \<Rightarrow> string) \<Rightarrow> string \<Rightarrow> string" where
  "canonical_glob_process_pattern lc raw = lc (trim raw)"

definition app_match_key :: "(string \<Rightarrow> string) \<Rightarrow> string \<Rightarrow> string" where
  "app_match_key lc raw =
     (let trimmed = trim raw;
          name = last (split_by path_sep trimmed);
          lowered = lc name
      in case strip_suffix_str exe_suffix lowered of
           Some stem \<Rightarrow> if stem \<noteq> [] then stem else lowered
         | None \<Rightarrow> lowered)"

definition is_learnable_label :: "string \<Rightarrow> bool" where
  "is_learnable_label label \<longleftrightarrow> label \<noteq> [] \<and>
     list_all (\<lambda>b. ascii_alphanumeric b \<or> b = CHR ''-'' \<or> b = CHR ''_'') label"

section \<open>Names and keys agree\<close>

lemma is_ascii_append [simp]: "is_ascii (s @ t) \<longleftrightarrow> is_ascii s \<and> is_ascii t"
  by (auto simp: is_ascii_def)

lemma is_ascii_lower [simp]: "is_ascii (to_ascii_lowercase s) \<longleftrightarrow> is_ascii s"
  by (auto simp: is_ascii_def to_ascii_lowercase_def byte_of_lower ascii_upper_def)

lemma ws_len_ascii: "byte_of a < 128 \<Longrightarrow> ws_len (map byte_of (a # s)) = (if ws1 (byte_of a) then 1 else 0)"
  by (auto simp: ws2_def ws3_def split: list.splits)

lemma rws_len_ascii:
  "is_ascii (a # s) \<Longrightarrow> rws_len (map byte_of (a # s)) = (if ws1 (byte_of a) then 1 else 0)"
  by (auto simp: is_ascii_def ws2_def ws3_def split: list.splits)

lemma drop_ws_ascii:
  assumes "is_ascii s"
  shows "drop_ws ws_len s = dropWhile (\<lambda>c. ws1 (byte_of c)) s"
    and "drop_ws rws_len s = dropWhile (\<lambda>c. ws1 (byte_of c)) s"
  using assms
proof (induction s)
  case Nil
  { case 1 then show ?case by (simp add: drop_ws.simps) }
  { case 2 then show ?case by (simp add: drop_ws.simps) }
next
  case (Cons a s)
  { case 1
    then have "byte_of a < 128" "is_ascii s" by (auto simp: is_ascii_def)
    then show ?case using Cons.IH(1) ws_len_ascii [of a s]
      by (simp add: drop_ws.simps [of _ "a # s"] Let_def del: ws_len.simps) }
  { case 2
    then have "is_ascii s" by (auto simp: is_ascii_def)
    then show ?case using Cons.IH(2) rws_len_ascii [OF 2]
      by (simp add: drop_ws.simps [of _ "a # s"] Let_def del: rws_len.simps) }
qed

lemma trim_ascii:
  "is_ascii s \<Longrightarrow> trim s = rev (dropWhile (\<lambda>c. ws1 (byte_of c)) (rev (dropWhile (\<lambda>c. ws1 (byte_of c)) s)))"
proof -
  assume a: "is_ascii s"
  then have "is_ascii (rev (dropWhile (\<lambda>c. ws1 (byte_of c)) s))"
    by (auto simp: is_ascii_def dest: set_dropWhileD)
  with a show ?thesis by (simp add: trim_def trim_end_def trim_start_def drop_ws_ascii)
qed

definition file_name :: "string \<Rightarrow> string" where
  "file_name raw = last (split_by path_sep (trim raw))"

lemma last_filter_last: "xs \<noteq> [] \<Longrightarrow> P (last xs) \<Longrightarrow> filter P xs \<noteq> [] \<and> last (filter P xs) = last xs"
  by (induction xs) (auto split: if_splits)

lemma split_last_no_sep: "\<not> list_ex P (last (split_by P s))"
proof -
  have "last (split_by P s) \<in> set (split_by P s)" by simp
  then show ?thesis using split_by_no_sep [of "last (split_by P s)" P s] by (auto simp: list_ex_iff)
qed

lemma split_by_single: "\<not> list_ex P s \<Longrightarrow> split_by P s = [s]"
  by (rule split_by_none) (simp add: list_ex_iff)

lemma canonical_exact_of_file_name:
  assumes "file_name raw \<noteq> []"
  shows "fst (canonical_exact_process_name lc raw naming) =
    (if naming = AsNamed \<or> suffix exe_suffix (lc (file_name raw)) then lc (file_name raw)
     else lc (file_name raw) @ exe_suffix)"
proof -
  let ?ss = "split_by path_sep (trim raw)"
  have f: "filter (\<lambda>s. s \<noteq> []) ?ss \<noteq> []" "last (filter (\<lambda>s. s \<noteq> []) ?ss) = file_name raw"
    using last_filter_last [of ?ss "\<lambda>s. s \<noteq> []"] assms by (auto simp: file_name_def)
  then have "(case filter (\<lambda>s. s \<noteq> []) ?ss of [] \<Rightarrow> trim raw | x # xs \<Rightarrow> last (x # xs)) = file_name raw"
    by (cases "filter (\<lambda>s. s \<noteq> []) ?ss") auto
  moreover have "file_name raw = trim raw" if "\<not> list_ex path_sep (trim raw)"
    using split_by_single [OF that] by (simp add: file_name_def)
  ultimately have "(if list_ex path_sep (trim raw)
      then (case filter (\<lambda>s. s \<noteq> []) ?ss of [] \<Rightarrow> trim raw | x # xs \<Rightarrow> last (x # xs)) else trim raw) = file_name raw"
    by simp
  then show ?thesis unfolding canonical_exact_process_name_def Let_def by simp
qed

lemma ws1_lower: "ws1 (byte_of (lower_byte c)) = ws1 (byte_of c)"
  by (auto simp: ws1_def byte_of_lower ascii_upper_def)

lemma path_sep_lower: "path_sep (lower_byte c) \<longleftrightarrow> path_sep c"
  by (cases "ascii_upper c") (auto simp: path_sep_def lower_byte_def ascii_upper_def of_char_of
      dest: arg_cong [of _ _ byte_of])

lemma list_ex_path_sep_lower: "list_ex path_sep (to_ascii_lowercase s) \<longleftrightarrow> list_ex path_sep s"
  by (simp add: list_ex_iff to_ascii_lowercase_def path_sep_lower)

lemma exe_suffix_ascii [simp]: "is_ascii exe_suffix" "to_ascii_lowercase exe_suffix = exe_suffix"
  by (simp_all add: is_ascii_def exe_suffix_def to_ascii_lowercase_def lower_byte_def ascii_upper_def)

lemma to_ascii_lowercase_append:
  "to_ascii_lowercase (s @ t) = to_ascii_lowercase s @ to_ascii_lowercase t"
  by (simp add: to_ascii_lowercase_def)

lemma trim_append_exe:
  assumes "s \<noteq> []" "trim s = s"
  shows "trim (s @ exe_suffix) = s @ exe_suffix"
proof -
  have "ws_len (map byte_of s) = 0" using assms by (simp add: trim_fixed)
  then have "ws_len (map byte_of (s @ exe_suffix)) = 0"
    using assms(1) by (cases s) (auto simp: exe_suffix_def ws2_def ws3_def split: list.splits if_splits)
  moreover have "rws_len (map byte_of (rev (s @ exe_suffix))) = 0"
    by (simp add: exe_suffix_def ws1_def ws2_def ws3_def)
  ultimately show ?thesis by (simp add: trim_fixed)
qed

lemma ws_lower:
  "ws2 (byte_of (lower_byte a)) (byte_of (lower_byte b)) \<longleftrightarrow> ws2 (byte_of a) (byte_of b)"
  "ws3 (byte_of (lower_byte a)) (byte_of (lower_byte b)) (byte_of (lower_byte c)) \<longleftrightarrow> ws3 (byte_of a) (byte_of b) (byte_of c)"
  by (auto simp: ws2_def ws3_def byte_of_lower ascii_upper_def)

lemma ws_len_lower:
  "ws_len (map byte_of (map lower_byte s)) = ws_len (map byte_of s)"
  "rws_len (map byte_of (map lower_byte s)) = rws_len (map byte_of s)"
  by (cases s; auto simp: ws1_lower ws_lower split: list.splits)+

lemma trim_lower: "trim (to_ascii_lowercase s) = to_ascii_lowercase s \<longleftrightarrow> trim s = s"
  using ws_len_lower [of s] ws_len_lower [of "rev s"]
  by (simp add: trim_fixed to_ascii_lowercase_def rev_map del: map_map)

text \<open>
  What the comparison relies on of Unicode lowercasing: it is a projection, also in front of an
  ASCII suffix that is lowercase already, and it neither adds nor removes path separators and
  outer white space.
\<close>

definition lc_laws :: "(string \<Rightarrow> string) \<Rightarrow> bool" where
  "lc_laws lc \<longleftrightarrow> lc [] = [] \<and>
     (\<forall>s. lc (lc s) = lc s \<and> lc (lc s @ exe_suffix) = lc s @ exe_suffix \<and> (lc s = [] \<longrightarrow> s = []) \<and>
        list_ex path_sep (lc s) = list_ex path_sep s \<and> (trim s = s \<longrightarrow> trim (lc s) = lc s))"

lemma lc_laws_ascii: "lc_laws to_ascii_lowercase"
proof -
  have "to_ascii_lowercase (to_ascii_lowercase s) = to_ascii_lowercase s" for s
    by (simp add: to_ascii_lowercase_def lower_byte_def ascii_upper_def)
  then show ?thesis
    by (auto simp: lc_laws_def to_ascii_lowercase_append list_ex_path_sep_lower trim_lower) (simp_all add: to_ascii_lowercase_def)
qed

lemma lc_lawsD:
  assumes "lc_laws lc"
  shows "lc [] = []" "lc (lc s) = lc s" "lc (lc s @ exe_suffix) = lc s @ exe_suffix" "lc s = [] \<Longrightarrow> s = []"
    "list_ex path_sep (lc s) = list_ex path_sep s" "trim s = s \<Longrightarrow> trim (lc s) = lc s"
  using assms unfolding lc_laws_def by blast+

lemma key_of_stored:
  assumes "trim x = x" "\<not> list_ex path_sep x" "lc x = x"
  shows "app_match_key lc x = (case strip_suffix_str exe_suffix x of
      Some stem \<Rightarrow> if stem \<noteq> [] then stem else x | None \<Rightarrow> x)"
  unfolding app_match_key_def Let_def assms(1) split_by_single [OF assms(2)] last.simps
  using assms(3) by (simp split: option.split)

text \<open>
  C23. Reducing an exact application name to its stored form does not change what it matches: for every
  value, in any script, whose last path segment is not empty and carries no outer white space, the
  match key of the canonical name, with or without the appended \<open>.exe\<close>, is the match key of the
  value itself. The condition is needed: of a value that ends in a separator the key is empty,
  whereas the canonical name is that of its last non-empty segment.
\<close>

theorem canonical_name_keeps_key:
  assumes "lc_laws lc"
  shows "(file_name raw \<noteq> [] \<and> trim (file_name raw) = file_name raw \<longrightarrow>
      app_match_key lc (fst (canonical_exact_process_name lc raw naming)) = app_match_key lc raw) \<and>
    (file_name raw = [] \<longrightarrow> app_match_key lc raw = [])"
proof -
  let ?n = "file_name raw" and ?c = "fst (canonical_exact_process_name lc raw naming)"
  let ?l = "lc ?n"
  note law = lc_lawsD [OF assms]
  have kraw: "app_match_key lc raw = (case strip_suffix_str exe_suffix ?l of
      Some stem \<Rightarrow> if stem \<noteq> [] then stem else ?l | None \<Rightarrow> ?l)"
    unfolding app_match_key_def Let_def file_name_def [symmetric] ..
  have "app_match_key lc ?c = app_match_key lc raw" if n: "?n \<noteq> []" "trim ?n = ?n"
  proof -
    have t: "?l \<noteq> []" "trim ?l = ?l" "trim (?l @ exe_suffix) = ?l @ exe_suffix"
      using law(4) [of ?n] law(6) [of ?n] n trim_append_exe [of ?l] by blast+
    have ns: "\<not> list_ex path_sep ?l"
      using split_last_no_sep [of path_sep "trim raw"] by (simp only: law(5) file_name_def not_False_eq_True)
    have "\<not> list_ex path_sep exe_suffix" by code_simp
    then have nse: "\<not> list_ex path_sep (?l @ exe_suffix)" using ns unfolding list_ex_append by blast
    have "app_match_key lc ?l = app_match_key lc raw" using key_of_stored [of ?l lc, OF t(2) ns law(2)] unfolding kraw .
    moreover have "app_match_key lc (?l @ exe_suffix) = app_match_key lc raw" if "\<not> suffix exe_suffix ?l"
      using key_of_stored [of "?l @ exe_suffix" lc, OF t(3) nse law(3)] t(1) that [folded strip_suffix_str_None] unfolding kraw by (simp only: strip_suffix_str_append option.case if_True not_False_eq_True)
    ultimately show ?thesis unfolding canonical_exact_of_file_name [OF n(1)] by (cases "suffix exe_suffix ?l") simp_all
  qed
  moreover have "app_match_key lc raw = []" if "?n = []"
  proof -
    have "?l = []" using that law(1) by (simp only:)
    moreover have "strip_suffix_str exe_suffix [] = None" by code_simp
    ultimately show ?thesis unfolding kraw by (simp only: option.case)
  qed
  ultimately show ?thesis by blast
qed

theorem canonical_name_keeps_key_witness:
  "app_match_key to_ascii_lowercase
     (fst (canonical_exact_process_name to_ascii_lowercase ''/opt/Apps/Viewer'' WindowsExe)) =
   app_match_key to_ascii_lowercase ''/opt/Apps/Viewer''"
proof -
  have "file_name ''/opt/Apps/Viewer'' \<noteq> []" "trim (file_name ''/opt/Apps/Viewer'') = file_name ''/opt/Apps/Viewer''"
    by code_simp+
  then show ?thesis using canonical_name_keeps_key [OF lc_laws_ascii] by blast
qed

end
