(* ===== verification/App_Path.thy ===== *)
theory App_Path
  imports NRR_Prelude
begin

text \<open>
  Paths an application rule names, \<open>src/shared/contracts/src/app_path.rs\<close>: how each platform
  spells and compares them, the profile folders they may start from, reading one rule value, and
  matching the image path of a process. \<open>str::to_lowercase\<close> is the parameter \<open>lc\<close>.
\<close>

section \<open>Styles and separators\<close>

datatype path_style = Windows | Linux | MacOS

definition case_insensitive :: "path_style \<Rightarrow> bool" where
  "case_insensitive style \<longleftrightarrow> style = Windows \<or> style = MacOS"

abbreviation bsl :: char where "bsl \<equiv> CHR 0x5C"

abbreviation slash :: char where "slash \<equiv> CHR ''/''"

fun separator :: "path_style \<Rightarrow> char" where
  "separator Windows = bsl"
| "separator _ = slash"

fun root_len :: "path_style \<Rightarrow> nat" where
  "root_len Windows = 1"
| "root_len _ = 0"

fun is_separator :: "path_style \<Rightarrow> char \<Rightarrow> bool" where
  "is_separator Windows c \<longleftrightarrow> c = bsl \<or> c = slash"
| "is_separator _ c \<longleftrightarrow> c = slash"

definition MAX_PATH_BYTES :: int where "MAX_PATH_BYTES = 32 * 1024"

definition MAX_PATH_SEGMENTS :: int where "MAX_PATH_SEGMENTS = 256"

definition MAX_PATH_VALUE_BYTES :: int where "MAX_PATH_VALUE_BYTES = 1024"

definition MAX_RULE_VALUE_BYTES :: int where "MAX_RULE_VALUE_BYTES = 260"

definition is_path_value :: "string \<Rightarrow> path_style \<Rightarrow> bool" where
  "is_path_value raw style = list_ex (is_separator style) raw"

definition app_value_byte_limit :: "string \<Rightarrow> path_style \<Rightarrow> int" where
  "app_value_byte_limit v style =
     (if is_path_value v style then MAX_PATH_VALUE_BYTES else MAX_RULE_VALUE_BYTES)"

section \<open>Segments of an absolute path\<close>

text \<open>The drive or share a Windows path starts from, and what follows it.\<close>

definition windows_unify :: "string \<Rightarrow> string" where
  "windows_unify path =
     (let unified = map (\<lambda>c. if c = slash then bsl else c) path in
      case strip_prefix_str ([bsl, bsl] @ ''?'' @ [bsl] @ ''unc'' @ [bsl]) unified of
        Some unc \<Rightarrow> [bsl, bsl] @ unc
      | None \<Rightarrow>
          (case or_opt (strip_prefix_str ([bsl, bsl] @ ''?'' @ [bsl]) unified)
                       (strip_prefix_str ([bsl, bsl] @ ''.'' @ [bsl]) unified) of
             Some local \<Rightarrow> local
           | None \<Rightarrow> unified))"

definition windows_root :: "string \<Rightarrow> (string list \<times> string) option" where
  "windows_root path =
     (let unified = windows_unify path in
      case strip_prefix_str [bsl, bsl] unified of
        Some share \<Rightarrow>
          (case filter (\<lambda>p. p \<noteq> []) (split_on bsl share) of
             server # name # parts \<Rightarrow>
               if list_ex (\<lambda>part. part = ''.'' \<or> part = ''..'') [server, name] then None
               else Some ([[bsl, bsl] @ server @ [bsl] @ name], join_with bsl parts)
           | _ \<Rightarrow> None)
      | None \<Rightarrow>
          (case unified of [] \<Rightarrow> None
           | drive # _ \<Rightarrow>
               if \<not> ascii_alphabetic drive then None
               else if take 1 (drop 1 unified) \<noteq> '':'' \<or>
                       \<not> (drop 2 unified = [] \<or> take 1 (drop 2 unified) = [bsl]) then None
               else Some ([[drive] @ '':''], drop 2 unified)))"

fun path_root :: "path_style \<Rightarrow> string \<Rightarrow> (string list \<times> string) option" where
  "path_root Windows path = windows_root path"
| "path_root _ path = map_option (\<lambda>r. ([], r)) (strip_prefix_str [slash] path)"

definition trim_dots_spaces :: "string \<Rightarrow> string" where
  "trim_dots_spaces s = rev (dropWhile (\<lambda>c. c = CHR ''.'' \<or> c = CHR '' '') (rev s))"

definition path_segment :: "path_style \<Rightarrow> string \<Rightarrow> string option" where
  "path_segment style raw =
     (if style = Windows then
        if CHR '':'' \<in> set raw then None
        else if trim_dots_spaces raw = [] then None else Some (trim_dots_spaces raw)
      else Some raw)"

fun segments_loop :: "path_style \<Rightarrow> bool \<Rightarrow> string list \<Rightarrow> string list \<Rightarrow> string list option" where
  "segments_loop style pattern segments [] = Some segments"
| "segments_loop style pattern segments (raw # raws) =
     (if raw = [] \<or> raw = ''.'' then segments_loop style pattern segments raws
      else if raw = ''..'' then None
      else case path_segment style raw of None \<Rightarrow> None
        | Some segment \<Rightarrow>
            if \<not> pattern \<and> CHR ''*'' \<in> set segment then None
            else if int (length (segments @ [segment])) > MAX_PATH_SEGMENTS then None
            else segments_loop style pattern (segments @ [segment]) raws)"

definition path_segments ::
  "(string \<Rightarrow> string) \<Rightarrow> string \<Rightarrow> path_style \<Rightarrow> bool \<Rightarrow> string list option" where
  "path_segments lc path0 style pattern =
     (if int (length path0) > MAX_PATH_BYTES \<or> has_control path0 then None
      else
        let path = (if case_insensitive style then lc (trim path0) else trim path0) in
        case path_root style path of None \<Rightarrow> None
        | Some (segments, rest) \<Rightarrow>
            segments_loop style pattern segments (split_on (separator style) rest))"

section \<open>Profile folders\<close>

datatype profile_folder = LocalAppData | AppData | UserProfile | Home

definition profile_folder_all :: "profile_folder list" where
  "profile_folder_all = [LocalAppData, AppData, UserProfile, Home]"

fun profile_slug :: "profile_folder \<Rightarrow> string" where
  "profile_slug LocalAppData = ''localappdata''"
| "profile_slug AppData = ''appdata''"
| "profile_slug UserProfile = ''userprofile''"
| "profile_slug Home = ''home''"

fun profile_token :: "profile_folder \<Rightarrow> string" where
  "profile_token LocalAppData = ''%localappdata%''"
| "profile_token AppData = ''%appdata%''"
| "profile_token UserProfile = ''%userprofile%''"
| "profile_token Home = ''~''"

fun profile_on :: "profile_folder \<Rightarrow> path_style \<Rightarrow> bool" where
  "profile_on Home style \<longleftrightarrow> style \<noteq> Windows"
| "profile_on _ style \<longleftrightarrow> style = Windows"

fun below_profile :: "profile_folder \<Rightarrow> string list" where
  "below_profile LocalAppData = [''appdata'', ''local'']"
| "below_profile AppData = [''appdata'', ''roaming'']"
| "below_profile _ = []"

datatype app_path_error = StarNotLast | NotAbsolute | Malformed | UnknownVariable

fun app_path_error_slug :: "app_path_error \<Rightarrow> string" where
  "app_path_error_slug StarNotLast = ''path-star''"
| "app_path_error_slug NotAbsolute = ''path-not-absolute''"
| "app_path_error_slug Malformed = ''path-invalid''"
| "app_path_error_slug UnknownVariable = ''path-unknown-variable''"

definition profile_head_len :: "string \<Rightarrow> app_path_error + nat option" where
  "profile_head_len body =
     (case body of [] \<Rightarrow> Inr None
      | c # tail \<Rightarrow>
          if c = CHR ''%'' then
            (case split_once (CHR ''%'') tail of None \<Rightarrow> Inl UnknownVariable
             | Some (name, _) \<Rightarrow> Inr (Some (length name + 2)))
          else if c = CHR ''~'' then Inr (Some 1)
          else if c = CHR ''$'' then Inl UnknownVariable
          else Inr None)"

definition profile_prefix ::
  "string \<Rightarrow> path_style \<Rightarrow> app_path_error + (profile_folder \<times> string) option" where
  "profile_prefix body style =
     (case profile_head_len body of Inl e \<Rightarrow> Inl e
      | Inr None \<Rightarrow> Inr None
      | Inr (Some head_len) \<Rightarrow>
          (let head = take head_len body in
           case find (\<lambda>folder. profile_on folder style \<and>
                      eq_ignore_ascii_case (profile_token folder) head) profile_folder_all of
             None \<Rightarrow> Inl UnknownVariable
           | Some folder \<Rightarrow>
               (let rest = drop head_len body in
                if rest \<noteq> [] \<and> \<not> is_separator style (hd rest) then Inl UnknownVariable
                else Inr (Some (folder, rest)))))"

fun probe_root :: "path_style \<Rightarrow> string list" where
  "probe_root Windows = [''c:'', ''users'', ''<profile>'']"
| "probe_root Linux = [''home'', ''<profile>'']"
| "probe_root MacOS = [''users'', ''<profile>'']"

section \<open>Application paths\<close>

datatype app_path_kind = File | Folder | FolderTree | FileOrFolder

fun app_path_kind_slug :: "app_path_kind \<Rightarrow> string" where
  "app_path_kind_slug File = ''file''"
| "app_path_kind_slug Folder = ''folder''"
| "app_path_kind_slug FolderTree = ''folder-tree''"
| "app_path_kind_slug FileOrFolder = ''file-or-folder''"

record app_path =
  ap_style :: path_style
  ap_kind :: app_path_kind
  ap_segments :: "string list"
  ap_text :: string
  ap_profile :: "profile_folder option"
  ap_probe :: "string option"

definition starts_absolute :: "string \<Rightarrow> path_style \<Rightarrow> bool" where
  "starts_absolute body style =
     (if style = Windows then
        (body \<noteq> [] \<and> ascii_alphabetic (hd body) \<and> take 1 (drop 1 body) = '':'' \<and>
           (drop 2 body = [] \<or> is_separator Windows (hd (drop 2 body)))) \<or>
        (2 \<le> length body \<and> is_separator Windows (body ! 0) \<and> is_separator Windows (body ! 1))
      else body \<noteq> [] \<and> hd body = slash)"

definition ends_in_sep :: "path_style \<Rightarrow> string \<Rightarrow> bool" where
  "ends_in_sep style body \<longleftrightarrow> body \<noteq> [] \<and> is_separator style (last body)"

fun render_tail :: "char \<Rightarrow> app_path_kind \<Rightarrow> string \<Rightarrow> string" where
  "render_tail sep Folder text = (if text \<noteq> [] \<and> last text = sep then text else text @ [sep])"
| "render_tail sep FolderTree text =
     (if text \<noteq> [] \<and> last text = sep then text else text @ [sep]) @ ''*''"
| "render_tail sep _ text = text"

definition render :: "path_style \<Rightarrow> app_path_kind \<Rightarrow> string list \<Rightarrow> string" where
  "render style kind segments =
     (let sep = separator style;
          text = (if root_len style = 0 then [sep] else []) @ join_with sep segments
      in render_tail sep kind text)"

definition exe_file :: "string list \<Rightarrow> bool" where
  "exe_file segments \<longleftrightarrow> segments \<noteq> [] \<and> suffix ''.exe'' (last segments)"

definition path_kind :: "path_style \<Rightarrow> bool \<Rightarrow> bool \<Rightarrow> bool \<Rightarrow> string list \<Rightarrow> app_path_kind" where
  "path_kind style tree trailing at_root segments =
     (if tree then FolderTree
      else if trailing \<or> at_root then Folder
      else if style = Windows then (if exe_file segments then File else Folder)
      else FileOrFolder)"

definition under_profile ::
  "(string \<Rightarrow> string) \<Rightarrow> profile_folder \<Rightarrow> string \<Rightarrow> bool \<Rightarrow> path_style \<Rightarrow> app_path_error + app_path" where
  "under_profile lc folder rest tree style =
     (let rooted = (if style = Windows then ''c:'' @ rest else if rest = [] then ''/'' else rest) in
      case path_segments lc rooted style False of None \<Rightarrow> Inl Malformed
      | Some below0 \<Rightarrow>
          (let below = drop (root_len style) below0;
               kind = path_kind style tree (ends_in_sep style rest) (below = []) below;
               segments = probe_root style @ below_profile folder @ below;
               sep = separator style;
               text = profile_token folder @ concat (map (\<lambda>s. sep # s) below) @
                 (case kind of Folder \<Rightarrow> [sep] | FolderTree \<Rightarrow> [sep] @ ''*'' | _ \<Rightarrow> [])
           in if int (length segments) > MAX_PATH_SEGMENTS then Inl Malformed
              else Inr \<lparr>ap_style = style, ap_kind = kind, ap_segments = segments, ap_text = text,
                        ap_profile = Some folder, ap_probe = Some (render style kind segments)\<rparr>))"

definition app_path_parse :: "(string \<Rightarrow> string) \<Rightarrow> string \<Rightarrow> path_style \<Rightarrow> app_path_error + app_path" where
  "app_path_parse lc raw style =
     (if int (length raw) > MAX_PATH_BYTES \<or> has_control raw then Inl Malformed
      else
        let trimmed = trim raw;
            tree_body = (case strip_suffix_str ''*'' trimmed of
              Some body \<Rightarrow> if ends_in_sep style body then Some body else None | None \<Rightarrow> None);
            body = (case tree_body of Some b \<Rightarrow> b | None \<Rightarrow> trimmed)
        in
        if CHR ''*'' \<in> set body then Inl StarNotLast
        else case profile_prefix body style of Inl e \<Rightarrow> Inl e
          | Inr (Some (folder, rest)) \<Rightarrow> under_profile lc folder rest (tree_body \<noteq> None) style
          | Inr None \<Rightarrow>
              if \<not> starts_absolute body style then Inl NotAbsolute
              else (case path_segments lc body style False of None \<Rightarrow> Inl Malformed
                | Some segments \<Rightarrow>
                    (let kind = path_kind style (tree_body \<noteq> None) (ends_in_sep style body)
                           (length segments \<le> root_len style) segments
                     in Inr \<lparr>ap_style = style, ap_kind = kind, ap_segments = segments,
                             ap_text = render style kind segments, ap_profile = None,
                             ap_probe = None\<rparr>)))"

definition for_profile :: "(string \<Rightarrow> string) \<Rightarrow> app_path \<Rightarrow> string \<Rightarrow> app_path_error + app_path" where
  "for_profile lc p profile =
     (if ap_profile p = None then Inr p
      else if \<not> starts_absolute (trim profile) (ap_style p) then Inl Malformed
      else case path_segments lc profile (ap_style p) False of None \<Rightarrow> Inl Malformed
        | Some base \<Rightarrow>
            if length base \<le> root_len (ap_style p) then Inl Malformed
            else
              let segments = base @ drop (length (probe_root (ap_style p))) (ap_segments p);
                  text = render (ap_style p) (ap_kind p) segments
              in if int (length segments) > MAX_PATH_SEGMENTS then Inl Malformed
                 else if int (length text) > MAX_PATH_BYTES then Inl Malformed
                 else Inr \<lparr>ap_style = ap_style p, ap_kind = ap_kind p, ap_segments = segments,
                           ap_text = text, ap_profile = None, ap_probe = None\<rparr>)"

definition app_path_depth :: "app_path \<Rightarrow> nat" where
  "app_path_depth p = length (ap_segments p) - root_len (ap_style p)"

definition app_path_place :: "app_path \<Rightarrow> string" where
  "app_path_place p =
     (let text = (case ap_probe p of Some t \<Rightarrow> t | None \<Rightarrow> ap_text p) in
      case strip_suffix_str ''*'' text of Some t \<Rightarrow> t | None \<Rightarrow> text)"

definition on_disk :: "(string \<Rightarrow> string) \<Rightarrow> app_path \<Rightarrow> string \<Rightarrow> bool \<Rightarrow> app_path_error + app_path" where
  "on_disk lc p place is_folder =
     (case path_segments lc place (ap_style p) False of None \<Rightarrow> Inl Malformed
      | Some segments \<Rightarrow>
          if \<not> starts_absolute (trim place) (ap_style p) then Inl Malformed
          else
            let kind = (if ap_kind p = FileOrFolder then (if is_folder then Folder else File)
                        else ap_kind p)
            in Inr \<lparr>ap_style = ap_style p, ap_kind = kind, ap_segments = segments,
                    ap_text = render (ap_style p) kind segments, ap_profile = None, ap_probe = None\<rparr>)"

definition match_image :: "(string \<Rightarrow> string) \<Rightarrow> app_path \<Rightarrow> string \<Rightarrow> app_path_kind option" where
  "match_image lc p img =
     (if ap_profile p \<noteq> None then None
      else case path_segments lc img (ap_style p) False of None \<Rightarrow> None
        | Some observed \<Rightarrow>
            if observed = [] then None
            else
              let folder = butlast observed in
              if length folder < root_len (ap_style p) then None
              else
                let file = (observed = ap_segments p);
                    in_folder = (folder = ap_segments p)
                in (case ap_kind p of
                     File \<Rightarrow> if file then Some File else None
                   | Folder \<Rightarrow> if in_folder then Some Folder else None
                   | FolderTree \<Rightarrow> if prefix (ap_segments p) folder then Some FolderTree else None
                   | FileOrFolder \<Rightarrow>
                       if file then Some File else if in_folder then Some Folder else None))"

definition holds_files_in :: "(string \<Rightarrow> string) \<Rightarrow> app_path \<Rightarrow> string \<Rightarrow> bool" where
  "holds_files_in lc p folder =
     (if ap_profile p \<noteq> None then False
      else case path_segments lc folder (ap_style p) False of None \<Rightarrow> False
        | Some observed \<Rightarrow>
            if length observed < root_len (ap_style p) then False
            else (case ap_kind p of
                    File \<Rightarrow> False
                  | Folder \<Rightarrow> observed = ap_segments p
                  | FileOrFolder \<Rightarrow> observed = ap_segments p
                  | FolderTree \<Rightarrow> prefix (ap_segments p) observed))"

section \<open>Segments are clean and bounded\<close>

definition clean_segment :: "path_style \<Rightarrow> string \<Rightarrow> bool" where
  "clean_segment style s \<longleftrightarrow>
     s \<noteq> [] \<and> s \<noteq> ''.'' \<and> s \<noteq> ''..'' \<and> CHR ''*'' \<notin> set s \<and> separator style \<notin> set s"

lemma trim_dots_spaces_last:
  "trim_dots_spaces s \<noteq> [] \<Longrightarrow> last (trim_dots_spaces s) \<noteq> CHR ''.''"
  unfolding trim_dots_spaces_def
  using hd_dropWhile [of "\<lambda>c. c = CHR ''.'' \<or> c = CHR '' ''" "rev s"] by (auto simp: last_rev)

lemma trim_dots_spaces_set: "set (trim_dots_spaces s) \<subseteq> set s"
  unfolding trim_dots_spaces_def by (auto dest: set_dropWhileD)

lemma path_segment_clean:
  assumes "path_segment style raw = Some seg" "raw \<noteq> []" "raw \<noteq> ''.''" "raw \<noteq> ''..''"
    "CHR ''*'' \<notin> set seg" "separator style \<notin> set raw"
  shows "clean_segment style seg"
proof (cases "style = Windows")
  case True
  then have "seg = trim_dots_spaces raw" "seg \<noteq> []"
    using assms(1) by (auto simp: path_segment_def split: if_splits)
  then show ?thesis
    using trim_dots_spaces_last [of raw] trim_dots_spaces_set [of raw] assms
    by (auto simp: clean_segment_def)
qed (use assms in \<open>auto simp: path_segment_def clean_segment_def\<close>)

lemma segments_loop_clean:
  assumes "segments_loop style False acc raws = Some segs"
    "\<forall>r \<in> set raws. separator style \<notin> set r" "int (length acc) \<le> MAX_PATH_SEGMENTS"
  shows "\<exists>new. segs = acc @ new \<and> list_all (clean_segment style) new \<and>
    int (length segs) \<le> MAX_PATH_SEGMENTS"
  using assms
proof (induction raws arbitrary: acc)
  case (Cons raw raws)
  show ?case
  proof (cases "raw = [] \<or> raw = ''.''")
    case True
    then show ?thesis using Cons by auto
  next
    case F: False
    then obtain seg where seg: "raw \<noteq> ''..''" "path_segment style raw = Some seg" "CHR ''*'' \<notin> set seg"
      "int (length (acc @ [seg])) \<le> MAX_PATH_SEGMENTS"
      "segments_loop style False (acc @ [seg]) raws = Some segs"
      using Cons.prems(1) by (auto split: if_splits option.splits)
    then obtain new where "segs = (acc @ [seg]) @ new" "list_all (clean_segment style) new"
      "int (length segs) \<le> MAX_PATH_SEGMENTS"
      using Cons.IH [of "acc @ [seg]"] Cons.prems(2) by auto
    moreover have "clean_segment style seg"
      using path_segment_clean [OF seg(2)] F seg(1,3) Cons.prems(2) by auto
    ultimately show ?thesis by (intro exI [of _ "seg # new"]) auto
  qed
qed simp

lemma windows_root_one: "windows_root path = Some (segs, rest) \<Longrightarrow> length segs = 1"
  by (auto simp: windows_root_def Let_def split: option.splits list.splits if_splits)

lemma path_root_length: "path_root style path = Some (segs, rest) \<Longrightarrow> length segs = root_len style"
  by (cases style) (auto dest: windows_root_one)

text \<open>
  C24. Whatever text is read as a path, the reader is bounded and never yields a climbing or empty
  segment: at most 256 segments, the root of the platform in front, and every segment after it
  is non-empty, is neither \<open>.\<close> nor \<open>..\<close>, and holds no wildcard and no separator.
\<close>

theorem path_segments_clean:
  assumes "path_segments lc path style False = Some segs"
  shows "root_len style \<le> length segs \<and> int (length segs) \<le> MAX_PATH_SEGMENTS \<and>
    list_all (clean_segment style) (drop (root_len style) segs)"
proof -
  obtain root rest where r: "path_root style (if case_insensitive style then lc (trim path) else trim path)
      = Some (root, rest)"
    "segments_loop style False root (split_on (separator style) rest) = Some segs"
    using assms by (auto simp: path_segments_def Let_def split: if_splits option.splits)
  have l: "length root = root_len style" using r(1) by (rule path_root_length)
  moreover have "int (length root) \<le> MAX_PATH_SEGMENTS"
    using l by (cases style) (auto simp: MAX_PATH_SEGMENTS_def)
  moreover have "\<forall>x \<in> set (split_on (separator style) rest). separator style \<notin> set x"
    using split_by_no_sep by fastforce
  ultimately obtain new where "segs = root @ new" "list_all (clean_segment style) new"
    "int (length segs) \<le> MAX_PATH_SEGMENTS"
    using segments_loop_clean [OF r(2)] by blast
  with l show ?thesis by simp
qed

theorem path_segments_clean_witness:
  "root_len Linux \<le> length [''opt'', ''app''] \<and> int (length [''opt'', ''app'']) \<le> MAX_PATH_SEGMENTS \<and>
   list_all (clean_segment Linux) (drop (root_len Linux) [''opt'', ''app''])"
  by (rule path_segments_clean [of id "''/opt//./app/''"]) code_simp

section \<open>Profile paths stay inside the profile\<close>

lemma prefix_butlast_facts:
  "prefix s (butlast t) \<Longrightarrow> prefix s t" "prefix t (butlast t) \<Longrightarrow> t = []" "butlast t = t \<Longrightarrow> t = []"
    "butlast t = s \<Longrightarrow> prefix s t"
proof -
  show "prefix s (butlast t) \<Longrightarrow> prefix s t" using prefixeq_butlast prefix_order.trans by blast
  show "t = []" if "prefix t (butlast t)"
  proof -
    have "length t \<le> length t - 1" using prefix_length_le [OF that] by (simp only: length_butlast)
    then have "length t = 0" by linarith
    then show ?thesis by simp
  qed
  show "butlast t = s \<Longrightarrow> prefix s t" using prefixeq_butlast by blast
  show "butlast t = t \<Longrightarrow> t = []" by (metis append_butlast_last_id not_Cons_self2 self_append_conv)
qed

lemma match_image_prefix:
  assumes "match_image lc q img = Some k"
  obtains obs where "path_segments lc img (ap_style q) False = Some obs"
    "prefix (ap_segments q) obs" "ap_segments q = obs \<Longrightarrow> ap_kind q = File \<or> ap_kind q = FileOrFolder"
proof -
  obtain obs where o: "path_segments lc img (ap_style q) False = Some obs" "obs \<noteq> []"
    using assms by (auto simp: match_image_def split: if_splits option.splits)
  have "prefix (ap_segments q) obs \<and>
    (ap_segments q = obs \<longrightarrow> ap_kind q = File \<or> ap_kind q = FileOrFolder)"
    using assms o
    by (auto simp: match_image_def Let_def prefixeq_butlast
        split: if_splits app_path_kind.splits dest: prefix_butlast_facts)
  with o(1) that show ?thesis by blast
qed

lemma under_profile_shape:
  assumes "under_profile lc folder rest tree style = Inr p"
  obtains below where "ap_style p = style" "ap_profile p = Some folder"
    "ap_segments p = probe_root style @ below_profile folder @ below"
    "ap_kind p = File \<or> ap_kind p = FileOrFolder \<longrightarrow> below \<noteq> []"
  using assms
  by (auto simp: under_profile_def Let_def path_kind_def split: option.splits if_splits)

lemma parse_profile_shape:
  assumes "app_path_parse lc raw style = Inr p" "ap_profile p = Some folder"
  obtains below where "ap_style p = style"
    "ap_segments p = probe_root style @ below_profile folder @ below"
    "ap_kind p = File \<or> ap_kind p = FileOrFolder \<longrightarrow> below \<noteq> []"
proof -
  obtain f rest tree where "under_profile lc f rest tree style = Inr p"
    using assms by (auto simp: app_path_parse_def Let_def split: if_splits sum.splits option.splits)
  then show ?thesis using that assms(2) by (elim under_profile_shape) auto
qed

text \<open>
  C25. A rule written below a profile folder names programs of that owner's profile only: before it
  is resolved it matches no image at all, and resolved for an owner it matches an image only
  when the image lies strictly below that owner's profile folder.
\<close>

theorem profile_path_confined:
  assumes "app_path_parse lc raw style = Inr p" "ap_profile p = Some folder"
    "for_profile lc p profile = Inr q" "match_image lc q img = Some k"
  shows "match_image lc p img = None \<and>
    (\<exists>base obs. path_segments lc profile style False = Some base \<and>
       path_segments lc img style False = Some obs \<and> strict_prefix base obs)"
proof -
  obtain below where p: "ap_style p = style" "ap_segments p = probe_root style @ below_profile folder @ below"
    "ap_kind p = File \<or> ap_kind p = FileOrFolder \<longrightarrow> below \<noteq> []"
    using assms(1,2) by (rule parse_profile_shape)
  obtain base where base: "path_segments lc profile style False = Some base"
    and q: "ap_style q = style" "ap_kind q = ap_kind p"
      "ap_segments q = base @ below_profile folder @ below"
    using assms(2,3) p(1,2) by (auto simp: for_profile_def Let_def split: if_splits option.splits)
  obtain obs where obs: "path_segments lc img style False = Some obs" "prefix (ap_segments q) obs"
    "ap_segments q = obs \<Longrightarrow> below \<noteq> []"
    using match_image_prefix [OF assms(4)] q p(3) by metis
  have "strict_prefix base obs"
    using obs(2,3) q(3) by (auto simp: strict_prefix_def prefix_def)
  moreover have "match_image lc p img = None" using assms(2) by (simp add: match_image_def)
  ultimately show ?thesis using base obs(1) by blast
qed

theorem profile_path_confined_witness:
  "match_image id (projr (app_path_parse id ''~/apps/*'' Linux)) ''/home/ann/apps/x/run'' = None \<and>
   (\<exists>base obs. path_segments id ''/home/ann'' Linux False = Some base \<and>
      path_segments id ''/home/ann/apps/x/run'' Linux False = Some obs \<and> strict_prefix base obs)"
proof (rule profile_path_confined [of _ "''~/apps/*''" _ _ Home _
      "projr (for_profile id (projr (app_path_parse id ''~/apps/*'' Linux)) ''/home/ann'')" _ FolderTree])
  show "app_path_parse id ''~/apps/*'' Linux = Inr (projr (app_path_parse id ''~/apps/*'' Linux))"
    by code_simp
  show "ap_profile (projr (app_path_parse id ''~/apps/*'' Linux)) = Some Home" by code_simp
  show "for_profile id (projr (app_path_parse id ''~/apps/*'' Linux)) ''/home/ann'' =
      Inr (projr (for_profile id (projr (app_path_parse id ''~/apps/*'' Linux)) ''/home/ann''))"
    by code_simp
  show "match_image id (projr (for_profile id (projr (app_path_parse id ''~/apps/*'' Linux)) ''/home/ann''))
      ''/home/ann/apps/x/run'' = Some FolderTree" by code_simp
qed

end
