(* ===== verification/Std_Net.thy ===== *)
theory Std_Net
  imports NRR_Prelude "HOL-Library.Word"
begin

text \<open>
  The part of the standard library's \<open>net\<close> module the router uses: \<open>IpAddr\<close> over 32 and
  128 bit words, the textual parser (\<open>str::parse::<IpAddr>\<close>) with its bounded digit reader,
  embedded IPv4 tails and \<open>::\<close>, the \<open>Display\<close> forms with the longest zero run compressed, and
  \<open>leading_zeros\<close> / \<open>trailing_zeros\<close> of \<open>u128\<close>.
\<close>

unbundle bit_operations_syntax

type_synonym u32 = "32 word"
type_synonym u128 = "128 word"

datatype ip_addr = V4 u32 | V6 u128

fun is_ipv4 :: "ip_addr \<Rightarrow> bool" where
  "is_ipv4 (V4 _) = True"
| "is_ipv4 (V6 _) = False"

section \<open>Words as numbers\<close>

lemma unat_word_less: "unat (w :: 'a :: len word) < 2 ^ LENGTH('a)"
  by (rule unsigned_less)

lemma unat_ucast_u128 [simp]: "unat (ucast (w :: u32) :: u128) = unat w"
  using unat_word_less [of w] by (simp add: unsigned_ucast_eq take_bit_nat_eq_self)

lemma unat_ucast_u32: "unat (v :: u128) < 2 ^ 32 \<Longrightarrow> unat (ucast v :: u32) = unat v"
  by (simp add: unsigned_ucast_eq unsigned_take_bit_eq take_bit_nat_eq_self)

text \<open>\<open>saturating_add(1)\<close> of an unsigned integer.\<close>

definition saturating_inc :: "'a::len word \<Rightarrow> 'a word" where
  "saturating_inc w = (if w = - 1 then - 1 else w + 1)"

lemma unat_succ:
  fixes w :: "'a::len word"
  assumes "w \<noteq> - 1"
  shows "unat (w + 1) = unat w + 1"
proof -
  have "w < - 1" using assms word_order.not_eq_extremum by blast
  then have "unat w + 1 < 2 ^ LENGTH('a)" using unat_word_less [of "- 1 :: 'a word"] by (simp only: word_less_nat_alt)
  then show ?thesis by (simp add: unat_plus_if')
qed

lemma saturating_inc_ge: "w \<le> saturating_inc w"
  using unat_succ [of w] by (auto simp: saturating_inc_def word_le_nat_alt)

lemma saturating_inc_fixed: "saturating_inc w \<le> w \<Longrightarrow> saturating_inc w = - 1"
  using unat_succ [of w] by (auto simp: saturating_inc_def word_le_nat_alt split: if_splits)

section \<open>Octets and groups\<close>

definition octets :: "u32 \<Rightarrow> int list" where
  "octets w = map (\<lambda>i. uint (drop_bit i w) mod 256) [24, 16, 8, 0]"

definition v4_of :: "int list \<Rightarrow> u32" where
  "v4_of os = of_int (foldl (\<lambda>a d. a * 256 + d) 0 os)"

definition segments :: "u128 \<Rightarrow> int list" where
  "segments w = map (\<lambda>i. uint (drop_bit i w) mod 65536) [112, 96, 80, 64, 48, 32, 16, 0]"

definition v6_of :: "int list \<Rightarrow> u128" where
  "v6_of gs = of_int (foldl (\<lambda>a d. a * 65536 + d) 0 gs)"

section \<open>Reading addresses\<close>

text \<open>
  A parser state is the unread text. Readers are atomic: a failing reader leaves the caller's
  text in place, which is what returning \<open>None\<close> expresses.
\<close>

fun read_digits :: "int \<Rightarrow> int \<Rightarrow> nat \<Rightarrow> string \<Rightarrow> int \<times> nat \<times> string" where
  "read_digits radix acc n [] = (acc, n, [])"
| "read_digits radix acc n (c # s) =
     (case to_digit radix c of None \<Rightarrow> (acc, n, c # s)
      | Some d \<Rightarrow> read_digits radix (acc * radix + d) (n + 1) s)"

text \<open>\<open>read_number(radix, Some(max_digits), allow_zero_prefix)\<close>, bounded by the target type.\<close>

definition read_number :: "int \<Rightarrow> nat \<Rightarrow> bool \<Rightarrow> int \<Rightarrow> string \<Rightarrow> (int \<times> string) option" where
  "read_number radix max_digits allow_zero_prefix bound s =
     (case read_digits radix 0 0 s of (v, n, rest) \<Rightarrow>
        if n > max_digits \<or> n = 0 then None
        else if \<not> allow_zero_prefix \<and> take 1 s = ''0'' \<and> n > 1 then None
        else if v < bound then Some (v, rest) else None)"

definition read_given_char :: "char \<Rightarrow> string \<Rightarrow> string option" where
  "read_given_char c s = strip_prefix_str [c] s"

definition read_separator ::
  "char \<Rightarrow> nat \<Rightarrow> (string \<Rightarrow> ('a \<times> string) option) \<Rightarrow> string \<Rightarrow> ('a \<times> string) option" where
  "read_separator c i p s =
     (if i > 0 then (case read_given_char c s of None \<Rightarrow> None | Some s' \<Rightarrow> p s') else p s)"

fun read_octets :: "nat \<Rightarrow> nat \<Rightarrow> string \<Rightarrow> (int list \<times> string) option" where
  "read_octets i 0 s = Some ([], s)"
| "read_octets i (Suc n) s =
     (case read_separator (CHR ''.'') i (read_number 10 3 False 256) s of
        None \<Rightarrow> None
      | Some (d, s') \<Rightarrow>
          (case read_octets (i + 1) n s' of None \<Rightarrow> None
           | Some (ds, s'') \<Rightarrow> Some (d # ds, s'')))"

definition read_ipv4_addr :: "string \<Rightarrow> (u32 \<times> string) option" where
  "read_ipv4_addr s = (case read_octets 0 4 s of None \<Rightarrow> None | Some (ds, r) \<Rightarrow> Some (v4_of ds, r))"

text \<open>
  \<open>read_groups\<close>: the groups read, whether the last two came from an embedded IPv4 address, and
  the rest. \<open>k\<close> is the number of slots left.
\<close>

fun read_groups :: "nat \<Rightarrow> nat \<Rightarrow> string \<Rightarrow> int list \<times> bool \<times> string" where
  "read_groups i 0 s = ([], False, s)"
| "read_groups i (Suc k) s =
     (case (if k > 0 then read_separator (CHR '':'') i read_ipv4_addr s else None) of
        Some (v4, r) \<Rightarrow> ([uint v4 div 65536, uint v4 mod 65536], True, r)
      | None \<Rightarrow>
          (case read_separator (CHR '':'') i (read_number 16 4 True 65536) s of
             None \<Rightarrow> ([], False, s)
           | Some (g, r) \<Rightarrow>
               (case read_groups (i + 1) k r of (gs, v4, r') \<Rightarrow> (g # gs, v4, r'))))"

definition read_ipv6_addr :: "string \<Rightarrow> (u128 \<times> string) option" where
  "read_ipv6_addr s =
     (case read_groups 0 8 s of (head, head_ipv4, r) \<Rightarrow>
        if length head = 8 then Some (v6_of head, r)
        else if head_ipv4 then None
        else case strip_prefix_str ''::'' r of None \<Rightarrow> None
          | Some r' \<Rightarrow>
              (case read_groups 0 (8 - (length head + 1)) r' of (tail, _, r'') \<Rightarrow>
                 Some (v6_of (head @ replicate (8 - length head - length tail) 0 @ tail), r'')))"

definition parse_ipv4 :: "string \<Rightarrow> u32 option" where
  "parse_ipv4 s = (if length s > 15 then None
     else case read_ipv4_addr s of Some (a, []) \<Rightarrow> Some a | _ \<Rightarrow> None)"

definition parse_ip_addr :: "string \<Rightarrow> ip_addr option" where
  "parse_ip_addr s =
     (case read_ipv4_addr s of
        Some (a, r) \<Rightarrow> if r = [] then Some (V4 a) else None
      | None \<Rightarrow> (case read_ipv6_addr s of
            Some (a, r) \<Rightarrow> if r = [] then Some (V6 a) else None | None \<Rightarrow> None))"

section \<open>Writing addresses\<close>

definition show_ipv4 :: "u32 \<Rightarrow> string" where
  "show_ipv4 w = join_with (CHR ''.'') (map (digits_of 10) (octets w))"

text \<open>\<open>Ipv6Addr::to_ipv4_mapped\<close>: the address is \<open>::ffff:a.b.c.d\<close>.\<close>

definition to_ipv4_mapped :: "u128 \<Rightarrow> u32 option" where
  "to_ipv4_mapped w = (if drop_bit 32 w = 0xffff then Some (ucast w) else None)"

text \<open>The first longest run of zero groups, as (start, length).\<close>

fun zero_run :: "nat \<Rightarrow> (nat \<times> nat) \<Rightarrow> (nat \<times> nat) \<Rightarrow> int list \<Rightarrow> nat \<times> nat" where
  "zero_run i cur best [] = best"
| "zero_run i cur best (g # gs) =
     (if g = 0 then
        (let cur' = (if snd cur = 0 then (i, 1) else (fst cur, snd cur + 1));
             best' = (if snd cur' > snd best then cur' else best)
         in zero_run (i + 1) cur' best' gs)
      else zero_run (i + 1) (0, 0) best gs)"

definition show_groups :: "int list \<Rightarrow> string" where
  "show_groups gs = join_with (CHR '':'') (map (digits_of 16) gs)"

definition show_ipv6 :: "u128 \<Rightarrow> string" where
  "show_ipv6 w =
     (case to_ipv4_mapped w of Some v4 \<Rightarrow> ''::ffff:'' @ show_ipv4 v4
      | None \<Rightarrow>
          (let gs = segments w; (s, n) = zero_run 0 (0, 0) (0, 0) gs in
           if n > 1 then show_groups (take s gs) @ ''::'' @ show_groups (drop (s + n) gs)
           else show_groups gs))"

fun show_ip_addr :: "ip_addr \<Rightarrow> string" where
  "show_ip_addr (V4 w) = show_ipv4 w"
| "show_ip_addr (V6 w) = show_ipv6 w"

end
