(* ===== verification/Ip_Block.thy ===== *)
theory Ip_Block
  imports Std_Net
begin

text \<open>
  Networks and address ranges, \<open>src/shared/contracts/src/ip_block.rs\<close>. A block is a masked
  address with a prefix length; a range carries its decomposition into aligned blocks. The word
  operations are the code's; the lemmas read them as intervals of natural numbers, from which
  membership, cover, overlap and the exactness and minimality of the decomposition follow.
  An overflow that would panic is a branch of \<open>decompose_loop\<close> returning \<^term>\<open>None\<close>.
\<close>

section \<open>Bit level helpers\<close>

definition family_bits :: "ip_addr \<Rightarrow> nat" where
  "family_bits address = (if is_ipv4 address then 32 else 128)"

definition full :: "nat \<Rightarrow> u128" where
  "full bits = (if bits \<ge> 128 then - 1 else push_bit bits 1 - 1)"

definition mask_of :: "nat \<Rightarrow> nat \<Rightarrow> u128" where
  "mask_of prefix_len bits =
     (let host_bits = bits - prefix_len in
      if host_bits \<ge> 128 then 0 else full bits AND NOT (push_bit host_bits 1 - 1))"

fun to_bits :: "ip_addr \<Rightarrow> u128" where
  "to_bits (V4 v4) = ucast v4"
| "to_bits (V6 v6) = v6"

fun from_bits :: "ip_addr \<Rightarrow> u128 \<Rightarrow> ip_addr" where
  "from_bits (V4 _) v = V4 (ucast v)"
| "from_bits (V6 _) v = V6 v"

section \<open>Blocks\<close>

record ip_block =
  network :: ip_addr
  prefix_len :: nat

definition block_new :: "ip_addr \<Rightarrow> nat \<Rightarrow> ip_block option" where
  "block_new address plen =
     (let bits = family_bits address in
      if plen > bits then None
      else Some \<lparr>network = from_bits address (to_bits address AND mask_of plen bits),
                 prefix_len = plen\<rparr>)"

text \<open>\<open>u8::from_str\<close> on a text that is all digits.\<close>

definition parse_u8_digits :: "string \<Rightarrow> nat option" where
  "parse_u8_digits s = (case digits_value 10 0 s of
     Some v \<Rightarrow> if v < 256 then Some (nat v) else None | None \<Rightarrow> None)"

definition block_parse :: "string \<Rightarrow> ip_block option" where
  "block_parse text =
     (case split_once (CHR ''/'') (trim text) of None \<Rightarrow> None
      | Some (address, prefix0) \<Rightarrow>
          (let prefix = trim prefix0 in
           if prefix = [] \<or> \<not> list_all ascii_digit prefix then None
           else case parse_ip_addr (trim address) of None \<Rightarrow> None
             | Some a \<Rightarrow> (case parse_u8_digits prefix of None \<Rightarrow> None | Some p \<Rightarrow> block_new a p)))"

definition block_is_ipv4 :: "ip_block \<Rightarrow> bool" where
  "block_is_ipv4 b = is_ipv4 (network b)"

definition max_prefix_len :: "ip_block \<Rightarrow> nat" where
  "max_prefix_len b = (if block_is_ipv4 b then 32 else 128)"

definition is_single_address :: "ip_block \<Rightarrow> bool" where
  "is_single_address b \<longleftrightarrow> prefix_len b = max_prefix_len b"

definition block_last :: "ip_block \<Rightarrow> ip_addr" where
  "block_last b =
     (let bits = family_bits (network b) in
      from_bits (network b)
        (to_bits (network b) OR (NOT (mask_of (prefix_len b) bits) AND full bits)))"

definition block_contains :: "ip_block \<Rightarrow> ip_addr \<Rightarrow> bool" where
  "block_contains b address \<longleftrightarrow>
     is_ipv4 address = block_is_ipv4 b \<and> block_new address (prefix_len b) = Some b"

definition block_covers :: "ip_block \<Rightarrow> ip_block \<Rightarrow> bool" where
  "block_covers b other \<longleftrightarrow>
     prefix_len other \<ge> prefix_len b \<and> block_contains b (network other)"

definition block_overlaps :: "ip_block \<Rightarrow> ip_block \<Rightarrow> bool" where
  "block_overlaps b other \<longleftrightarrow> block_covers b other \<or> block_covers other b"

definition show_block :: "ip_block \<Rightarrow> string" where
  "show_block b = show_ip_addr (network b) @ ''/'' @ dec (prefix_len b)"

section \<open>Canonical forms\<close>

fun canonical_ip :: "ip_addr \<Rightarrow> ip_addr" where
  "canonical_ip (V6 v6) = (case to_ipv4_mapped v6 of Some v4 \<Rightarrow> V4 v4 | None \<Rightarrow> V6 v6)"
| "canonical_ip (V4 v4) = V4 v4"

definition canonical_block :: "ip_block \<Rightarrow> ip_block" where
  "canonical_block block =
     (if \<not> block_is_ipv4 block \<and> prefix_len block \<ge> 96 then
        (let mapped = canonical_ip (network block) in
         if is_ipv4 mapped then
           (case block_new mapped (prefix_len block - 96) of Some b \<Rightarrow> b | None \<Rightarrow> block)
         else block)
      else block)"

section \<open>Ranges and their decomposition\<close>

definition trailing_zeros :: "u128 \<Rightarrow> nat" where
  "trailing_zeros w = length (takeWhile (\<lambda>i. \<not> bit w i) [0..<128])"

definition leading_zeros :: "u128 \<Rightarrow> nat" where
  "leading_zeros w = length (takeWhile (\<lambda>i. \<not> bit w (127 - i)) [0..<128])"

definition checked_sub :: "u128 \<Rightarrow> u128 \<Rightarrow> u128 option" where
  "checked_sub a b = (if b \<le> a then Some (a - b) else None)"

definition checked_add :: "u128 \<Rightarrow> u128 \<Rightarrow> u128 option" where
  "checked_add a b = (if a \<le> a + b then Some (a + b) else None)"

lemma unat_succ_less:
  fixes a b :: u128
  assumes "\<not> b \<le> a"
  shows "unat (a + 1) = unat a + 1"
  using assms unat_word_less [of b] by (simp add: unat_plus_if' word_le_nat_alt)

lemma block_end_ge:
  "(if s then Some (- 1) else checked_add cur x) = Some bl \<Longrightarrow> cur \<le> bl"
  by (auto simp: checked_add_def split: if_splits)

lemma decompose_loop_measure:
  fixes cur en bl :: u128
  assumes "cur \<le> bl" "\<not> en \<le> bl"
  shows "unat en - unat (bl + 1) < unat en - unat cur"
  using assms unat_succ_less [OF assms(2)] by (simp add: word_le_nat_alt)

function decompose_loop :: "nat \<Rightarrow> ip_addr \<Rightarrow> u128 \<Rightarrow> u128 \<Rightarrow> ip_block list option" where
  "decompose_loop bits first cur en =
     (let align = (if cur = 0 then bits else min (trailing_zeros cur) bits) in
      case checked_sub en cur of None \<Rightarrow> None
      | Some d \<Rightarrow>
          (let fit = (case checked_add d 1 of
                 Some c \<Rightarrow> 128 - 1 - leading_zeros c
               | None \<Rightarrow> 128);
               size_bits = min align fit;
               b = \<lparr>network = from_bits first cur, prefix_len = bits - size_bits\<rparr>
           in case (if size_bits \<ge> 128 then Some (- 1)
                    else checked_add cur (push_bit size_bits 1 - 1)) of
                None \<Rightarrow> None
              | Some bl \<Rightarrow>
                  if bl \<ge> en then Some [b]
                  else (case decompose_loop bits first (bl + 1) en of
                          None \<Rightarrow> None | Some out \<Rightarrow> Some (b # out))))"
  by pat_completeness auto

termination
proof (relation "measure (\<lambda>(bits, first, cur, en). unat en - unat cur)", goal_cases)
  case (2 bits first cur en)
  then show ?case
    by (simp only: in_measure prod.case) (rule decompose_loop_measure, erule block_end_ge)
qed simp

declare decompose_loop.simps [simp del]

definition decompose :: "ip_addr \<Rightarrow> ip_addr \<Rightarrow> ip_block list option" where
  "decompose first lst = decompose_loop (family_bits first) first (to_bits first) (to_bits lst)"

record ip_range =
  range_first :: ip_addr
  range_last :: ip_addr
  range_blocks :: "ip_block list"

text \<open>\<open>None\<close> for refused bounds; a panic of the decomposition would be \<open>Some None\<close>.\<close>

definition range_new :: "ip_addr \<Rightarrow> ip_addr \<Rightarrow> ip_range option option" where
  "range_new first lst =
     (if is_ipv4 first \<noteq> is_ipv4 lst \<or> to_bits first > to_bits lst then None
      else Some (case decompose first lst of None \<Rightarrow> None
        | Some bs \<Rightarrow> Some \<lparr>range_first = first, range_last = lst, range_blocks = bs\<rparr>))"

definition range_parse :: "string \<Rightarrow> ip_range option option" where
  "range_parse text =
     (case split_once (CHR ''-'') (trim text) of None \<Rightarrow> None
      | Some (first, lst) \<Rightarrow>
          (case parse_ip_addr (trim first) of None \<Rightarrow> None
           | Some a \<Rightarrow> (case parse_ip_addr (trim lst) of None \<Rightarrow> None
               | Some b \<Rightarrow> range_new a b)))"

definition range_is_ipv4 :: "ip_range \<Rightarrow> bool" where
  "range_is_ipv4 r = is_ipv4 (range_first r)"

definition range_contains :: "ip_range \<Rightarrow> ip_addr \<Rightarrow> bool" where
  "range_contains r address \<longleftrightarrow>
     is_ipv4 address = range_is_ipv4 r \<and>
     to_bits (range_first r) \<le> to_bits address \<and> to_bits address \<le> to_bits (range_last r)"

definition width_bits :: "ip_range \<Rightarrow> nat" where
  "width_bits r =
     (let span = to_bits (range_last r) - to_bits (range_first r) in
      if span = 0 then 0 else 128 - leading_zeros span)"

definition show_range :: "ip_range \<Rightarrow> string" where
  "show_range r = show_ip_addr (range_first r) @ ''-'' @ show_ip_addr (range_last r)"

section \<open>Reading words as numbers\<close>

abbreviation addr_nat :: "ip_addr \<Rightarrow> nat" where
  "addr_nat a \<equiv> unat (to_bits a)"

abbreviation same_family :: "ip_addr \<Rightarrow> ip_addr \<Rightarrow> bool" where
  "same_family a b \<equiv> is_ipv4 a = is_ipv4 b"

lemma bit_full: "bit (full bits) n \<longleftrightarrow> n < bits \<and> n < 128"
  unfolding full_def by (auto simp: bit_mask_iff bit_simps simp flip: mask_eq_exp_minus_1)

lemma bit_low: "bit (2 ^ h - 1 :: u128) n \<longleftrightarrow> n < h \<and> n < 128"
  by (auto simp: bit_mask_iff simp flip: mask_eq_exp_minus_1)

lemma bit_unat_bound: "n \<ge> bits \<Longrightarrow> unat w < 2 ^ bits \<Longrightarrow> \<not> bit w n" for w :: u128
  using bit_take_bit_iff [of bits "unat w" n]
  by (simp add: take_bit_nat_eq_self bit_unsigned_iff)

lemma unat_and_mask_of:
  fixes w :: u128
  assumes "p \<le> bits" "bits \<le> 128" "unat w < 2 ^ bits"
  shows "unat (w AND mask_of p bits) = unat w div 2 ^ (bits - p) * 2 ^ (bits - p)"
proof -
  have "unat (w AND mask_of p bits) = push_bit (bits - p) (drop_bit (bits - p) (unat w))"
  proof (rule bit_eqI)
    fix n
    have "bit w n \<longrightarrow> n < bits" using bit_unat_bound assms(3) not_le by blast
    then show "bit (unat (w AND mask_of p bits)) n =
      bit (push_bit (bits - p) (drop_bit (bits - p) (unat w))) n"
      using assms bit_imp_le_length [of w n]
      by (auto simp: mask_of_def Let_def bit_unsigned_iff bit_and_iff bit_not_iff bit_full bit_low
          bit_push_bit_iff bit_drop_bit_eq not_le)
  qed
  then show ?thesis by (simp add: push_bit_eq_mult drop_bit_eq_div)
qed

lemma family_bits_cases: "family_bits a = 32 \<or> family_bits a = 128"
  by (simp add: family_bits_def)

lemma family_bits_le [simp]: "family_bits a \<le> 128"
  by (simp add: family_bits_def)

lemma same_family_bits: "same_family a b \<Longrightarrow> family_bits a = family_bits b"
  by (simp add: family_bits_def)

lemma addr_nat_bound: "addr_nat a < 2 ^ family_bits a"
proof (cases a)
  case (V4 w)
  then show ?thesis using unat_word_less [of w] by (simp add: family_bits_def)
next
  case (V6 w)
  then show ?thesis using unat_word_less [of w] by (simp add: family_bits_def)
qed

lemma is_ipv4_from_bits [simp]: "is_ipv4 (from_bits a v) = is_ipv4 a"
  by (cases a) auto

lemma addr_nat_from_bits: "unat v < 2 ^ family_bits a \<Longrightarrow> addr_nat (from_bits a v) = unat v"
  by (cases a) (auto simp: family_bits_def unat_ucast_u32)

lemma addr_eq_iff: "same_family a b \<Longrightarrow> addr_nat a = addr_nat b \<Longrightarrow> a = b"
  by (cases a; cases b) (auto dest: unsigned_word_eqI)

section \<open>Blocks as intervals\<close>

definition host_bits :: "ip_block \<Rightarrow> nat" where
  "host_bits b = family_bits (network b) - prefix_len b"

text \<open>The invariant every constructor of a block establishes: a legal, masked network.\<close>

definition wf_block :: "ip_block \<Rightarrow> bool" where
  "wf_block b \<longleftrightarrow>
     prefix_len b \<le> family_bits (network b) \<and> 2 ^ host_bits b dvd addr_nat (network b)"

text \<open>The addresses a block names: the aligned interval of its family.\<close>

definition block_set :: "ip_block \<Rightarrow> ip_addr set" where
  "block_set b = {a. same_family a (network b) \<and>
     addr_nat (network b) \<le> addr_nat a \<and> addr_nat a < addr_nat (network b) + 2 ^ host_bits b}"

lemma block_eqI:
  "network a = network b \<Longrightarrow> prefix_len a = prefix_len b \<Longrightarrow> a = (b :: ip_block)"
  by simp

lemma block_new_Some:
  assumes "block_new a p = Some b"
  shows "p \<le> family_bits a" "prefix_len b = p" "same_family (network b) a"
    "addr_nat (network b) = addr_nat a div 2 ^ (family_bits a - p) * 2 ^ (family_bits a - p)"
proof -
  have le: "x div 2 ^ h * 2 ^ h < 2 ^ n" if "x < 2 ^ n" for x h n :: nat
    using that div_times_less_eq_dividend le_less_trans by blast
  show "p \<le> family_bits a" "prefix_len b = p" "same_family (network b) a"
    "addr_nat (network b) = addr_nat a div 2 ^ (family_bits a - p) * 2 ^ (family_bits a - p)"
    using assms addr_nat_bound [of a]
    by (auto simp: block_new_def Let_def unat_and_mask_of le addr_nat_from_bits split: if_splits)
qed

lemma block_new_None: "block_new a p = None \<longleftrightarrow> family_bits a < p"
  by (simp add: block_new_def Let_def)

lemma block_new_wf:
  assumes "block_new a p = Some b"
  shows "wf_block b" "a \<in> block_set b"
proof -
  note n = block_new_Some [OF assms]
  have fb: "family_bits (network b) = family_bits a" using n(3) by (rule same_family_bits)
  show "wf_block b" using n by (simp add: wf_block_def host_bits_def fb)
  have "addr_nat a < addr_nat a div 2 ^ h * 2 ^ h + 2 ^ h" for h
    using dividend_less_div_times [of "2 ^ h" "addr_nat a"] by simp
  then show "a \<in> block_set b"
    using n by (simp add: block_set_def host_bits_def fb)
qed

lemma aligned_div_eq:
  fixes n x k :: nat
  assumes "2 ^ k dvd n"
  shows "x div 2 ^ k * 2 ^ k = n \<longleftrightarrow> n \<le> x \<and> x < n + 2 ^ k"
proof
  assume "x div 2 ^ k * 2 ^ k = n"
  then show "n \<le> x \<and> x < n + 2 ^ k"
    using dividend_less_div_times [of "2 ^ k" x] div_times_less_eq_dividend [of x "2 ^ k"] by simp
next
  assume b: "n \<le> x \<and> x < n + 2 ^ k"
  obtain q where q: "n = 2 ^ k * q" using assms by blast
  have "x div 2 ^ k = q" using b q by (simp add: div_nat_eqI)
  then show "x div 2 ^ k * 2 ^ k = n" using q by simp
qed

lemma block_contains_iff:
  assumes "wf_block b"
  shows "block_contains b a \<longleftrightarrow> a \<in> block_set b"
proof (cases "same_family a (network b)")
  case True
  have fb: "family_bits a = family_bits (network b)" using True by (rule same_family_bits)
  with assms obtain c where c: "block_new a (prefix_len b) = Some c"
    by (metis block_new_None not_None_eq not_le wf_block_def)
  note n = block_new_Some [OF c]
  have "c = b \<longleftrightarrow> addr_nat (network c) = addr_nat (network b)"
    using n True addr_eq_iff by (metis block_eqI)
  then show ?thesis
    using True c n fb assms aligned_div_eq [of "host_bits b" "addr_nat (network b)" "addr_nat a"]
    by (simp add: block_contains_def block_is_ipv4_def block_set_def wf_block_def host_bits_def)
qed (simp add: block_contains_def block_is_ipv4_def block_set_def)

lemma aligned_step:
  fixes x y :: nat
  assumes "d dvd x" "d dvd y" "x < y"
  shows "x + d \<le> y"
  using assms by (metis dvd_diff_nat dvd_imp_le le_diff_conv2 less_imp_le_nat zero_less_diff add.commute)

lemma aligned_nest:
  fixes x n :: nat
  assumes "2 ^ k dvd x" "2 ^ m dvd n" "k \<le> m" "x < n + 2 ^ m"
  shows "x + 2 ^ k \<le> n + 2 ^ m"
  using assms by (intro aligned_step) (auto intro: dvd_add power_le_dvd le_imp_power_dvd)

lemma wf_block_bound: "wf_block b \<Longrightarrow> addr_nat (network b) + 2 ^ host_bits b \<le> 2 ^ family_bits (network b)"
  using addr_nat_bound [of "network b"]
  by (intro aligned_step) (auto simp: wf_block_def host_bits_def intro: le_imp_power_dvd)

lemma addr_exists:
  assumes "x < 2 ^ family_bits a"
  obtains c where "same_family c a" "addr_nat c = x"
proof
  have "(2::nat) ^ family_bits a \<le> 2 ^ 128" by (rule power_increasing) auto
  with assms have "unat (of_nat x :: u128) = x"
    by (simp add: unsigned_of_nat take_bit_nat_eq_self)
  with assms show "same_family (from_bits a (of_nat x)) a"
    "addr_nat (from_bits a (of_nat x)) = x" by (simp_all add: addr_nat_from_bits)
qed

lemma block_set_eq_image:
  "wf_block b \<Longrightarrow> addr_nat ` block_set b = {addr_nat (network b) ..< addr_nat (network b) + 2 ^ host_bits b}"
proof safe
  fix x assume "wf_block b" "x \<in> {addr_nat (network b) ..< addr_nat (network b) + 2 ^ host_bits b}"
  moreover from this have "x < 2 ^ family_bits (network b)" using wf_block_bound [of b] by simp
  then obtain c where "same_family c (network b)" "addr_nat c = x" by (rule addr_exists)
  ultimately show "x \<in> addr_nat ` block_set b" by (auto simp: block_set_def)
qed (simp add: block_set_def)

lemma addr_nat_inj_block: "inj_on addr_nat (block_set b)"
  by (rule inj_onI) (auto simp: block_set_def intro: addr_eq_iff)

lemma network_in_block [simp]: "network b \<in> block_set b"
  by (simp add: block_set_def)

lemma block_card: "wf_block b \<Longrightarrow> card (block_set b) = 2 ^ host_bits b"
  using block_set_eq_image [of b] card_image [OF addr_nat_inj_block [of b]] by simp

lemma block_covers_iff:
  assumes "wf_block a" "wf_block b"
  shows "block_covers a b \<longleftrightarrow> block_set b \<subseteq> block_set a"
proof
  assume c: "block_covers a b"
  then have "network b \<in> block_set a"
    using assms by (simp add: block_covers_def block_contains_iff)
  moreover from this have "family_bits (network b) = family_bits (network a)"
    by (intro same_family_bits) (simp add: block_set_def)
  moreover from this c have "host_bits b \<le> host_bits a"
    by (auto simp: block_covers_def host_bits_def intro: diff_le_mono2)
  ultimately have "addr_nat (network b) + 2 ^ host_bits b \<le> addr_nat (network a) + 2 ^ host_bits a"
    using assms by (intro aligned_nest) (auto simp: wf_block_def block_set_def)
  with \<open>network b \<in> block_set a\<close> show "block_set b \<subseteq> block_set a"
    by (auto simp: block_set_def)
next
  assume s: "block_set b \<subseteq> block_set a"
  then have n: "network b \<in> block_set a" by (rule subsetD) simp
  then have fb: "family_bits (network b) = family_bits (network a)"
    by (intro same_family_bits) (simp add: block_set_def)
  have "finite (block_set a)"
    using block_card [OF assms(1)] by (intro card_ge_0_finite) simp
  then have "card (block_set b) \<le> card (block_set a)" using s by (rule card_mono)
  then have "host_bits b \<le> host_bits a" using assms by (simp add: block_card)
  then have "prefix_len a \<le> prefix_len b" using assms fb by (auto simp: wf_block_def host_bits_def)
  then show "block_covers a b" using n assms by (simp add: block_covers_def block_contains_iff)
qed

lemma block_overlaps_iff:
  assumes "wf_block a" "wf_block b"
  shows "block_overlaps a b \<longleftrightarrow> block_set a \<inter> block_set b \<noteq> {}"
proof
  assume "block_overlaps a b"
  then have "block_set b \<subseteq> block_set a \<or> block_set a \<subseteq> block_set b"
    using assms by (simp add: block_overlaps_def block_covers_iff)
  then show "block_set a \<inter> block_set b \<noteq> {}" using network_in_block by blast
next
  have *: "block_covers c d"
    if "wf_block c" "wf_block d" "x \<in> block_set c" "x \<in> block_set d" "prefix_len c \<le> prefix_len d"
    for c d x
  proof -
    have f: "same_family (network d) (network c)" using that by (auto simp: block_set_def)
    then have fb: "family_bits (network d) = family_bits (network c)" by (rule same_family_bits)
    have h: "host_bits d \<le> host_bits c"
      using that fb by (auto simp: host_bits_def intro: diff_le_mono2)
    let ?n = "addr_nat (network c)" and ?m = "addr_nat (network d)"
    have "?m < ?n + 2 ^ host_bits c" "?n < ?m + 2 ^ host_bits d"
      using that by (auto simp: block_set_def)
    moreover have "2 ^ host_bits d dvd ?n" "2 ^ host_bits d dvd ?m"
      using that h by (auto simp: wf_block_def intro: power_le_dvd)
    ultimately have "?n \<le> ?m" using aligned_step [of "2 ^ host_bits d" ?m ?n] by linarith
    then have "network d \<in> block_set c"
      using f \<open>?m < _\<close> by (simp add: block_set_def)
    then show ?thesis using that by (simp add: block_covers_def block_contains_iff)
  qed
  assume "block_set a \<inter> block_set b \<noteq> {}"
  then obtain x where "x \<in> block_set a" "x \<in> block_set b" by blast
  then show "block_overlaps a b"
    unfolding block_overlaps_def using assms * [of a b x] * [of b a x] nat_le_linear by blast
qed

lemma unat_mask_u128: "h \<le> 128 \<Longrightarrow> unat (mask h :: u128) = mask h"
  by (rule bit_eqI) (auto simp: bit_unsigned_iff bit_mask_iff)

lemma block_last_nat:
  assumes "wf_block b"
  shows "same_family (block_last b) (network b)"
    "addr_nat (block_last b) = addr_nat (network b) + 2 ^ host_bits b - 1"
proof -
  let ?n = "to_bits (network b)" and ?h = "host_bits b" and ?f = "family_bits (network b)"
  have low: "NOT (mask_of (prefix_len b) ?f) AND full ?f = (mask ?h :: u128)"
    by (rule bit_word_eqI)
      (use assms in \<open>auto simp: mask_of_def Let_def bit_simps bit_full bit_low wf_block_def host_bits_def\<close>)
  obtain q where q: "unat ?n = push_bit ?h q"
    using assms by (auto simp: wf_block_def push_bit_eq_mult dvd_def mult.commute)
  have h: "?h \<le> 128" unfolding host_bits_def using family_bits_le [of "network b"] by linarith
  have "unat (?n OR mask ?h) = push_bit ?h q OR mask ?h"
    using h by (simp add: unsigned_or_eq q unat_mask_u128)
  also have "\<dots> = push_bit ?h q + mask ?h"
    by (rule disjunctive_add_eq_or [symmetric]) (auto simp: bit_eq_iff bit_simps)
  finally have v: "unat (?n OR mask ?h) = unat ?n + 2 ^ ?h - 1"
    by (simp add: q mask_eq_exp_minus_1)
  show "same_family (block_last b) (network b)" by (simp add: block_last_def Let_def)
  have "0 < (2 :: nat) ^ ?h" by simp
  then have "unat (?n OR mask ?h) < 2 ^ ?f" using v wf_block_bound [OF assms] by linarith
  then show "addr_nat (block_last b) = addr_nat (network b) + 2 ^ host_bits b - 1"
    by (simp add: block_last_def Let_def low addr_nat_from_bits v)
qed

section \<open>Counting zeros\<close>

lemma takeWhile_upt:
  defines "m \<equiv> \<lambda>P n. length (takeWhile P [0..<n])"
  shows "m P n \<le> n" "i < m P n \<Longrightarrow> P i" "m P n < n \<Longrightarrow> \<not> P (m P n)"
proof -
  show le: "m P n \<le> n" unfolding m_def using length_takeWhile_le [of P "[0..<n]"] by simp
  show "P i" if "i < m P n"
  proof -
    have "takeWhile P [0..<n] ! i = i"
      using that le by (simp add: m_def takeWhile_nth)
    then show ?thesis using that set_takeWhileD [of i P "[0..<n]"] unfolding m_def
      by (metis nth_mem)
  qed
  show "\<not> P (m P n)" if "m P n < n"
    using nth_length_takeWhile [of P "[0..<n]"] that by (simp add: m_def)
qed

lemma pow2_dvd_iff_bits: "2 ^ t dvd (x :: nat) \<longleftrightarrow> (\<forall>i < t. \<not> bit x i)"
proof -
  have "2 ^ t dvd x \<longleftrightarrow> take_bit t x = 0" by (simp add: take_bit_eq_mod dvd_eq_mod_eq_0)
  also have "\<dots> \<longleftrightarrow> (\<forall>i < t. \<not> bit x i)" by (auto simp: bit_eq_iff bit_take_bit_iff)
  finally show ?thesis .
qed

lemma bit_ge: "bit (x :: nat) i \<Longrightarrow> 2 ^ i \<le> x"
  by (metis bit_iff_odd div_less not_le odd_Suc_div_two dvd_0_right)

lemma less_pow2_bits:
  assumes "\<forall>i \<ge> n. \<not> bit (x :: nat) i"
  shows "x < 2 ^ n"
proof -
  have "take_bit n x = x" using assms by (auto simp: bit_eq_iff bit_take_bit_iff not_le[symmetric])
  then show ?thesis by (simp add: take_bit_nat_eq_self_iff)
qed

lemma bit_unat: "bit (unat w) i = bit (w :: u128) i"
  by (simp add: bit_unsigned_iff)

lemma word_some_bit: "w \<noteq> 0 \<Longrightarrow> \<exists>i < 128. bit (w :: u128) i"
  using bit_word_eqI [of w 0] by auto

lemma trailing_zeros_props:
  assumes "w \<noteq> 0"
  shows "2 ^ j dvd unat w \<longleftrightarrow> j \<le> trailing_zeros w"
proof -
  let ?t = "trailing_zeros w"
  note tw = takeWhile_upt [where P = "\<lambda>i. \<not> bit w i" and n = 128, folded trailing_zeros_def]
  obtain i where i: "i < 128" "bit w i" using word_some_bit [OF assms] by blast
  then have "?t < 128" using tw(2) [of i] by (meson linorder_le_less_linear order_le_less_trans)
  then have "bit w ?t" using tw(3) by blast
  then show ?thesis using tw(2) by (auto simp: pow2_dvd_iff_bits bit_unat not_le intro: leI)
qed

lemma leading_zeros_props:
  assumes "w \<noteq> 0"
  shows "leading_zeros w < 128" "2 ^ (127 - leading_zeros w) \<le> unat w"
    "unat w < 2 ^ (128 - leading_zeros w)"
proof -
  let ?l = "leading_zeros w"
  note tw = takeWhile_upt [where P = "\<lambda>i. \<not> bit w (127 - i)" and n = 128, folded leading_zeros_def]
  obtain i where i: "i < 128" "bit w i" using word_some_bit [OF assms] by blast
  then have "\<not> 127 - i < ?l" using tw(2) [of "127 - i"] by (auto simp: less_Suc_eq_le)
  then show l: "?l < 128" by linarith
  then have "bit w (127 - ?l)" using tw(3) by blast
  then show "2 ^ (127 - ?l) \<le> unat w" by (intro bit_ge) (simp add: bit_unat)
  have "\<not> bit w k" if "128 - ?l \<le> k" for k
  proof (cases "k < 128")
    case True
    then show ?thesis using tw(2) [of "127 - k"] that l by auto
  qed (use bit_imp_le_length [of w k] in auto)
  then show "unat w < 2 ^ (128 - ?l)" by (intro less_pow2_bits) (simp add: bit_unat)
qed

section \<open>The greedy tiling of an interval\<close>

text \<open>
  The reference the loop is compared with: at \<open>cur\<close>, the largest aligned block that starts there
  and ends within the range, then the rest. A block is (start, log size).
\<close>

definition fits :: "nat \<Rightarrow> nat \<Rightarrow> nat \<Rightarrow> nat \<Rightarrow> bool" where
  "fits bits cur en k \<longleftrightarrow> k \<le> bits \<and> 2 ^ k dvd cur \<and> cur + 2 ^ k \<le> en + 1"

definition largest_fit :: "nat \<Rightarrow> nat \<Rightarrow> nat \<Rightarrow> nat \<Rightarrow> bool" where
  "largest_fit bits cur en k \<longleftrightarrow> fits bits cur en k \<and> (\<forall>j. fits bits cur en j \<longrightarrow> j \<le> k)"

inductive tiling :: "nat \<Rightarrow> nat \<Rightarrow> nat \<Rightarrow> (nat \<times> nat) list \<Rightarrow> bool" for bits en where
  tiling_last: "largest_fit bits cur en k \<Longrightarrow> cur + 2 ^ k = en + 1 \<Longrightarrow> tiling bits en cur [(cur, k)]"
| tiling_step: "largest_fit bits cur en k \<Longrightarrow> cur + 2 ^ k < en + 1 \<Longrightarrow>
    tiling bits en (cur + 2 ^ k) bs \<Longrightarrow> tiling bits en cur ((cur, k) # bs)"

definition tile :: "nat \<times> nat \<Rightarrow> nat set" where
  "tile b = {fst b ..< fst b + 2 ^ snd b}"

definition aligned :: "nat \<Rightarrow> nat \<times> nat \<Rightarrow> bool" where
  "aligned bits b \<longleftrightarrow> snd b \<le> bits \<and> 2 ^ snd b dvd fst b"

lemma tile_Pair [simp]: "tile (n, k) = {n ..< n + 2 ^ k}"
  by (simp add: tile_def)

lemma tiling_union: "tiling bits en cur bs \<Longrightarrow> (\<Union>b \<in> set bs. tile b) = {cur .. en}"
proof (induction rule: tiling.induct)
  case (tiling_step cur k bs)
  then show ?case by (auto simp: less_Suc_eq_le)
qed auto

lemma tiling_aligned: "tiling bits en cur bs \<Longrightarrow> b \<in> set bs \<Longrightarrow> aligned bits b"
  by (induction rule: tiling.induct) (auto simp: aligned_def largest_fit_def fits_def)

lemma tiling_sorted: "tiling bits en cur bs \<Longrightarrow>
   sorted_wrt (\<lambda>a b. fst a + 2 ^ snd a \<le> fst b) bs \<and> (\<forall>b \<in> set bs. cur \<le> fst b)"
  by (induction rule: tiling.induct) (auto intro: add_leD1)

lemma aligned_tiles_nest:
  assumes "aligned bits a" "aligned bits b" "snd a \<le> snd b" "tile a \<inter> tile b \<noteq> {}"
  shows "tile a \<subseteq> tile b"
proof -
  obtain n k m l where ab: "a = (n, k)" "b = (m, l)" by (cases a; cases b)
  have d: "2 ^ k dvd n" "2 ^ k dvd m" "2 ^ l dvd m" "k \<le> l"
    using assms ab by (auto simp: aligned_def intro: power_le_dvd)
  from assms(4) ab have "n < m + 2 ^ l" "m < n + 2 ^ k" by auto
  moreover from this d have "n + 2 ^ k \<le> m + 2 ^ l" by (intro aligned_nest)
  moreover from d have "\<not> n < m" using \<open>m < n + 2 ^ k\<close> aligned_step [of "2 ^ k" n m] by linarith
  ultimately show ?thesis using ab by auto
qed

lemma tile_between:
  assumes "tile (cur, k) \<subseteq> tile b" "tile b \<subseteq> {cur .. en}"
  shows "fst b = cur" "cur + 2 ^ snd b \<le> en + 1"
proof -
  obtain n l where b: "b = (n, l)" by (cases b)
  have "0 < (2 :: nat) ^ l" by simp
  then have "n \<le> n + 2 ^ l - 1" "n + 2 ^ l - 1 < n + 2 ^ l" by linarith+
  then have "cur \<in> tile (cur, k)" "n \<in> tile b" "n + 2 ^ l - 1 \<in> tile b" by (simp_all add: b)
  then have "cur \<in> tile b" "n \<in> {cur .. en}" "n + 2 ^ l - 1 \<in> {cur .. en}"
    using assms by blast+
  then show "fst b = cur" "cur + 2 ^ snd b \<le> en + 1" by (auto simp: b)
qed

text \<open>No exact cover by aligned blocks uses fewer blocks.\<close>

lemma tiling_minimal:
  assumes "tiling bits en cur bs" "finite S" "\<forall>b \<in> S. aligned bits b" "(\<Union>b \<in> S. tile b) = {cur .. en}"
  shows "length bs \<le> card S"
  using assms
proof (induction arbitrary: S rule: tiling.induct)
  case (tiling_last cur k)
  have "0 < (2 :: nat) ^ k" by simp
  then have "cur \<le> en" using tiling_last.hyps(2) by linarith
  then have "cur \<in> {cur .. en}" by simp
  then have "S \<noteq> {}" using tiling_last.prems(3) by blast
  with tiling_last show ?case by (simp add: Suc_le_eq card_gt_0_iff)
next
  case (tiling_step cur k bs)
  let ?B = "tile (cur, k)"
  define S' where "S' = {b \<in> S. tile b \<inter> ?B = {}}"
  have inside: "tile b \<subseteq> ?B" if b: "b \<in> S" "tile b \<inter> ?B \<noteq> {}" for b
  proof (cases "snd b \<le> k")
    case True
    then show ?thesis
      using b tiling_step.prems tiling_step.hyps(1)
      by (intro aligned_tiles_nest [of bits]) (auto simp: aligned_def largest_fit_def fits_def)
  next
    case False
    have "aligned bits b" using b tiling_step.prems by blast
    moreover have "?B \<subseteq> tile b"
      using False b \<open>aligned bits b\<close> tiling_step.hyps(1)
      by (intro aligned_tiles_nest [of bits]) (auto simp: aligned_def largest_fit_def fits_def)
    moreover have "tile b \<subseteq> {cur .. en}" using b tiling_step.prems by blast
    ultimately have "fst b = cur" "cur + 2 ^ snd b \<le> en + 1"
      using tile_between [of cur k b en] by blast+
    then have "fits bits cur en (snd b)" using \<open>aligned bits b\<close> by (simp add: aligned_def fits_def)
    then show ?thesis using tiling_step.hyps(1) False by (auto simp: largest_fit_def)
  qed
  have "(\<Union>b \<in> S'. tile b) = {cur + 2 ^ k .. en}"
  proof -
    have "(\<Union>b \<in> S'. tile b) = {cur .. en} - ?B"
    proof (intro set_eqI iffI)
      fix x assume "x \<in> (\<Union>b \<in> S'. tile b)"
      then show "x \<in> {cur .. en} - ?B"
        unfolding tiling_step.prems(3) [symmetric] S'_def by blast
    next
      fix x assume x: "x \<in> {cur .. en} - ?B"
      then obtain b where "b \<in> S" "x \<in> tile b" using tiling_step.prems(3) by blast
      then show "x \<in> (\<Union>b \<in> S'. tile b)" using x inside [of b] unfolding S'_def by blast
    qed
    then show ?thesis by auto
  qed
  then have "length bs \<le> card S'"
    using tiling_step by (auto simp: S'_def)
  moreover have "S' \<subset> S"
  proof -
    have "cur \<le> en" using tiling_step.hyps(2) by linarith
    then have "cur \<in> {cur .. en}" by simp
    then obtain b where "b \<in> S" "cur \<in> tile b" using tiling_step.prems(3) by blast
    moreover have "cur \<in> ?B" by simp
    ultimately have "b \<in> S - S'" by (auto simp: S'_def)
    then show ?thesis by (auto simp: S'_def)
  qed
  then have "card S' < card S" using tiling_step.prems(1) by (rule psubset_card_mono [rotated])
  ultimately show ?case by simp
qed

section \<open>The loop computes the tiling\<close>

definition loop_align :: "nat \<Rightarrow> u128 \<Rightarrow> nat" where
  "loop_align bits cur = (if cur = 0 then bits else min (trailing_zeros cur) bits)"

definition loop_fit :: "u128 \<Rightarrow> nat" where
  "loop_fit d = (case checked_add d 1 of Some c \<Rightarrow> 128 - 1 - leading_zeros c | None \<Rightarrow> 128)"

definition loop_end :: "nat \<Rightarrow> u128 \<Rightarrow> u128 option" where
  "loop_end s cur = (if s \<ge> 128 then Some (- 1) else checked_add cur (push_bit s 1 - 1))"

lemma decompose_loop_unfold:
  "decompose_loop bits first cur en =
     (case checked_sub en cur of None \<Rightarrow> None
      | Some d \<Rightarrow>
          (let s = min (loop_align bits cur) (loop_fit d);
               b = \<lparr>network = from_bits first cur, prefix_len = bits - s\<rparr>
           in case loop_end s cur of None \<Rightarrow> None
              | Some bl \<Rightarrow> if bl \<ge> en then Some [b]
                  else (case decompose_loop bits first (bl + 1) en of
                          None \<Rightarrow> None | Some out \<Rightarrow> Some (b # out))))"
  by (subst decompose_loop.simps) (simp only: loop_align_def loop_fit_def loop_end_def Let_def)

lemma unat_sub_u128: "b \<le> a \<Longrightarrow> unat (a - b :: u128) = unat a - unat b"
  by (rule unat_sub)

lemma checked_add_1:
  "checked_add d 1 = (if unat d + 1 < 2 ^ 128 then Some (d + 1) else None)"
  using unat_word_less [of d]
  by (auto simp: checked_add_def word_le_nat_alt unat_plus_if')

lemma loop_fit_iff: "2 ^ j \<le> unat d + 1 \<longleftrightarrow> j \<le> loop_fit d"
proof (cases "unat d + 1 < 2 ^ 128")
  case True
  then have u: "unat (d + 1) = unat d + 1" by (simp add: unat_plus_if')
  then have nz: "d + 1 \<noteq> 0" by (metis add_is_0 one_neq_zero unat_0)
  let ?l = "leading_zeros (d + 1)"
  note lz = leading_zeros_props [OF nz]
  have l: "128 - ?l = Suc (127 - ?l)" using lz(1) by simp
  have "2 ^ j \<le> unat (d + 1) \<longleftrightarrow> j \<le> 127 - ?l"
  proof
    assume "2 ^ j \<le> unat (d + 1)"
    then have "(2 :: nat) ^ j < 2 ^ Suc (127 - ?l)" using lz(3) l by simp
    then show "j \<le> 127 - ?l" by (simp add: power_strict_increasing_iff del: power_Suc)
  next
    assume "j \<le> 127 - ?l"
    then have "(2 :: nat) ^ j \<le> 2 ^ (127 - ?l)" by (intro power_increasing) auto
    then show "2 ^ j \<le> unat (d + 1)" using lz(2) by (rule order_trans)
  qed
  then show ?thesis using True u by (simp add: loop_fit_def checked_add_1)
next
  case False
  then have "unat d + 1 = 2 ^ 128" using unat_word_less [of d] by simp
  then show ?thesis using False by (simp add: loop_fit_def checked_add_1 del: power_numeral)
qed

lemma loop_align_iff: "j \<le> bits \<and> 2 ^ j dvd unat cur \<longleftrightarrow> j \<le> loop_align bits cur"
  by (auto simp: loop_align_def trailing_zeros_props)

lemma loop_size_largest:
  assumes "cur \<le> en"
  shows "largest_fit bits (unat cur) (unat en) (min (loop_align bits cur) (loop_fit (en - cur)))"
proof -
  have "unat cur + 2 ^ j \<le> unat en + 1 \<longleftrightarrow> 2 ^ j \<le> unat (en - cur) + 1" for j
    using assms by (auto simp: unat_sub word_le_nat_alt)
  then have "fits bits (unat cur) (unat en) j \<longleftrightarrow> j \<le> min (loop_align bits cur) (loop_fit (en - cur))" for j
    unfolding fits_def using loop_align_iff [of j bits cur] loop_fit_iff [of j "en - cur"] by auto
  then show ?thesis by (simp add: largest_fit_def)
qed

lemma loop_end_Some:
  assumes "unat cur + 2 ^ s \<le> unat (en :: u128) + 1" "s \<le> 128"
  shows "\<exists>bl. loop_end s cur = Some bl \<and> unat bl = unat cur + 2 ^ s - 1"
proof (cases "s = 128")
  case True
  then have "unat cur = 0" using assms unat_word_less [of en] by simp
  then show ?thesis using True by (simp add: loop_end_def unsigned_minus_1_eq_mask mask_eq_exp_minus_1)
next
  case False
  have m: "unat (mask s :: u128) = 2 ^ s - 1"
    by (subst unat_mask_u128 [OF assms(2)]) (rule mask_eq_exp_minus_1)
  moreover have "0 < (2 :: nat) ^ s" by simp
  ultimately have "unat cur + unat (mask s :: u128) < 2 ^ 128"
    using assms unat_word_less [of en] by simp
  then have "unat (cur + mask s) = unat cur + 2 ^ s - 1"
    using m \<open>0 < 2 ^ s\<close> by (simp add: unat_plus_if')
  moreover have "unat cur \<le> unat cur + 2 ^ s - 1" using \<open>0 < (2::nat) ^ s\<close> by linarith
  ultimately show ?thesis using False assms(2)
    by (auto simp: loop_end_def checked_add_def word_le_nat_alt simp flip: mask_eq_exp_minus_1)
qed

definition block_tile :: "ip_block \<Rightarrow> nat \<times> nat" where
  "block_tile b = (addr_nat (network b), host_bits b)"

lemma loop_block:
  assumes "s \<le> family_bits first" "2 ^ s dvd unat cur" "unat cur < 2 ^ family_bits first"
  defines "b \<equiv> \<lparr>network = from_bits first cur, prefix_len = family_bits first - s\<rparr>"
  shows "block_tile b = (unat cur, s)" "wf_block b" "same_family (network b) first"
proof -
  have f: "family_bits (from_bits first cur) = family_bits first"
    by (rule same_family_bits) simp
  then show "block_tile b = (unat cur, s)" "wf_block b" "same_family (network b) first"
    using assms by (simp_all add: block_tile_def host_bits_def wf_block_def addr_nat_from_bits)
qed

lemma decompose_loop_tiling:
  assumes "cur \<le> en" "unat en < 2 ^ family_bits first"
  shows "\<exists>bs. decompose_loop (family_bits first) first cur en = Some bs \<and>
    tiling (family_bits first) (unat en) (unat cur) (map block_tile bs) \<and>
    (\<forall>b \<in> set bs. wf_block b \<and> same_family (network b) first)"
  using assms
proof (induction "unat en - unat cur" arbitrary: cur rule: less_induct)
  case less
  let ?bits = "family_bits first"
  define s where "s = min (loop_align ?bits cur) (loop_fit (en - cur))"
  define b where "b = \<lparr>network = from_bits first cur, prefix_len = ?bits - s\<rparr>"
  have lf: "largest_fit ?bits (unat cur) (unat en) s"
    unfolding s_def using less.prems(1) by (rule loop_size_largest)
  then have f: "s \<le> ?bits" "2 ^ s dvd unat cur" "unat cur + 2 ^ s \<le> unat en + 1"
    by (simp_all add: largest_fit_def fits_def)
  have "unat cur < 2 ^ ?bits" using less.prems by (simp add: word_le_nat_alt)
  note blk = loop_block [OF f(1,2) this, folded b_def]
  have "s \<le> 128" using f(1) family_bits_le [of first] by linarith
  then obtain bl where bl: "loop_end s cur = Some bl" "unat bl = unat cur + 2 ^ s - 1"
    using loop_end_Some [OF f(3)] by blast
  have pos: "0 < (2 :: nat) ^ s" by simp
  have unf: "decompose_loop ?bits first cur en =
      (if bl \<ge> en then Some [b] else
       (case decompose_loop ?bits first (bl + 1) en of None \<Rightarrow> None | Some out \<Rightarrow> Some (b # out)))"
    by (subst decompose_loop_unfold)
      (use less.prems bl in \<open>simp add: checked_sub_def Let_def b_def flip: s_def split: option.splits\<close>)
  show ?case
  proof (cases "bl \<ge> en")
    case True
    then have "unat cur + 2 ^ s = unat en + 1"
      using f(3) bl(2) pos unfolding word_le_nat_alt by linarith
    then show ?thesis using True unf blk lf by (auto intro: tiling_last)
  next
    case False
    then have n: "unat (bl + 1) = unat cur + 2 ^ s" using unat_succ_less [OF False] bl pos by linarith
    have lt: "unat cur + 2 ^ s < unat en + 1" using False bl pos unfolding word_le_nat_alt by linarith
    have "bl + 1 \<le> en" using n lt unfolding word_le_nat_alt by linarith
    moreover have "unat en - unat (bl + 1) < unat en - unat cur" using n lt pos by linarith
    ultimately obtain bs where "decompose_loop ?bits first (bl + 1) en = Some bs"
      "tiling ?bits (unat en) (unat cur + 2 ^ s) (map block_tile bs)"
      "\<forall>b \<in> set bs. wf_block b \<and> same_family (network b) first"
      using less.hyps [of "bl + 1"] less.prems(2) n by auto
    then show ?thesis using False unf blk lf lt by (auto intro: tiling_step)
  qed
qed
section \<open>Ranges\<close>

lemma range_new_Some:
  assumes "range_new first lst = Some (Some r)"
  shows "same_family first lst" "to_bits first \<le> to_bits lst"
    "range_first r = first" "range_last r = lst" "decompose first lst = Some (range_blocks r)"
  using assms by (auto simp: range_new_def split: if_splits option.splits)

lemma decompose_tiling:
  assumes "same_family first lst" "to_bits first \<le> to_bits lst"
  shows "\<exists>bs. decompose first lst = Some bs \<and>
    tiling (family_bits first) (addr_nat lst) (addr_nat first) (map block_tile bs) \<and>
    (\<forall>b \<in> set bs. wf_block b \<and> same_family (network b) first)"
  unfolding decompose_def using assms addr_nat_bound [of lst] same_family_bits [OF assms(1)]
  by (intro decompose_loop_tiling) simp_all

lemma range_tiling:
  assumes "range_new first lst = Some (Some r)"
  shows "tiling (family_bits first) (addr_nat lst) (addr_nat first) (map block_tile (range_blocks r))"
    "b \<in> set (range_blocks r) \<Longrightarrow> wf_block b"
    "b \<in> set (range_blocks r) \<Longrightarrow> same_family (network b) first"
  using decompose_tiling [of first lst] range_new_Some [OF assms] by auto

lemma block_set_tile:
  "a \<in> block_set b \<longleftrightarrow> same_family a (network b) \<and> addr_nat a \<in> tile (block_tile b)"
  by (auto simp: block_set_def block_tile_def)

lemma block_tile_aligned: "wf_block b \<Longrightarrow> same_family (network b) a \<Longrightarrow>
    aligned (family_bits a) (block_tile b)"
  using same_family_bits [of "network b" a]
  by (simp add: aligned_def block_tile_def wf_block_def host_bits_def)

lemma block_tile_inj:
  assumes "wf_block a" "wf_block b" "same_family (network a) (network b)" "block_tile a = block_tile b"
  shows "a = b"
proof -
  have "network a = network b" using assms by (intro addr_eq_iff) (auto simp: block_tile_def)
  moreover have "prefix_len a = prefix_len b"
    using assms same_family_bits [OF assms(3)]
    by (auto simp: block_tile_def host_bits_def wf_block_def eq_diff_iff)
  ultimately show ?thesis by simp
qed

lemma range_contains_iff:
  "range_contains r a \<longleftrightarrow> same_family a (range_first r) \<and>
     addr_nat a \<in> {addr_nat (range_first r) .. addr_nat (range_last r)}"
  by (auto simp: range_contains_def range_is_ipv4_def word_le_nat_alt)

lemma range_contains_blocks:
  assumes "range_new first lst = Some (Some r)"
  shows "range_contains r a \<longleftrightarrow> (\<exists>b \<in> set (range_blocks r). block_contains b a)"
proof -
  note rt = range_tiling [OF assms] and rs = range_new_Some [OF assms]
  have "(\<exists>b \<in> set (range_blocks r). block_contains b a) \<longleftrightarrow>
      (\<exists>b \<in> set (range_blocks r). same_family a first \<and> addr_nat a \<in> tile (block_tile b))"
    using rt(2,3) by (intro bex_cong) (auto simp: block_contains_iff block_set_tile)
  also have "\<dots> \<longleftrightarrow> same_family a first \<and> addr_nat a \<in> {addr_nat first .. addr_nat lst}"
    using tiling_union [OF rt(1)] by auto
  finally show ?thesis by (simp add: range_contains_iff rs)
qed

lemma range_blocks_ascending:
  assumes "range_new first lst = Some (Some r)"
  shows "sorted_wrt (\<lambda>b c. to_bits (block_last b) < to_bits (network c) \<and> \<not> block_overlaps b c)
    (range_blocks r)"
proof -
  note rt = range_tiling [OF assms]
  have "sorted_wrt (\<lambda>b c. fst (block_tile b) + 2 ^ snd (block_tile b) \<le> fst (block_tile c))
      (range_blocks r)"
    using tiling_sorted [OF rt(1)] by (simp add: sorted_wrt_map)
  then show ?thesis
  proof (rule sorted_wrt_mono_rel [rotated])
    fix b c assume bc: "b \<in> set (range_blocks r)" "c \<in> set (range_blocks r)"
      and le: "fst (block_tile b) + 2 ^ snd (block_tile b) \<le> fst (block_tile c)"
    have "0 < (2 :: nat) ^ host_bits b" by simp
    then have "to_bits (block_last b) < to_bits (network c)"
      using le block_last_nat(2) [OF rt(2) [OF bc(1)]]
      unfolding word_less_nat_alt block_tile_def fst_conv snd_conv by linarith
    moreover have "\<not> block_overlaps b c"
      using le by (auto simp: block_overlaps_iff rt(2) bc block_set_def block_tile_def)
    ultimately show "to_bits (block_last b) < to_bits (network c) \<and> \<not> block_overlaps b c" by simp
  qed
qed

text \<open>
  C9. \<open>IpRange::new\<close> accepts bounds of one family in order and never panics on
  them, and the blocks it stores tile the range: an address is in the range if and only if one of
  the blocks contains it, every block is a masked network of legal length, and the blocks
  are listed in ascending order without overlap.
\<close>

theorem range_blocks_exact:
  assumes "is_ipv4 first = is_ipv4 lst" "to_bits first \<le> to_bits lst"
  shows "\<exists>r. range_new first lst = Some (Some r) \<and> range_first r = first \<and> range_last r = lst \<and>
    (\<forall>a. range_contains r a = (\<exists>b \<in> set (range_blocks r). block_contains b a)) \<and>
    (\<forall>b \<in> set (range_blocks r). wf_block b) \<and>
    sorted_wrt (\<lambda>b c. to_bits (block_last b) < to_bits (network c) \<and> \<not> block_overlaps b c)
      (range_blocks r)"
proof -
  obtain bs where "decompose first lst = Some bs" using decompose_tiling [OF assms] by blast
  then have "\<exists>r. range_new first lst = Some (Some r)"
    using assms by (simp add: range_new_def not_less [symmetric])
  then obtain r where r: "range_new first lst = Some (Some r)" by blast
  then show ?thesis
    using range_contains_blocks [OF r] range_tiling(2) [OF r] range_blocks_ascending [OF r]
      range_new_Some [OF r] by blast
qed

theorem range_blocks_exact_witness:
  "\<exists>r. range_new (V4 0x0A000005) (V4 0x0A000028) = Some (Some r) \<and>
    range_first r = V4 0x0A000005 \<and> range_last r = V4 0x0A000028 \<and>
    (\<forall>a. range_contains r a = (\<exists>b \<in> set (range_blocks r). block_contains b a)) \<and>
    (\<forall>b \<in> set (range_blocks r). wf_block b) \<and>
    sorted_wrt (\<lambda>b c. to_bits (block_last b) < to_bits (network c) \<and> \<not> block_overlaps b c)
      (range_blocks r)"
  by (rule range_blocks_exact) simp_all

text \<open>
  C20. The stored decomposition is minimal, as the type's documentation promises: no other set of
  masked networks that contains exactly the addresses of the range has fewer members.
\<close>

theorem range_blocks_minimal:
  assumes "range_new first lst = Some (Some r)"
    and "finite S" "\<forall>b \<in> S. wf_block b"
    and "\<forall>a. range_contains r a = (\<exists>b \<in> S. block_contains b a)"
  shows "length (range_blocks r) \<le> card S"
proof -
  note rt = range_tiling [OF assms(1)] and rs = range_new_Some [OF assms(1)]
  have mem: "a \<in> block_set b \<Longrightarrow> same_family a first \<and> addr_nat a \<in> {addr_nat first .. addr_nat lst}"
    if "b \<in> S" for a b
    using assms(3,4) that rs range_contains_iff [of r a] by (auto simp: block_contains_iff)
  have fam: "same_family (network b) first" if "b \<in> S" for b
    using mem [OF that, of "network b"] by simp
  have "(\<Union>t \<in> block_tile ` S. tile t) = {addr_nat first .. addr_nat lst}"
  proof (intro set_eqI iffI)
    fix x assume "x \<in> (\<Union>t \<in> block_tile ` S. tile t)"
    then obtain b where b: "b \<in> S" "x \<in> tile (block_tile b)" by blast
    then have "x \<in> addr_nat ` block_set b"
      using assms(3) by (simp add: block_set_eq_image block_tile_def)
    then show "x \<in> {addr_nat first .. addr_nat lst}" using mem [OF b(1)] by blast
  next
    fix x assume x: "x \<in> {addr_nat first .. addr_nat lst}"
    then have "x < 2 ^ family_bits first"
      using addr_nat_bound [of lst] same_family_bits [OF rs(1)] by simp
    then obtain a where a: "same_family a first" "addr_nat a = x" by (rule addr_exists)
    then have "range_contains r a" using x rs by (simp add: range_contains_iff)
    then obtain b where "b \<in> S" "a \<in> block_set b" using assms(3,4) by (auto simp: block_contains_iff)
    then show "x \<in> (\<Union>t \<in> block_tile ` S. tile t)" using a(2) by (auto simp: block_set_tile)
  qed
  moreover have "\<forall>t \<in> block_tile ` S. aligned (family_bits first) t"
    using assms(3) fam by (auto intro: block_tile_aligned)
  ultimately have "length (map block_tile (range_blocks r)) \<le> card (block_tile ` S)"
    using assms(2) by (intro tiling_minimal [OF rt(1)]) auto
  then show ?thesis using card_image_le [OF assms(2), of block_tile] by simp
qed

lemma sample_range:
  "range_new (V4 0x0A000005) (V4 0x0A000008) = Some (Some (the (the (range_new (V4 0x0A000005) (V4 0x0A000008)))))"
  by code_simp

theorem range_blocks_minimal_witness:
  "length (range_blocks (the (the (range_new (V4 0x0A000005) (V4 0x0A000008)))))
     \<le> card (set (range_blocks (the (the (range_new (V4 0x0A000005) (V4 0x0A000008))))))"
  by (rule range_blocks_minimal [OF sample_range])
    (use range_tiling(2) [OF sample_range] range_contains_blocks [OF sample_range] in auto)

section \<open>Cover, overlap and canonical form\<close>

lemma block_parse_wf: "block_parse t = Some b \<Longrightarrow> wf_block b"
  by (auto simp: block_parse_def Let_def block_new_wf split: option.splits if_splits)

text \<open>
  C21. For masked networks, \<open>covers\<close> holds exactly when every address of the other block is in
  this one and \<open>overlaps\<close> exactly when the two share an address; the claim in the code that
  aligned blocks nest or are disjoint is what makes the two-sided cover test complete.
\<close>

theorem block_covers_overlaps:
  assumes "wf_block a" "wf_block b"
  shows "block_covers a b = (\<forall>x. block_contains b x \<longrightarrow> block_contains a x) \<and>
    block_overlaps a b = (\<exists>x. block_contains a x \<and> block_contains b x)"
  using assms by (auto simp: block_covers_iff block_overlaps_iff block_contains_iff)

theorem block_covers_overlaps_witness:
  "block_covers (the (block_parse ''10.0.0.0/8'')) (the (block_parse ''10.1.0.0/16'')) =
     (\<forall>x. block_contains (the (block_parse ''10.1.0.0/16'')) x \<longrightarrow>
          block_contains (the (block_parse ''10.0.0.0/8'')) x) \<and>
   block_overlaps (the (block_parse ''10.0.0.0/8'')) (the (block_parse ''11.0.0.0/8'')) =
     (\<exists>x. block_contains (the (block_parse ''10.0.0.0/8'')) x \<and>
          block_contains (the (block_parse ''11.0.0.0/8'')) x)"
proof -
  have "block_parse ''10.0.0.0/8'' \<noteq> None" "block_parse ''10.1.0.0/16'' \<noteq> None"
    "block_parse ''11.0.0.0/8'' \<noteq> None" by code_simp+
  then have "wf_block (the (block_parse ''10.0.0.0/8''))" "wf_block (the (block_parse ''10.1.0.0/16''))"
    "wf_block (the (block_parse ''11.0.0.0/8''))" using block_parse_wf by fastforce+
  then show ?thesis
    using block_covers_overlaps by blast
qed

lemma mapped_prefix_iff: "drop_bit 32 w = (0xffff :: u128) \<longleftrightarrow> unat w div 2 ^ 32 = 65535"
proof -
  have "drop_bit 32 w = 0xffff \<longleftrightarrow> unat (drop_bit 32 w) = unat (0xffff :: u128)"
    by (simp only: word_unat_eq_iff)
  also have "\<dots> \<longleftrightarrow> unat w div 2 ^ 32 = 65535"
    by (simp add: drop_bit_eq_div unat_div)
  finally show ?thesis .
qed

lemma unat_low32: "unat (ucast (w :: u128) :: u32) = unat w mod 2 ^ 32"
  by (simp add: unsigned_ucast_eq unsigned_take_bit_eq take_bit_eq_mod)

lemma canonical_ip_V6:
  "canonical_ip (V6 w) = (if unat w div 2 ^ 32 = 65535 then V4 (ucast w) else V6 w)"
  by (simp add: to_ipv4_mapped_def mapped_prefix_iff)

lemma canonical_ip_idem: "canonical_ip (canonical_ip a) = canonical_ip a"
  by (cases a) (auto split: option.splits)

lemma aligned_low_part:
  fixes n h :: nat
  assumes "2 ^ h dvd n" "h \<le> 32"
  shows "n mod 2 ^ 32 div 2 ^ h * 2 ^ h = n mod 2 ^ 32"
proof -
  have "2 ^ h dvd (2 ^ 32 :: nat)" using assms by (intro le_imp_power_dvd)
  then have "2 ^ h dvd n mod 2 ^ 32" using assms(1) by (simp add: dvd_mod)
  then show ?thesis by simp
qed

lemma aligned_same_high:
  fixes n x h :: nat
  assumes "2 ^ h dvd n" "h \<le> 32" "n \<le> x" "x < n + 2 ^ h"
  shows "x div 2 ^ 32 = n div 2 ^ 32"
proof -
  let ?m = "n div 2 ^ 32 * 2 ^ 32"
  have "?m \<le> n" "n < ?m + 2 ^ 32"
    using dividend_less_div_times [of "2 ^ 32" n] div_times_less_eq_dividend [of n "2 ^ 32"] by simp_all
  moreover have "n + 2 ^ h \<le> ?m + 2 ^ 32"
    using assms calculation by (intro aligned_nest) auto
  ultimately show ?thesis using assms by (intro div_nat_eqI) auto
qed

lemma block_contains_family: "block_contains b a \<Longrightarrow> same_family a (network b)"
  by (simp add: block_contains_def block_is_ipv4_def)

lemma block_contains_V6:
  "wf_block b \<Longrightarrow> network b = V6 n \<Longrightarrow> block_contains b (V6 w) \<longleftrightarrow>
    unat n \<le> unat w \<and> unat w < unat n + 2 ^ (128 - prefix_len b)"
  by (simp add: block_contains_iff block_set_def host_bits_def family_bits_def)

lemma canonical_block_mapped:
  assumes "wf_block b" "network b = V6 n" "96 \<le> prefix_len b" "unat n div 2 ^ 32 = 65535"
  shows "canonical_block b = \<lparr>network = V4 (ucast n), prefix_len = prefix_len b - 96\<rparr>"
    "wf_block (canonical_block b)"
proof -
  let ?h = "128 - prefix_len b" and ?v = "V4 (ucast n)"
  have h: "2 ^ ?h dvd unat n" "prefix_len b \<le> 128" "?h \<le> 32" "32 - (prefix_len b - 96) = ?h"
    using assms by (auto simp: wf_block_def host_bits_def family_bits_def)
  obtain c where c: "block_new ?v (prefix_len b - 96) = Some c"
    using h(2) block_new_None [of ?v "prefix_len b - 96"]
    by (cases "block_new ?v (prefix_len b - 96)") (auto simp: family_bits_def)
  note n = block_new_Some [OF c]
  have "network c = ?v"
    using n h aligned_low_part [OF h(1,3)]
    by (intro addr_eq_iff) (auto simp: family_bits_def unat_low32)
  then have "c = \<lparr>network = ?v, prefix_len = prefix_len b - 96\<rparr>" using n(2) by simp
  moreover have "canonical_block b = c"
    using assms c by (simp add: canonical_block_def block_is_ipv4_def canonical_ip_V6 Let_def
        del: canonical_ip.simps)
  ultimately show "canonical_block b = \<lparr>network = ?v, prefix_len = prefix_len b - 96\<rparr>"
    "wf_block (canonical_block b)" using block_new_wf [OF c] by auto
qed

lemma canonical_block_other:
  assumes "\<And>n. network b = V6 n \<Longrightarrow> 96 \<le> prefix_len b \<Longrightarrow> unat n div 2 ^ 32 \<noteq> 65535"
  shows "canonical_block b = b"
  using assms
  by (cases "network b") (auto simp: canonical_block_def block_is_ipv4_def canonical_ip_V6 Let_def
      simp del: canonical_ip.simps)

lemma canonical_block_wf:
  assumes "wf_block b"
  shows "wf_block (canonical_block b)"
proof (cases "\<exists>n. network b = V6 n \<and> 96 \<le> prefix_len b \<and> unat n div 2 ^ 32 = 65535")
  case True
  then show ?thesis using canonical_block_mapped(2) [OF assms] by blast
next
  case False
  then have "canonical_block b = b" by (intro canonical_block_other) blast
  with assms show ?thesis by simp
qed

text \<open>
  Rewriting an IPv4-mapped network to its IPv4 network loses and adds nothing: for a network of
  at least 96 bits, an IPv6 address is inside it exactly when the canonical address is inside
  the canonical network, mapped or not.
\<close>

theorem canonical_block_contains:
  assumes "wf_block b" "network b = V6 n" "96 \<le> prefix_len b"
  shows "block_contains (canonical_block b) (canonical_ip (V6 w)) = block_contains b (V6 w)"
proof -
  let ?h = "128 - prefix_len b"
  have h: "2 ^ ?h dvd unat n" "?h \<le> 32" "prefix_len b \<le> 128" "32 - (prefix_len b - 96) = ?h"
    using assms by (auto simp: wf_block_def host_bits_def family_bits_def)
  have same: "unat w div 2 ^ 32 = unat n div 2 ^ 32" if "block_contains b (V6 w)"
    using that aligned_same_high [OF h(1,2)] block_contains_V6 [OF assms(1,2)] by blast
  show ?thesis
  proof (cases "unat n div 2 ^ 32 = 65535")
    case True
    note c = canonical_block_mapped [OF assms True]
    show ?thesis
    proof (cases "unat w div 2 ^ 32 = 65535")
      case w: True
      define N W where "N = unat n mod 2 ^ 32" and "W = unat w mod 2 ^ 32"
      have "unat n = 65535 * 2 ^ 32 + N" "unat w = 65535 * 2 ^ 32 + W"
        using True w div_mult_mod_eq [of "unat n" "2 ^ 32"] div_mult_mod_eq [of "unat w" "2 ^ 32"]
        unfolding N_def W_def by simp_all
      then have "block_contains b (V6 w) \<longleftrightarrow> N \<le> W \<and> W < N + 2 ^ ?h"
        using assms by (simp add: block_contains_V6)
      moreover have "unat (ucast n :: u32) = N" "unat (ucast w :: u32) = W"
        by (simp_all add: unat_low32 N_def W_def)
      then have "block_contains (canonical_block b) (V4 (ucast w)) \<longleftrightarrow> N \<le> W \<and> W < N + 2 ^ ?h"
        using c(2) h(4) unfolding c(1)
        by (simp add: block_contains_iff block_set_def host_bits_def family_bits_def)
      ultimately show ?thesis using w by (simp only: canonical_ip_V6 if_True refl)
    next
      case w: False
      have "\<not> block_contains b (V6 w)" using w True same by metis
      moreover have "\<not> block_contains (canonical_block b) (V6 w)"
        using block_contains_family [of "canonical_block b" "V6 w"] unfolding c(1) by auto
      ultimately show ?thesis using w by (simp only: canonical_ip_V6 if_False refl)
    qed
  next
    case False
    then have cb: "canonical_block b = b" using assms(2) by (intro canonical_block_other) simp
    show ?thesis
    proof (cases "unat w div 2 ^ 32 = 65535")
      case True
      then have "\<not> block_contains b (V6 w)" using False same by metis
      moreover have "\<not> block_contains b (V4 (ucast w))"
        using block_contains_family [of b "V4 (ucast w)"] assms(2) by auto
      ultimately show ?thesis unfolding cb using True by (simp only: canonical_ip_V6 if_True refl)
    qed (simp only: cb canonical_ip_V6 if_False)
  qed
qed

theorem canonical_block_contains_witness:
  "block_contains (canonical_block (the (block_parse ''::ffff:10.0.0.0/104'')))
      (canonical_ip (V6 0xffff0a010203)) =
   block_contains (the (block_parse ''::ffff:10.0.0.0/104'')) (V6 0xffff0a010203)"
proof -
  have p: "block_parse ''::ffff:10.0.0.0/104'' = Some \<lparr>network = V6 0xffff0a000000, prefix_len = 104\<rparr>"
    by code_simp
  show ?thesis
    by (rule canonical_block_contains [of _ "0xffff0a000000"]) (use p block_parse_wf [OF p] in auto)
qed

text \<open>
  \<open>width_bits\<close> is the base-2 logarithm of the address count rounded up: the range has at most
  \<open>2 ^ width_bits\<close> addresses and more than half of that, unless it is a single address.
\<close>

theorem width_bits_log:
  assumes "range_new first lst = Some (Some r)"
  shows "addr_nat lst - addr_nat first + 1 \<le> 2 ^ width_bits r \<and>
    (first = lst \<and> width_bits r = 0 \<or> 2 ^ (width_bits r - 1) < addr_nat lst - addr_nat first + 1)"
proof -
  note rs = range_new_Some [OF assms]
  let ?s = "to_bits lst - to_bits first"
  have s: "unat ?s = addr_nat lst - addr_nat first" using rs(2) by (rule unat_sub)
  show ?thesis
  proof (cases "?s = 0")
    case True
    then have "first = lst" using rs by (intro addr_eq_iff) auto
    then show ?thesis using rs by (simp add: width_bits_def)
  next
    case False
    have "width_bits r = 128 - leading_zeros ?s"
      using False rs unfolding width_bits_def Let_def by simp
    moreover have "128 - leading_zeros ?s - 1 = 127 - leading_zeros ?s" by simp
    ultimately show ?thesis using leading_zeros_props(2,3) [OF False] s by simp
  qed
qed

theorem width_bits_log_witness:
  "addr_nat (V4 0x0A000008) - addr_nat (V4 0x0A000005) + 1
     \<le> 2 ^ width_bits (the (the (range_new (V4 0x0A000005) (V4 0x0A000008))))"
  using width_bits_log [OF sample_range] by blast

end
