(* ===== verification/Fake_Ip_Pool.thy ===== *)
theory Fake_Ip_Pool
  imports Ip_Block
begin

text \<open>
  Geometry of the fake-address pool: the configuration half of
  \<open>src/core/platform/api/src/fake_ip/allocator.rs\<close>. Prefix lengths are natural numbers, so the
  saturating subtractions of the code are the subtraction of \<^typ>\<open>nat\<close>; addresses and indices
  are words of the code's width and wrap as there.
\<close>

unbundle bit_operations_syntax

section \<open>Configuration\<close>

definition FAKE_IP_V4_BASE :: u32 where "FAKE_IP_V4_BASE = 0xC6120000"

definition FAKE_IP_V4_PREFIX_LEN :: nat where "FAKE_IP_V4_PREFIX_LEN = 15"

definition FAKE_IP_V6_BASE :: u128 where "FAKE_IP_V6_BASE = 0xFC000000000000000000000000000000"

definition FAKE_IP_V6_PREFIX_LEN :: nat where "FAKE_IP_V6_PREFIX_LEN = 18"

definition FAKE_IP_GATEWAY_INDEX :: u32 where "FAKE_IP_GATEWAY_INDEX = 1"

definition FAKE_IP_FIRST_HOST_INDEX :: u32 where "FAKE_IP_FIRST_HOST_INDEX = 2"

record local_subnet =
  ls_network :: ip_addr
  ls_prefix_len :: nat

record pool_collision =
  col_family :: string
  col_local :: local_subnet

record fake_ip_pool_config =
  v4_base :: u32
  v4_prefix_len :: nat
  v6_base :: "u128 option"
  v6_prefix_len :: nat

definition default_pool :: fake_ip_pool_config where
  "default_pool = \<lparr>v4_base = FAKE_IP_V4_BASE, v4_prefix_len = FAKE_IP_V4_PREFIX_LEN,
     v6_base = Some FAKE_IP_V6_BASE, v6_prefix_len = FAKE_IP_V6_PREFIX_LEN\<rparr>"

definition v4_only :: fake_ip_pool_config where
  "v4_only = default_pool\<lparr>v6_base := None\<rparr>"

definition saturating_sub :: "u32 \<Rightarrow> u32 \<Rightarrow> u32" where
  "saturating_sub a b = (if b \<le> a then a - b else 0)"

definition v4_address_count :: "fake_ip_pool_config \<Rightarrow> u32" where
  "v4_address_count c =
     (let host_bits = 32 - v4_prefix_len c in if host_bits \<ge> 32 then - 1 else push_bit host_bits 1)"

definition capacity :: "fake_ip_pool_config \<Rightarrow> u32" where
  "capacity c = saturating_sub (saturating_sub (v4_address_count c) FAKE_IP_FIRST_HOST_INDEX) 1"

definition v4_at :: "fake_ip_pool_config \<Rightarrow> u32 \<Rightarrow> u32" where
  "v4_at c i = v4_base c + i"

definition v6_at :: "fake_ip_pool_config \<Rightarrow> u32 \<Rightarrow> u128 option" where
  "v6_at c i = map_option (\<lambda>base. base + ucast i) (v6_base c)"

definition gateway_v4 :: "fake_ip_pool_config \<Rightarrow> u32" where
  "gateway_v4 c = v4_at c FAKE_IP_GATEWAY_INDEX"

definition gateway_v6 :: "fake_ip_pool_config \<Rightarrow> u128 option" where
  "gateway_v6 c = v6_at c FAKE_IP_GATEWAY_INDEX"

definition v4_range :: "fake_ip_pool_config \<Rightarrow> u32 \<times> u32" where
  "v4_range c = (v4_base c, v4_base c + saturating_sub (v4_address_count c) 1)"

definition pool_stamp :: "fake_ip_pool_config \<Rightarrow> string" where
  "pool_stamp c =
     (let v4 = ''v4='' @ show_ip_addr (V4 (v4_base c)) @ ''/'' @ dec (v4_prefix_len c) in
      case v6_base c of
        Some v6 \<Rightarrow> v4 @ '';v6='' @ show_ip_addr (V6 v6) @ ''/'' @ dec (v6_prefix_len c)
      | None \<Rightarrow> v4)"

definition prefix_mask_v4 :: "nat \<Rightarrow> u32" where
  "prefix_mask_v4 p = (if p = 0 then 0 else push_bit (min (32 - p) 31) (- 1))"

definition prefix_mask_v6 :: "nat \<Rightarrow> u128" where
  "prefix_mask_v6 p = (if p = 0 then 0 else push_bit (min (128 - p) 127) (- 1))"

definition pool_contains :: "fake_ip_pool_config \<Rightarrow> ip_addr \<Rightarrow> bool" where
  "pool_contains c addr =
     (case addr of
        V4 v4 \<Rightarrow> v4 AND prefix_mask_v4 (v4_prefix_len c) = v4_base c AND prefix_mask_v4 (v4_prefix_len c)
      | V6 v6 \<Rightarrow> (case v6_base c of
            Some base \<Rightarrow> v6 AND prefix_mask_v6 (v6_prefix_len c) = base AND prefix_mask_v6 (v6_prefix_len c)
          | None \<Rightarrow> False))"

definition pool_holds_host :: "fake_ip_pool_config \<Rightarrow> ip_addr \<Rightarrow> bool" where
  "pool_holds_host c addr =
     (if \<not> pool_contains c addr then False
      else case addr of
          V4 v4 \<Rightarrow> (let m = prefix_mask_v4 (v4_prefix_len c); host = v4 AND NOT m in host \<noteq> 0 \<and> host \<noteq> NOT m)
        | V6 v6 \<Rightarrow> v6 AND NOT (prefix_mask_v6 (v6_prefix_len c)) \<noteq> 0)"

definition is_default_pool_addr :: "ip_addr \<Rightarrow> bool" where
  "is_default_pool_addr addr = pool_contains default_pool addr"

definition overlaps_block :: "fake_ip_pool_config \<Rightarrow> ip_block \<Rightarrow> bool" where
  "overlaps_block c net =
     (let pool = (case network net of
            V4 _ \<Rightarrow> block_new (V4 (v4_base c)) (v4_prefix_len c)
          | V6 _ \<Rightarrow> (case v6_base c of Some base \<Rightarrow> block_new (V6 base) (v6_prefix_len c) | None \<Rightarrow> None))
      in case pool of Some p \<Rightarrow> block_overlaps p net | None \<Rightarrow> False)"

definition collision_with :: "fake_ip_pool_config \<Rightarrow> local_subnet \<Rightarrow> pool_collision option" where
  "collision_with c subnet =
     (let overlaps = (case ls_network subnet of
            V4 local_base \<Rightarrow>
              (let m = prefix_mask_v4 (min (v4_prefix_len c) (ls_prefix_len subnet))
               in local_base AND m = v4_base c AND m)
          | V6 local_base \<Rightarrow>
              (case v6_base c of
                 Some pool_base \<Rightarrow>
                   (let m = prefix_mask_v6 (min (v6_prefix_len c) (ls_prefix_len subnet))
                    in local_base AND m = pool_base AND m)
               | None \<Rightarrow> False))
      in if overlaps
         then Some \<lparr>col_family = (if is_ipv4 (ls_network subnet) then ''ipv4'' else ''ipv6''), col_local = subnet\<rparr>
         else None)"

definition collisions :: "fake_ip_pool_config \<Rightarrow> local_subnet list \<Rightarrow> pool_collision list" where
  "collisions c locals = List.map_filter (collision_with c) locals"

definition overlaps_any :: "fake_ip_pool_config \<Rightarrow> local_subnet list \<Rightarrow> bool" where
  "overlaps_any c locals = list_ex (\<lambda>s. collision_with c s \<noteq> None) locals"

text \<open>\<open>u32::try_from\<close> on a wider integer.\<close>

definition index_of :: "fake_ip_pool_config \<Rightarrow> ip_addr \<Rightarrow> u32 option" where
  "index_of c addr =
     (if \<not> pool_contains c addr then None
      else case addr of
          V4 v4 \<Rightarrow> Some (v4 - v4_base c)
        | V6 v6 \<Rightarrow> (case v6_base c of None \<Rightarrow> None
            | Some base \<Rightarrow> if v6 - base < 2 ^ 32 then Some (ucast (v6 - base)) else None))"

definition last_host_index :: "fake_ip_pool_config \<Rightarrow> u32" where
  "last_host_index c = max (saturating_sub (v4_address_count c) 2) FAKE_IP_FIRST_HOST_INDEX"

section \<open>Masks\<close>

text \<open>An address range whose base has \<open>k\<close> zero low bits, for words of any length.\<close>

lemma aligned_add:
  fixes b i :: "'a::len word"
  assumes "b AND mask k = 0" "i AND NOT (mask k) = 0"
  shows "b + i = b OR i" "(b + i) AND NOT (mask k) = b" "(b + i) AND mask k = i"
proof -
  have bi: "\<not> bit b n \<or> \<not> bit i n" for n
    using assms [THEN arg_cong, of "\<lambda>w. bit w n"] by (auto simp: bit_simps dest: bit_imp_le_length)
  show a: "b + i = b OR i" by (rule disjunctive_add) (rule bi)
  have b: "\<not> (bit b n \<and> n < k)" and i: "bit i n \<Longrightarrow> n < k" for n
    using assms [THEN arg_cong, of "\<lambda>w. bit w n"] by (auto simp: bit_simps dest: bit_imp_le_length)
  show "(b + i) AND NOT (mask k) = b" "(b + i) AND mask k = i"
    unfolding a using b i by (auto intro!: bit_word_eqI simp: bit_simps)
qed

lemma prefix_mask_v4_eq: "p \<le> 32 \<Longrightarrow> prefix_mask_v4 p = NOT (mask (32 - p))"
  by (rule bit_word_eqI) (auto simp: prefix_mask_v4_def bit_simps)

lemma prefix_mask_v6_eq: "p \<le> 128 \<Longrightarrow> prefix_mask_v6 p = NOT (mask (128 - p))"
  by (rule bit_word_eqI) (auto simp: prefix_mask_v6_def bit_simps)

text \<open>
  The condition the theorems put on a configuration: an IPv4 prefix in the documented range (so the
  pool has a host), aligned bases, and an IPv6 range of prefix 96 or shorter, wide enough for every
  index. The last is this development's: the field's doc comment allows prefixes up to 128, and of a
  pool with a longer one the theorems say nothing.
\<close>

definition pool_ok :: "fake_ip_pool_config \<Rightarrow> bool" where
  "pool_ok c \<longleftrightarrow> v4_prefix_len c \<le> 30 \<and> v4_base c AND mask (32 - v4_prefix_len c) = 0 \<and>
     (case v6_base c of None \<Rightarrow> True
      | Some b \<Rightarrow> v6_prefix_len c \<le> 96 \<and> b AND mask (128 - v6_prefix_len c) = 0)"

lemma pool_ok_default: "pool_ok default_pool"
  by code_simp

lemma pool_okD:
  assumes "pool_ok c"
  shows "v4_prefix_len c \<le> 30" "v4_base c AND mask (32 - v4_prefix_len c) = 0"
    "v6_base c = Some b \<Longrightarrow> v6_prefix_len c \<le> 96" "v6_base c = Some b \<Longrightarrow> b AND mask (128 - v6_prefix_len c) = 0"
  using assms by (auto simp: pool_ok_def)

lemma unat_mask_u32: "k \<le> 32 \<Longrightarrow> unat (mask k :: u32) = 2 ^ k - 1"
proof -
  assume "k \<le> 32"
  then have "unat (mask k :: u32) = mask k" by (intro bit_eqI) (auto simp: bit_unsigned_iff bit_mask_iff)
  then show ?thesis by (simp add: mask_eq_exp_minus_1)
qed

lemma unat_max_u32: "unat (- 1 :: u32) = 2 ^ 32 - 1"
proof -
  have "(- 1 :: u32) = mask 32" by (rule bit_word_eqI) (auto simp: bit_simps)
  then show ?thesis using unat_mask_u32 [of 32] by simp
qed

lemma unat_count:
  assumes "pool_ok c"
  shows "unat (v4_address_count c) = (if v4_prefix_len c = 0 then 2 ^ 32 - 1 else 2 ^ (32 - v4_prefix_len c))"
proof (cases "v4_prefix_len c = 0")
  case False
  then have "(2::nat) ^ (32 - v4_prefix_len c) < 2 ^ 32" by (intro power_strict_increasing) simp_all
  then have "unat (push_bit (32 - v4_prefix_len c) 1 :: u32) = 2 ^ (32 - v4_prefix_len c)"
    unfolding unsigned_push_bit_eq using False by (simp add: push_bit_eq_mult take_bit_nat_eq_self)
  moreover have "\<not> 32 \<le> 32 - v4_prefix_len c" using False by simp
  ultimately show ?thesis using False by (simp only: v4_address_count_def Let_def if_False)
next
  case True
  then show ?thesis using unat_max_u32 by (simp add: v4_address_count_def)
qed

lemma count_ge: "pool_ok c \<Longrightarrow> 4 \<le> unat (v4_address_count c)"
  using power_increasing [of 2 "32 - v4_prefix_len c" "2::nat"] pool_okD(1) [of c] by (simp add: unat_count)

lemma unat_saturating_sub: "unat (saturating_sub a b) = unat a - unat b"
  by (simp add: saturating_sub_def unat_sub word_le_nat_alt)

lemma unat_last_host: "pool_ok c \<Longrightarrow> unat (last_host_index c) = unat (v4_address_count c) - 2"
  using count_ge [of c] by (auto simp: last_host_index_def max_def FAKE_IP_FIRST_HOST_INDEX_def
      word_le_nat_alt unat_saturating_sub)

lemma unat_capacity: "pool_ok c \<Longrightarrow> unat (capacity c) + 1 = unat (last_host_index c)"
  using count_ge [of c] by (simp add: capacity_def unat_saturating_sub unat_last_host FAKE_IP_FIRST_HOST_INDEX_def)

lemma last_host_bounds:
  assumes "pool_ok c"
  shows "2 \<le> unat (last_host_index c)" "unat (last_host_index c) + 2 \<le> 2 ^ (32 - v4_prefix_len c)"
  using count_ge [OF assms] unat_count [OF assms] unat_last_host [OF assms] by (auto split: if_splits)

definition host_index :: "fake_ip_pool_config \<Rightarrow> u32 \<Rightarrow> bool" where
  "host_index c i \<longleftrightarrow> FAKE_IP_FIRST_HOST_INDEX \<le> i \<and> i \<le> last_host_index c"

lemma host_index_unat: "host_index c i \<longleftrightarrow> 2 \<le> unat i \<and> unat i \<le> unat (last_host_index c)"
  by (simp add: host_index_def FAKE_IP_FIRST_HOST_INDEX_def word_le_nat_alt)

lemma unat_and_mask_small: "unat i < 2 ^ k \<Longrightarrow> i AND NOT (mask k) = 0" for i :: "'a::len word"
proof (rule bit_word_eqI)
  fix n assume "unat i < 2 ^ k"
  then have "k \<le> n \<Longrightarrow> \<not> bit i n"
    using bit_take_bit_iff [of k "unat i" n] by (simp add: take_bit_nat_eq_self bit_unsigned_iff)
  then show "bit (i AND NOT (mask k)) n = bit 0 n" by (cases "k \<le> n") (auto simp: bit_simps)
qed

lemma ucast_u32_u128_u32 [simp]: "(ucast (ucast (i :: u32) :: u128) :: u32) = i"
  by (rule bit_word_eqI) (auto simp: bit_simps)

lemma host_index_addresses:
  assumes "pool_ok c" "host_index c i"
  shows "index_of c (V4 (v4_at c i)) = Some i \<and> pool_holds_host c (V4 (v4_at c i)) \<and> v4_at c i \<noteq> gateway_v4 c \<and>
    (\<forall>a. v6_at c i = Some a \<longrightarrow> index_of c (V6 a) = Some i \<and> pool_holds_host c (V6 a) \<and> gateway_v6 c \<noteq> Some a)"
proof -
  let ?k = "32 - v4_prefix_len c" and ?l = "128 - v6_prefix_len c"
  note ok = pool_okD [OF assms(1)]
  have u: "2 \<le> unat i" "unat i < 2 ^ ?k - 1"
    using assms(2) last_host_bounds [OF assms(1)] by (auto simp: host_index_unat)
  have m: "prefix_mask_v4 (v4_prefix_len c) = NOT (mask ?k)" using ok(1) by (simp add: prefix_mask_v4_eq)
  have "i AND NOT (mask ?k) = 0" using u(2) by (intro unat_and_mask_small) simp
  note a4 = aligned_add [OF ok(2) this]
  have i: "i \<noteq> 0" "i \<noteq> mask ?k" "i \<noteq> 1" using u unat_mask_u32 [of ?k] by auto
  have c4: "pool_contains c (V4 (v4_at c i))"
    using a4(2) aligned_add(2) [OF ok(2), of 0] by (simp add: pool_contains_def v4_at_def m)
  have v6: "index_of c (V6 a) = Some i \<and> pool_holds_host c (V6 a) \<and> gateway_v6 c \<noteq> Some a"
    if a: "v6_at c i = Some a" for a
  proof -
    obtain b where b: "v6_base c = Some b" "a = b + ucast i" using a by (auto simp: v6_at_def)
    have m6: "prefix_mask_v6 (v6_prefix_len c) = NOT (mask ?l)" using ok(3) [OF b(1)] by (simp add: prefix_mask_v6_eq)
    have "unat i < 2 ^ 32" using unat_word_less [of i] by simp
    also have "(2::nat) ^ 32 \<le> 2 ^ ?l" using ok(3) [OF b(1)] by (intro power_increasing) auto
    finally have "(ucast i :: u128) AND NOT (mask ?l) = 0" by (intro unat_and_mask_small) simp
    note a6 = aligned_add [OF ok(4) [OF b(1)] this]
    have "b AND NOT (mask ?l) = b" using aligned_add(2) [OF ok(4) [OF b(1)], of 0] by simp
    then have c6: "pool_contains c (V6 a)" using a6(2) b by (simp add: pool_contains_def m6)
    have "(ucast i :: u128) < 2 ^ 32" using \<open>unat i < 2 ^ 32\<close> by (simp add: word_less_nat_alt)
    moreover have "(ucast i :: u128) \<noteq> 0" "(ucast i :: u128) \<noteq> 1"
      using u(1) unat_ucast_u128 [of i] by (auto simp del: unat_ucast_u128)
    ultimately show ?thesis
      using c6 b a6(3) by (simp add: index_of_def pool_holds_host_def m6 gateway_v6_def v6_at_def FAKE_IP_GATEWAY_INDEX_def)
  qed
  have "index_of c (V4 (v4_at c i)) = Some i" "pool_holds_host c (V4 (v4_at c i))" "v4_at c i \<noteq> gateway_v4 c"
    using c4 i a4(3) by (simp_all add: index_of_def pool_holds_host_def m v4_at_def Let_def gateway_v4_def FAKE_IP_GATEWAY_INDEX_def)
  then show ?thesis using v6 by blast
qed

text \<open>
  C36. Every index a host name can hold stands for addresses of its own: the IPv4 and IPv6 addresses
  derived from it lie in the pool, are neither network, broadcast nor the adapter's own address, and
  lead back to that index.
\<close>

theorem pool_index_roundtrip:
  assumes "pool_ok c" "host_index c i"
  shows "index_of c (V4 (v4_at c i)) = Some i \<and> pool_holds_host c (V4 (v4_at c i)) \<and> v4_at c i \<noteq> gateway_v4 c \<and>
    (\<forall>a. v6_at c i = Some a \<longrightarrow> index_of c (V6 a) = Some i \<and> pool_holds_host c (V6 a) \<and> gateway_v6 c \<noteq> Some a)"
  by (rule host_index_addresses [OF assms])

theorem pool_index_roundtrip_witness:
  "index_of default_pool (V4 (v4_at default_pool 7)) = Some 7 \<and> v4_at default_pool 7 \<noteq> gateway_v4 default_pool"
proof -
  have "host_index default_pool 7" by code_simp
  from pool_index_roundtrip [OF pool_ok_default this] show ?thesis by blast
qed

section \<open>Two overlap tests\<close>

lemma and_mask_of_v4:
  assumes "p \<le> 32"
  shows "from_bits (V4 x) (ucast a AND mask_of p 32) = V4 (a AND prefix_mask_v4 p)"
proof -
  have "(ucast (ucast a AND mask_of p 32 :: u128) :: u32) = a AND NOT (mask (32 - p))"
    by (rule bit_word_eqI) (auto simp: bit_simps mask_of_def Let_def bit_full bit_low)
  then show ?thesis using assms by (simp add: prefix_mask_v4_eq)
qed

lemma and_mask_of_v6:
  assumes "p \<le> 128"
  shows "a AND mask_of p 128 = a AND prefix_mask_v6 p"
proof -
  have "a AND mask_of p 128 = a AND NOT (mask (128 - p))"
    using assms by (intro bit_word_eqI) (auto simp: bit_simps mask_of_def Let_def bit_full bit_low)
  then show ?thesis using assms by (simp add: prefix_mask_v6_eq)
qed

lemma block_new_v4: "p \<le> 32 \<Longrightarrow> block_new (V4 a) p = Some \<lparr>network = V4 (a AND prefix_mask_v4 p), prefix_len = p\<rparr>"
  using and_mask_of_v4 [of p a a] by (simp add: block_new_def family_bits_def)

lemma block_new_v6: "p \<le> 128 \<Longrightarrow> block_new (V6 a) p = Some \<lparr>network = V6 (a AND prefix_mask_v6 p), prefix_len = p\<rparr>"
  using and_mask_of_v6 [of p a] by (simp add: block_new_def family_bits_def)

lemma mask_nest_v4: "p \<le> q \<Longrightarrow> q \<le> 32 \<Longrightarrow> (a AND prefix_mask_v4 q) AND prefix_mask_v4 p = a AND prefix_mask_v4 p"
  by (auto intro!: bit_word_eqI simp: bit_simps prefix_mask_v4_eq)

lemma mask_nest_v6: "p \<le> q \<Longrightarrow> q \<le> 128 \<Longrightarrow> (a AND prefix_mask_v6 q) AND prefix_mask_v6 p = a AND prefix_mask_v6 p"
  by (auto intro!: bit_word_eqI simp: bit_simps prefix_mask_v6_eq)

text \<open>
  The collision check at activation and the overlap check for rule networks agree: for a network
  a block can be built from, \<open>collision_with\<close> reports a collision exactly when
  \<open>overlaps_block\<close> holds of that block, that is, when pool and network share an address.
\<close>

theorem collision_is_overlap:
  assumes "v4_prefix_len c \<le> 32" "v6_prefix_len c \<le> 128" "block_new a p = Some b"
  shows "(collision_with c \<lparr>ls_network = a, ls_prefix_len = p\<rparr> \<noteq> None) = overlaps_block c b"
proof (cases a)
  case (V4 x)
  then have p: "p \<le> 32" using block_new_Some(1) [OF assms(3)] by (simp add: family_bits_def)
  have b: "b = \<lparr>network = V4 (x AND prefix_mask_v4 p), prefix_len = p\<rparr>"
    using assms(3) block_new_v4 [OF p] V4 by simp
  let ?q = "v4_prefix_len c" and ?B = "v4_base c"
  have "overlaps_block c b \<longleftrightarrow>
      ?q \<le> p \<and> (x AND prefix_mask_v4 p) AND prefix_mask_v4 ?q = ?B AND prefix_mask_v4 ?q \<or>
      p \<le> ?q \<and> (?B AND prefix_mask_v4 ?q) AND prefix_mask_v4 p = x AND prefix_mask_v4 p"
    using p assms(1) by (auto simp: overlaps_block_def b block_new_v4 block_overlaps_def block_covers_def
        block_contains_def block_is_ipv4_def)
  also have "\<dots> \<longleftrightarrow> x AND prefix_mask_v4 (min ?q p) = ?B AND prefix_mask_v4 (min ?q p)"
    using p assms(1) mask_nest_v4 [of ?q p] mask_nest_v4 [of p ?q] by (cases "?q \<le> p") (auto simp: min_def)
  finally show ?thesis using V4 by (simp add: collision_with_def Let_def)
next
  case (V6 x)
  then have p: "p \<le> 128" using block_new_Some(1) [OF assms(3)] by (simp add: family_bits_def)
  have b: "b = \<lparr>network = V6 (x AND prefix_mask_v6 p), prefix_len = p\<rparr>"
    using assms(3) block_new_v6 [OF p] V6 by simp
  let ?q = "v6_prefix_len c"
  show ?thesis
  proof (cases "v6_base c")
    case None
    then show ?thesis using V6 by (simp add: collision_with_def overlaps_block_def b)
  next
    case (Some B)
    have "overlaps_block c b \<longleftrightarrow>
        ?q \<le> p \<and> (x AND prefix_mask_v6 p) AND prefix_mask_v6 ?q = B AND prefix_mask_v6 ?q \<or>
        p \<le> ?q \<and> (B AND prefix_mask_v6 ?q) AND prefix_mask_v6 p = x AND prefix_mask_v6 p"
      using p assms(2) Some by (auto simp: overlaps_block_def b block_new_v6 block_overlaps_def block_covers_def
          block_contains_def block_is_ipv4_def)
    also have "\<dots> \<longleftrightarrow> x AND prefix_mask_v6 (min ?q p) = B AND prefix_mask_v6 (min ?q p)"
      using p assms(2) mask_nest_v6 [of ?q p] mask_nest_v6 [of p ?q] by (cases "?q \<le> p") (auto simp: min_def)
    finally show ?thesis using V6 Some by (simp add: collision_with_def Let_def)
  qed
qed

theorem collision_is_overlap_witness:
  "(collision_with default_pool \<lparr>ls_network = V4 0xC6130000, ls_prefix_len = 24\<rparr> \<noteq> None) =
     overlaps_block default_pool \<lparr>network = V4 0xC6130000, prefix_len = 24\<rparr>"
proof (rule collision_is_overlap)
  show "v4_prefix_len default_pool \<le> 32" "v6_prefix_len default_pool \<le> 128" by code_simp+
  show "block_new (V4 0xC6130000) 24 = Some \<lparr>network = V4 0xC6130000, prefix_len = 24\<rparr>" by code_simp
qed

end
