(* ===== verification/Host_Names.thy ===== *)
theory Host_Names
  imports NRR_Prelude
begin

text \<open>
  Host name coverage, \<open>src/core/domain/src/decision_matching.rs\<close>: zones, suffix domains and the
  \<open>base.*\<close> rules. The code works on byte offsets; the lemmas read the results as label lists.
\<close>

abbreviation dot :: char where "dot \<equiv> CHR ''.''"

section \<open>Definitions\<close>

definition match_zone :: "string \<Rightarrow> string \<Rightarrow> bool" where
  "match_zone hostname zone_name =
     (if zone_name = [] \<or> hostname = [] then False
      else
        let zone_len = length zone_name; host_len = length hostname in
        if host_len \<le> zone_len + 1 then False
        else
          let boundary = host_len - zone_len - 1 in
          hostname ! boundary = dot \<and> drop (boundary + 1) hostname = zone_name)"

definition zone_ranks_as_suffix :: "string \<Rightarrow> bool" where
  "zone_ranks_as_suffix zone_name \<longleftrightarrow> dot \<in> set zone_name"

definition match_suffix_domain :: "string \<Rightarrow> string \<Rightarrow> bool" where
  "match_suffix_domain hostname label =
     (if label = [] \<or> hostname = [] then False
      else hostname = label \<or> match_zone hostname label)"

definition COUNTRY_SECOND_LEVELS :: "string list" where
  "COUNTRY_SECOND_LEVELS =
     [''ac'', ''co'', ''com'', ''edu'', ''go'', ''gob'', ''gov'', ''ltd'', ''mil'', ''ne'', ''net'',
      ''nom'', ''or'', ''org'', ''plc'', ''sch'']"

definition OTHER_TWO_LABEL_ZONES :: "string list" where
  "OTHER_TWO_LABEL_ZONES = [''msk.ru'', ''spb.ru'']"

definition site_zone :: "string \<Rightarrow> string option" where
  "site_zone hostname =
     (case rsplit_once dot hostname of None \<Rightarrow> None
      | Some (rest, tld) \<Rightarrow>
          if tld = [] then None
          else
            let sld = (case rsplit_once dot rest of None \<Rightarrow> rest | Some (_, label) \<Rightarrow> label);
                two_labels = drop (length hostname - length tld - 1 - length sld) hostname;
                country_pattern = (length tld = 2 \<and> list_all ascii_alphabetic tld \<and>
                  list_ex (\<lambda>s. eq_ignore_ascii_case s sld) COUNTRY_SECOND_LEVELS);
                listed = list_ex (\<lambda>z. eq_ignore_ascii_case z two_labels) OTHER_TWO_LABEL_ZONES
            in
            if \<not> (country_pattern \<or> listed) then Some tld
            else if length two_labels < length hostname then Some two_labels else None)"

definition match_any_zone_domain :: "string \<Rightarrow> string \<Rightarrow> string option" where
  "match_any_zone_domain hostname base =
     (if base = [] then None
      else case site_zone hostname of None \<Rightarrow> None
        | Some zone \<Rightarrow>
            if length hostname < length zone + 1 then None
            else
              let site_end = length hostname - (length zone + 1);
                  site = take site_end hostname
              in if \<not> match_suffix_domain site base then None
                 else Some (drop (site_end - length base) hostname))"

section \<open>Zones and suffixes as prefixes of labels\<close>

lemma match_zone_iff:
  "match_zone h z \<longleftrightarrow> z \<noteq> [] \<and> (\<exists>p. p \<noteq> [] \<and> h = p @ dot # z)"
proof
  assume m: "match_zone h z"
  let ?b = "length h - length z - 1"
  have "z \<noteq> []" "length h > length z + 1" "h ! ?b = dot" "drop (?b + 1) h = z"
    using m by (auto simp: match_zone_def Let_def split: if_splits)
  moreover from this have "h = take ?b h @ dot # z"
    using id_take_nth_drop [of ?b h] by simp
  moreover from calculation have "take ?b h \<noteq> []" by auto
  ultimately show "z \<noteq> [] \<and> (\<exists>p. p \<noteq> [] \<and> h = p @ dot # z)" by blast
next
  assume "z \<noteq> [] \<and> (\<exists>p. p \<noteq> [] \<and> h = p @ dot # z)"
  then show "match_zone h z" by (auto simp: match_zone_def Let_def nth_append)
qed

lemma match_suffix_domain_iff:
  "match_suffix_domain h l \<longleftrightarrow> l \<noteq> [] \<and> (h = l \<or> (\<exists>p. p \<noteq> [] \<and> h = p @ dot # l))"
  by (auto simp: match_suffix_domain_def match_zone_iff)

lemma match_zone_suffix: "match_zone h z \<Longrightarrow> match_suffix_domain h z"
  by (auto simp: match_zone_iff match_suffix_domain_iff)

lemma match_zone_trans: "match_zone a b \<Longrightarrow> match_zone b c \<Longrightarrow> match_zone a c"
  unfolding match_zone_iff by (metis append_Cons append_assoc append_is_Nil_conv)

lemma match_suffix_domain_trans:
  "match_suffix_domain a b \<Longrightarrow> match_suffix_domain b c \<Longrightarrow> match_suffix_domain a c"
  using match_zone_trans [of a b c] by (auto simp: match_suffix_domain_def split: if_splits)

lemma labels_sep: "labels (p @ dot # q) = labels p @ labels q"
  by (rule split_by_sep) simp

lemma join_with_append:
  "xs \<noteq> [] \<Longrightarrow> ys \<noteq> [] \<Longrightarrow> join_with c (xs @ ys) = join_with c xs @ c # join_with c ys"
proof (induction c xs rule: join_with.induct)
  case (2 c x)
  then show ?case by (cases ys) auto
qed auto

lemma labels_eq_append:
  assumes "labels h = ps @ labels z" "ps \<noteq> []"
  shows "h = join_with dot ps @ dot # z"
proof -
  have "h = join_with dot (ps @ labels z)" using assms(1) by (metis join_split_on)
  then show ?thesis using assms(2) by (simp add: join_with_append)
qed

lemma join_with_eq_Nil: "join_with c ps = [] \<longleftrightarrow> ps = [] \<or> ps = [[]]"
  by (induction c ps rule: join_with.induct) auto

lemma match_zone_labelsI:
  assumes "z \<noteq> []" "ps \<noteq> []" "ps \<noteq> [[]]" "labels h = ps @ labels z"
  shows "match_zone h z"
  using labels_eq_append [OF assms(4,2)] assms join_with_eq_Nil [of dot ps]
  by (auto simp: match_zone_iff)

text \<open>
  A zone rule covers a host exactly when the host is the zone with at least one more label in
  front: the label list of the host ends with the label list of the zone, and what comes before
  is not the empty label alone. A name that only ends with the same characters is not covered.
\<close>

theorem match_zone_labels:
  "match_zone h z = (z \<noteq> [] \<and> (\<exists>ps. ps \<noteq> [] \<and> ps \<noteq> [[]] \<and> labels h = ps @ labels z))"
proof
  assume "match_zone h z"
  then obtain p where "z \<noteq> []" "p \<noteq> []" "h = p @ dot # z" by (auto simp: match_zone_iff)
  moreover from this have "labels p \<noteq> [[]]" by (metis join_split_on join_with.simps(2))
  ultimately show "z \<noteq> [] \<and> (\<exists>ps. ps \<noteq> [] \<and> ps \<noteq> [[]] \<and> labels h = ps @ labels z)"
    by (auto simp: labels_sep intro!: exI [of _ "labels p"])
qed (auto intro: match_zone_labelsI)

lemma match_suffix_labels: "match_suffix_domain h l \<Longrightarrow> suffix (labels l) (labels h)"
  by (auto simp: match_suffix_domain_iff labels_sep suffix_def)

lemma match_zone_label_count: "match_zone h z \<Longrightarrow> length (labels z) < length (labels h)"
  by (auto simp: match_zone_iff labels_sep)

text \<open>Names that cover one host are told apart by their number of labels.\<close>

lemma covering_names_eq:
  assumes "match_suffix_domain h a" "match_suffix_domain h b" "length (labels a) = length (labels b)"
  shows "a = b"
proof -
  obtain x y where "labels h = x @ labels a" "labels h = y @ labels b"
    using assms(1,2) match_suffix_labels by (metis suffix_def)
  then have "labels a = labels b" using assms(3) by simp
  then show ?thesis by (simp add: split_on_inject)
qed

lemma covering_names_nested:
  assumes "match_suffix_domain h a" "match_suffix_domain h b" "length (labels a) < length (labels b)"
  shows "\<exists>ps. ps \<noteq> [] \<and> labels b = ps @ labels a"
proof -
  have "suffix (labels a) (labels h)" "suffix (labels b) (labels h)"
    using assms(1,2) match_suffix_labels by blast+
  then have "suffix (labels a) (labels b)"
    using assms(3) by (meson leD suffix_length_le suffix_same_cases)
  then show ?thesis using assms(3) by (auto simp: suffix_def)
qed

section \<open>Sites\<close>

lemma labels_rsplit:
  assumes "rsplit_once dot h = Some (a, b)"
  shows "labels h = labels a @ [b]"
proof -
  have "h = a @ dot # b" "dot \<notin> set b" using rsplit_once_SomeD [OF assms] by auto
  moreover have "labels b = [b]" using \<open>dot \<notin> set b\<close> by (auto intro: split_by_none)
  ultimately show ?thesis by (simp add: labels_sep)
qed

text \<open>The label before the last dot of a text, as the code cuts it out.\<close>

definition sld_of :: "string \<Rightarrow> string" where
  "sld_of rest = (case rsplit_once dot rest of None \<Rightarrow> rest | Some (_, label) \<Rightarrow> label)"

lemma sld_of_last: "sld_of rest = last (labels rest)"
proof (cases "rsplit_once dot rest")
  case None
  then have "labels rest = [rest]" by (auto intro: split_by_none)
  moreover have "sld_of rest = rest" unfolding sld_of_def None by simp
  ultimately show ?thesis by simp
next
  case (Some p)
  then show ?thesis by (cases p) (simp add: sld_of_def labels_rsplit)
qed

lemma rest_sld: "rest = sld_of rest \<or> (\<exists>q. rest = q @ dot # sld_of rest)"
  using rsplit_once_SomeD [of dot rest] by (auto simp: sld_of_def split: option.splits)

definition two_label_zone :: "string \<Rightarrow> string \<Rightarrow> bool" where
  "two_label_zone sld tld \<longleftrightarrow>
     (length tld = 2 \<and> list_all ascii_alphabetic tld \<and>
        list_ex (\<lambda>s. eq_ignore_ascii_case s sld) COUNTRY_SECOND_LEVELS) \<or>
     list_ex (\<lambda>z. eq_ignore_ascii_case z (sld @ dot # tld)) OTHER_TWO_LABEL_ZONES"

lemma site_zone_split:
  assumes "rsplit_once dot h = Some (rest, tld)"
  shows "site_zone h =
    (if tld = [] then None
     else if \<not> two_label_zone (sld_of rest) tld then Some tld
     else if rest = sld_of rest then None else Some (sld_of rest @ dot # tld))"
proof -
  have h: "h = rest @ dot # tld" using rsplit_once_SomeD [OF assms] by simp
  let ?sld = "sld_of rest"
  have two: "drop (length h - length tld - 1 - length ?sld) h = ?sld @ dot # tld"
    and len: "length (?sld @ dot # tld) < length h \<longleftrightarrow> rest \<noteq> ?sld"
  proof -
    obtain q where q: "rest = q @ ?sld" "q = [] \<longleftrightarrow> rest = ?sld"
      using rest_sld [of rest] that [of "[]"] that [of "q @ [dot]" for q] by fastforce
    have "h = q @ ?sld @ dot # tld" using h q(1) by (metis append.assoc)
    then show "drop (length h - length tld - 1 - length ?sld) h = ?sld @ dot # tld"
      "length (?sld @ dot # tld) < length h \<longleftrightarrow> rest \<noteq> ?sld"
      using q(2) by auto
  qed
  show ?thesis
    unfolding site_zone_def assms option.case prod.case Let_def sld_of_def [symmetric] two len
      two_label_zone_def by simp
qed

lemma site_zone_None: "rsplit_once dot h = None \<Longrightarrow> site_zone h = None"
  unfolding site_zone_def by (simp only: option.case)

lemma sld_of_no_dot: "dot \<notin> set (sld_of rest)"
proof -
  have "last (labels rest) \<in> set (labels rest)" by simp
  then show ?thesis using split_by_no_sep [of "last (labels rest)" "\<lambda>x. x = dot" rest dot] by (auto simp: sld_of_last)
qed

lemma sld_of_sep: "sld_of (q @ dot # r) = sld_of r"
  by (simp add: sld_of_last labels_sep)

lemma labels_single: "dot \<notin> set r \<Longrightarrow> labels r = [r]"
  by (auto intro: split_by_none)

lemma sld_of_self: "dot \<notin> set r \<Longrightarrow> sld_of r = r"
  by (simp add: sld_of_last labels_single)

lemma site_zone_SomeE:
  assumes "site_zone h = Some z"
  obtains (one) rest where "h = rest @ dot # z" "z \<noteq> []" "dot \<notin> set z" "\<not> two_label_zone (sld_of rest) z"
  | (two) q sld tld where "h = q @ dot # z" "z = sld @ dot # tld" "tld \<noteq> []" "dot \<notin> set sld"
      "dot \<notin> set tld" "two_label_zone sld tld"
proof (cases "rsplit_once dot h")
  case None
  with assms show ?thesis using site_zone_None by force
next
  case (Some p)
  obtain rest tld where p: "p = (rest, tld)" by (cases p)
  note r = Some [unfolded p]
  have h: "h = rest @ dot # tld" "dot \<notin> set tld" using rsplit_once_SomeD [OF r] by auto
  note sz = site_zone_split [OF r]
  show ?thesis
  proof (cases "two_label_zone (sld_of rest) tld")
    case False
    then have "z = tld" "tld \<noteq> []" using sz assms by (auto split: if_splits)
    then show ?thesis using one h False by blast
  next
    case True
    then have z: "z = sld_of rest @ dot # tld" "tld \<noteq> []" "rest \<noteq> sld_of rest"
      using sz assms by (auto split: if_splits)
    then obtain q where "rest = q @ dot # sld_of rest" using rest_sld [of rest] by blast
    then have "h = q @ dot # z" using h z by (metis append.assoc append_Cons)
    then show ?thesis using two z h True sld_of_no_dot by blast
  qed
qed

lemma site_zone_same:
  assumes "site_zone h = Some z" "match_suffix_domain h (b @ dot # z)" "b \<noteq> []"
  shows "site_zone (b @ dot # z) = Some z"
  using assms(1)
proof (cases rule: site_zone_SomeE)
  case (one rest)
  then have r: "rsplit_once dot (b @ dot # z) = Some (b, z)" by (simp add: rsplit_once_sep)
  have "rest = b \<or> (\<exists>p. rest = p @ dot # b)"
    using assms(2) one(1) by (auto simp: match_suffix_domain_iff)
  then have "sld_of rest = sld_of b" by (auto simp: sld_of_sep)
  then show ?thesis using one site_zone_split [OF r] by simp
next
  case (two q sld tld)
  then have r: "rsplit_once dot (b @ dot # z) = Some (b @ dot # sld, tld)"
    using rsplit_once_sep [of dot tld "b @ dot # sld"] by simp
  have "sld_of (b @ dot # sld) = sld" using two by (simp add: sld_of_sep sld_of_self)
  then show ?thesis using two site_zone_split [OF r] by auto
qed

lemma site_zone_prefix: "site_zone h = Some z \<Longrightarrow> \<exists>p. h = p @ dot # z"
  by (erule site_zone_SomeE) blast+

text \<open>
  A \<open>base.*\<close> rule at a host is exactly the suffix rule for \<open>base.<zone>\<close>, where the zone is the one
  the host is registered under: the result is that name when the suffix rule covers the host, and
  nothing otherwise. In particular the base must stand right before the zone, so a host that
  only carries it further left is never covered.
\<close>

theorem match_any_zone_domain_suffix:
  "match_any_zone_domain h b =
     (case site_zone h of None \<Rightarrow> None
      | Some z \<Rightarrow> if b \<noteq> [] \<and> match_suffix_domain h (b @ ''.'' @ z) then Some (b @ ''.'' @ z) else None)"
proof (cases "site_zone h")
  case (Some z)
  then obtain p where p: "h = p @ dot # z" using site_zone_prefix by blast
  have iff: "match_suffix_domain h (b @ dot # z) \<longleftrightarrow> match_suffix_domain p b" if "b \<noteq> []"
    using that p by (auto simp: match_suffix_domain_iff)
  have "drop (length p - length b) h = b @ dot # z" if "match_suffix_domain p b"
    using that p by (auto simp: match_suffix_domain_iff)
  then show ?thesis using Some iff p by (auto simp: match_any_zone_domain_def Let_def)
qed (simp add: match_any_zone_domain_def)

lemma match_any_zone_domain_SomeD:
  assumes "match_any_zone_domain h b = Some d"
  obtains z where "site_zone h = Some z" "b \<noteq> []" "d = b @ dot # z" "match_suffix_domain h d"
proof -
  obtain z where z: "site_zone h = Some z" "b \<noteq> []"
    using assms by (auto simp: match_any_zone_domain_def split: if_splits option.splits)
  then obtain p where p: "h = p @ dot # z" using site_zone_prefix by blast
  have m: "match_suffix_domain p b" and d: "d = drop (length p - length b) h"
    using assms z p by (auto simp: match_any_zone_domain_def Let_def split: if_splits)
  then obtain q where q: "p = b \<and> q = [] \<or> p = q @ dot # b \<and> q \<noteq> []" by (auto simp: match_suffix_domain_iff)
  then have e: "d = b @ dot # z" using d p by (elim disjE) simp_all
  from q have "match_suffix_domain h d" unfolding e p using z(2)
    by (elim disjE) (auto simp: match_suffix_domain_iff)
  with z e that show ?thesis by blast
qed

text \<open>
  C22. The name a \<open>base.*\<close> rule stands for is stable: it covers the host, it has the same zone as
  the host, and reading the rule at that name gives the name itself. The observer, the engine and
  the enforcement planners therefore agree when one works with the host and another with the name.
\<close>

theorem match_any_zone_domain_stable:
  assumes "match_any_zone_domain h b = Some d"
  shows "match_suffix_domain h d \<and> site_zone d = site_zone h \<and> match_any_zone_domain d b = Some d"
proof -
  obtain z where z: "site_zone h = Some z" "b \<noteq> []" "d = b @ dot # z" "match_suffix_domain h d"
    using assms by (rule match_any_zone_domain_SomeD)
  then have sz: "site_zone d = Some z" using site_zone_same by simp
  then have "match_any_zone_domain d b = Some d"
    using z by (simp add: match_any_zone_domain_def match_suffix_domain_iff)
  then show ?thesis using z sz by simp
qed

theorem match_any_zone_domain_stable_witness:
  "match_suffix_domain ''www.example.co.uk'' ''example.co.uk'' \<and>
   site_zone ''example.co.uk'' = site_zone ''www.example.co.uk'' \<and>
   match_any_zone_domain ''example.co.uk'' ''example'' = Some ''example.co.uk''"
  by (rule match_any_zone_domain_stable [of "''www.example.co.uk''" "''example''"]) code_simp

lemma any_zone_examples:
  "match_any_zone_domain ''example.com.attacker.net'' ''example'' = None"
  "match_any_zone_domain ''www.example.com.vn'' ''example'' = Some ''example.com.vn''"
  "match_any_zone_domain ''notexample.com'' ''example'' = None"
  "match_any_zone_domain ''co.uk'' ''co'' = None"
  by code_simp+

end
