(* ===== verification/Rule_Book.thy ===== *)
theory Rule_Book
  imports Ip_Block Host_Names App_Path
    "HOL-Library.Product_Lexorder" "HOL-Library.List_Lexorder" "HOL-Library.Char_ord"
    "HOL-Library.Option_ord"
begin

text \<open>
  The canonical rule book, \<open>src/core/domain/src/canonical.rs\<close>: match values, rules, the total order
  rules are stored in, and the enforcement-only rewrites of a book (subdomain twins, zone twins,
  effective verify rules). Roles and behaviour modes are those of
  \<open>src/shared/contracts/src/routing.rs\<close>, provenance that of \<open>auto_rule.rs\<close>. A set of rules is
  its list in canonical order; \<open>sort_unstable_by\<close> is a sort on the key the comparator
  compares, and the lemmas show that the key tells any two rules apart.
\<close>

section \<open>Roles and provenance\<close>

datatype route_role = Primary | Secondary

fun role_slug :: "route_role \<Rightarrow> string" where
  "role_slug Primary = ''primary''"
| "role_slug Secondary = ''secondary''"

datatype binding_source = UserAssigned | HeuristicSuggestion | RestoredFromConfig

definition is_user_confirmed :: "binding_source \<Rightarrow> bool" where
  "is_user_confirmed b \<longleftrightarrow> b = UserAssigned \<or> b = RestoredFromConfig"

datatype route_behavior_mode = PreferPrimary | PreferSecondaryWhenAvailable

fun behavior_slug :: "route_behavior_mode \<Rightarrow> string" where
  "behavior_slug PreferPrimary = ''prefer-primary''"
| "behavior_slug PreferSecondaryWhenAvailable = ''prefer-secondary-when-available''"

fun default_route_role :: "route_behavior_mode \<Rightarrow> route_role" where
  "default_route_role PreferPrimary = Primary"
| "default_route_role PreferSecondaryWhenAvailable = Secondary"

definition behavior_from_str :: "string \<Rightarrow> route_behavior_mode option" where
  "behavior_from_str v =
     (if v = ''prefer-primary'' \<or> v = ''primary'' then Some PreferPrimary
      else if v = ''prefer-secondary-when-available'' \<or> v = ''prefer-secondary'' \<or> v = ''secondary''
      then Some PreferSecondaryWhenAvailable else None)"

datatype auto_rule_reason =
  SiteCompanion | VpnClientBootstrap | UserConfirmed | BlockNoticeRouted | Other string

fun as_slug :: "auto_rule_reason \<Rightarrow> string" where
  "as_slug SiteCompanion = ''site-companion''"
| "as_slug VpnClientBootstrap = ''vpn-client-bootstrap''"
| "as_slug UserConfirmed = ''user-confirmed''"
| "as_slug BlockNoticeRouted = ''block-notice-routed''"
| "as_slug (Other slug) = slug"

datatype rule_origin = Auto (origin_reason: auto_rule_reason) (origin_anchor: string) (origin_added: string)

section \<open>Match values and rules\<close>

datatype canonical_app_pattern = Exact string | Glob string | Path app_path

fun pattern_as_str :: "canonical_app_pattern \<Rightarrow> string" where
  "pattern_as_str (Exact s) = s"
| "pattern_as_str (Glob s) = s"
| "pattern_as_str (Path p) = ap_text p"

fun pattern_path :: "canonical_app_pattern \<Rightarrow> app_path option" where
  "pattern_path (Path p) = Some p"
| "pattern_path _ = None"

datatype rule_action = Route | Block | Verify

record canonical_app_match =
  am_pattern :: canonical_app_pattern
  am_include_child_processes :: bool
  am_override_requested :: bool

datatype canonical_address_match =
  ExactFqdn string | SuffixDomain string | AnyZoneDomain string | Zone string
| ExactIp ip_addr | Subnet ip_block | IpRange ip_range

fun to_display_string :: "canonical_address_match \<Rightarrow> string" where
  "to_display_string (ExactFqdn label) = label"
| "to_display_string (SuffixDomain label) = ''*.'' @ label"
| "to_display_string (AnyZoneDomain base) = base @ ''.*''"
| "to_display_string (Zone name) = name"
| "to_display_string (ExactIp addr) = show_ip_addr addr"
| "to_display_string (Subnet block) = show_block block"
| "to_display_string (IpRange r) = show_range r"

fun ip_blocks :: "canonical_address_match \<Rightarrow> ip_block list option" where
  "ip_blocks (Subnet block) = Some [block]"
| "ip_blocks (IpRange r) = Some (range_blocks r)"
| "ip_blocks _ = None"

fun ip_sort_key :: "ip_addr \<Rightarrow> string" where
  "ip_sort_key (V4 v4) = pad_zero 10 (digits_of 10 (uint v4))"
| "ip_sort_key (V6 v6) = ''v6:'' @ pad_zero 32 (digits_of 16 (uint v6))"

fun sort_key_str :: "canonical_address_match \<Rightarrow> string" where
  "sort_key_str (ExactFqdn label) = label"
| "sort_key_str (SuffixDomain label) = label"
| "sort_key_str (AnyZoneDomain label) = label"
| "sort_key_str (Zone name) = name"
| "sort_key_str (ExactIp addr) = ip_sort_key addr"
| "sort_key_str (Subnet block) =
     ip_sort_key (network block) @ ''/'' @ pad_zero 3 (dec (prefix_len block))"
| "sort_key_str (IpRange r) = ip_sort_key (range_first r) @ ''-'' @ ip_sort_key (range_last r)"

record canonical_rule =
  cr_id :: string
  cr_enabled :: bool
  cr_address_match :: "canonical_address_match option"
  cr_app_match :: "canonical_app_match option"
  cr_comment :: string
  cr_action :: rule_action
  cr_origin :: "rule_origin option"

fun address_group :: "canonical_address_match \<Rightarrow> nat" where
  "address_group (ExactFqdn _) = 0"
| "address_group (SuffixDomain _) = 1"
| "address_group (Zone _) = 2"
| "address_group (ExactIp _) = 3"
| "address_group (Subnet _) = 5"
| "address_group (IpRange _) = 6"
| "address_group (AnyZoneDomain _) = 7"

definition rule_sort_key :: "canonical_rule \<Rightarrow> nat \<times> string" where
  "rule_sort_key r =
     (case cr_address_match r of
        Some m \<Rightarrow> (address_group m, sort_key_str m)
      | None \<Rightarrow> (4, case cr_app_match r of Some a \<Rightarrow> pattern_as_str (am_pattern a) | None \<Rightarrow> []))"

section \<open>The canonical order\<close>

fun pattern_kind :: "canonical_app_pattern \<Rightarrow> nat" where
  "pattern_kind (Exact _) = 0"
| "pattern_kind (Glob _) = 1"
| "pattern_kind (Path _) = 2"

type_synonym app_key = "(nat \<times> string \<times> bool \<times> bool) option"
type_synonym tie_key =
  "app_key \<times> nat \<times> bool \<times> string \<times> string \<times> (string \<times> string \<times> string) option"

definition tie_app :: "canonical_rule \<Rightarrow> app_key" where
  "tie_app r = map_option (\<lambda>m. (pattern_kind (am_pattern m), pattern_as_str (am_pattern m),
     am_include_child_processes m, am_override_requested m)) (cr_app_match r)"

fun action_key :: "rule_action \<Rightarrow> nat" where
  "action_key Route = 0"
| "action_key Block = 1"
| "action_key Verify = 2"

definition tie_origin :: "canonical_rule \<Rightarrow> (string \<times> string \<times> string) option" where
  "tie_origin r = map_option (\<lambda>org. case org of Auto reason anchor added \<Rightarrow> (as_slug reason, anchor, added))
     (cr_origin r)"

definition tie_break :: "canonical_rule \<Rightarrow> tie_key" where
  "tie_break r =
     (tie_app r, action_key (cr_action r), cr_enabled r, cr_id r, cr_comment r, tie_origin r)"

definition canonical_key :: "canonical_rule \<Rightarrow> (nat \<times> string) \<times> tie_key" where
  "canonical_key r = (rule_sort_key r, tie_break r)"

type_synonym rule_set = "canonical_rule list"

definition from_rules :: "canonical_rule list \<Rightarrow> rule_set" where
  "from_rules rules = sort_key canonical_key rules"

section \<open>Operations on a set\<close>

definition holds_suffix :: "rule_set \<Rightarrow> string \<Rightarrow> canonical_app_match option \<Rightarrow> bool" where
  "holds_suffix rules name app_match =
     list_ex (\<lambda>r. cr_enabled r \<and> cr_app_match r = app_match \<and>
       cr_address_match r = Some (SuffixDomain name)) rules"

definition suffix_keys :: "canonical_rule list \<Rightarrow> (string \<times> canonical_app_match option) list" where
  "suffix_keys rules = List.map_filter (\<lambda>r. case cr_address_match r of
     Some (SuffixDomain d) \<Rightarrow> Some (d, cr_app_match r) | _ \<Rightarrow> None) rules"

text \<open>The name a rule's twin covers, when the rule gets one.\<close>

definition twin_name ::
  "rule_set \<Rightarrow> (string \<times> canonical_app_match option) list \<Rightarrow> canonical_rule \<Rightarrow> string option" where
  "twin_name rules existing_suffix r =
     (case cr_address_match r of
        Some (ExactFqdn d) \<Rightarrow> if (d, cr_app_match r) \<in> set existing_suffix then None else Some d
      | Some (Zone d) \<Rightarrow>
          if zone_ranks_as_suffix d \<and> \<not> holds_suffix rules d (cr_app_match r) then Some d else None
      | _ \<Rightarrow> None)"

definition subdomain_twin :: "canonical_rule \<Rightarrow> string \<Rightarrow> canonical_rule" where
  "subdomain_twin r d =
     \<lparr>cr_id = cr_id r @ ''+sub'', cr_enabled = cr_enabled r,
      cr_address_match = Some (SuffixDomain d), cr_app_match = cr_app_match r,
      cr_comment = cr_comment r, cr_action = cr_action r, cr_origin = None\<rparr>"

definition twins :: "rule_set \<Rightarrow> rule_set \<Rightarrow> canonical_rule list" where
  "twins rules other =
     List.map_filter (\<lambda>r. map_option (subdomain_twin r)
       (twin_name rules (suffix_keys (rules @ other)) r)) rules"

definition set_with_subdomain_coverage :: "rule_set \<Rightarrow> rule_set \<Rightarrow> rule_set" where
  "set_with_subdomain_coverage rules other = from_rules (rules @ twins rules other)"

definition is_twin_of :: "canonical_rule \<Rightarrow> canonical_rule \<Rightarrow> bool" where
  "is_twin_of r apex \<longleftrightarrow>
     (case (strip_suffix_str ''+sub'' (cr_id r), cr_address_match r) of
        (Some apex_id, Some (SuffixDomain d)) \<Rightarrow>
          cr_id apex = apex_id \<and>
          (cr_address_match apex = Some (ExactFqdn d) \<or> cr_address_match apex = Some (Zone d)) \<and>
          cr_app_match apex = cr_app_match r \<and> cr_enabled apex = cr_enabled r \<and>
          cr_action apex = cr_action r \<and> cr_comment apex = cr_comment r \<and> cr_origin r = None
      | _ \<Rightarrow> False)"

definition is_twin :: "rule_set \<Rightarrow> canonical_rule \<Rightarrow> bool" where
  "is_twin rules r = list_ex (is_twin_of r) rules"

definition set_without_subdomain_twins :: "rule_set \<Rightarrow> rule_set option" where
  "set_without_subdomain_twins rules =
     (if \<not> list_ex (is_twin rules) rules then None
      else Some (from_rules (filter (\<lambda>r. \<not> is_twin rules r) rules)))"

definition enabled_count :: "rule_set \<Rightarrow> nat" where
  "enabled_count rules = length (filter cr_enabled rules)"

section \<open>Operations on a book\<close>

record rule_book =
  rb_primary :: rule_set
  rb_secondary :: rule_set

fun set_for :: "rule_book \<Rightarrow> route_role \<Rightarrow> rule_set" where
  "set_for book Primary = rb_primary book"
| "set_for book Secondary = rb_secondary book"

definition all_rules :: "rule_book \<Rightarrow> canonical_rule list" where
  "all_rules book = rb_primary book @ rb_secondary book"

definition total_rule_count :: "rule_book \<Rightarrow> nat" where
  "total_rule_count book = length (rb_primary book) + length (rb_secondary book)"

definition total_enabled_count :: "rule_book \<Rightarrow> nat" where
  "total_enabled_count book = enabled_count (rb_primary book) + enabled_count (rb_secondary book)"

definition with_subdomain_coverage :: "rule_book \<Rightarrow> rule_book" where
  "with_subdomain_coverage book =
     \<lparr>rb_primary = set_with_subdomain_coverage (rb_primary book) (rb_secondary book),
      rb_secondary = set_with_subdomain_coverage (rb_secondary book) (rb_primary book)\<rparr>"

definition names_suffix_outright :: "rule_book \<Rightarrow> string \<Rightarrow> bool" where
  "names_suffix_outright book name =
     list_ex (\<lambda>r. cr_enabled r \<and> cr_address_match r = Some (SuffixDomain name)) (all_rules book)"

fun is_any_zone :: "canonical_address_match option \<Rightarrow> bool" where
  "is_any_zone (Some (AnyZoneDomain _)) = True"
| "is_any_zone _ = False"

definition has_any_zone_rules :: "rule_book \<Rightarrow> bool" where
  "has_any_zone_rules book = list_ex (\<lambda>r. is_any_zone (cr_address_match r)) (all_rules book)"

definition zone_twin :: "canonical_rule \<Rightarrow> string \<Rightarrow> canonical_rule" where
  "zone_twin rule name =
     rule\<lparr>cr_id := cr_id rule @ ''+'' @ name, cr_address_match := Some (SuffixDomain name),
          cr_origin := None\<rparr>"

definition zone_twins :: "rule_book \<Rightarrow> (string \<Rightarrow> string list) \<Rightarrow> canonical_rule \<Rightarrow> canonical_rule list" where
  "zone_twins book sites rule =
     (case cr_address_match rule of
        Some (AnyZoneDomain base) \<Rightarrow>
          map (zone_twin rule) (filter (\<lambda>name. \<not> names_suffix_outright book name)
            (remdups_adj (sort (sites base))))
      | _ \<Rightarrow> [])"

definition expand_any_zone :: "rule_book \<Rightarrow> (string \<Rightarrow> string list) \<Rightarrow> rule_set \<Rightarrow> rule_set" where
  "expand_any_zone book sites rules =
     from_rules (rules @ concat (map (zone_twins book sites) (filter cr_enabled rules)))"

definition with_any_zone_sites :: "rule_book \<Rightarrow> (string \<Rightarrow> string list) \<Rightarrow> rule_book" where
  "with_any_zone_sites book sites =
     (if \<not> has_any_zone_rules book then book
      else \<lparr>rb_primary = expand_any_zone book sites (rb_primary book),
            rb_secondary = expand_any_zone book sites (rb_secondary book)\<rparr>)"

text \<open>Verdicts of the \<open>?\<close> check.\<close>

record verify_key =
  vk_written :: route_role
  vk_address :: canonical_address_match

record verify_move =
  vm_key :: verify_key
  vm_host :: string

definition verify_key_of :: "route_role \<Rightarrow> canonical_rule \<Rightarrow> verify_key option" where
  "verify_key_of written rule =
     map_option (\<lambda>a. \<lparr>vk_written = written, vk_address = a\<rparr>) (cr_address_match rule)"

definition verify_key_names :: "verify_key \<Rightarrow> route_role \<Rightarrow> canonical_rule \<Rightarrow> bool" where
  "verify_key_names k written rule \<longleftrightarrow>
     vk_written k = written \<and> cr_address_match rule = Some (vk_address k)"

definition show_verify_key :: "verify_key \<Rightarrow> string" where
  "show_verify_key k = role_slug (vk_written k) @ '':'' @ to_display_string (vk_address k)"

definition is_verify :: "canonical_rule \<Rightarrow> bool" where
  "is_verify r \<longleftrightarrow> cr_action r = Verify"

fun one_destination_addr :: "canonical_address_match option \<Rightarrow> bool" where
  "one_destination_addr (Some (ExactFqdn _)) = True"
| "one_destination_addr (Some (ExactIp _)) = True"
| "one_destination_addr _ = False"

definition one_destination :: "canonical_rule \<Rightarrow> bool" where
  "one_destination r = one_destination_addr (cr_address_match r)"

definition moves :: "verify_move list \<Rightarrow> route_role \<Rightarrow> canonical_rule \<Rightarrow> verify_move list" where
  "moves moved written r =
     (if \<not> is_verify r then [] else filter (\<lambda>m. verify_key_names (vm_key m) written r) moved)"

definition is_moved :: "verify_move list \<Rightarrow> route_role \<Rightarrow> canonical_rule \<Rightarrow> bool" where
  "is_moved moved written r \<longleftrightarrow> one_destination r \<and> moves moved written r \<noteq> []"

definition trim_end_dots :: "string \<Rightarrow> string" where
  "trim_end_dots s = rev (dropWhile (\<lambda>c. c = CHR ''.'') (rev s))"

definition proven_host :: "canonical_rule \<Rightarrow> verify_move \<Rightarrow> canonical_rule" where
  "proven_host r m =
     (let host = to_ascii_lowercase (trim_end_dots (trim (vm_host m)));
          address = (case parse_ip_addr host of None \<Rightarrow> ExactFqdn host | Some a \<Rightarrow> ExactIp a)
      in \<lparr>cr_id = cr_id r @ ''~'' @ host, cr_enabled = True, cr_address_match = Some address,
          cr_app_match = None, cr_comment = [], cr_action = Route, cr_origin = None\<rparr>)"

definition proven_hosts :: "verify_move list \<Rightarrow> route_role \<Rightarrow> canonical_rule \<Rightarrow> canonical_rule list" where
  "proven_hosts moved written r =
     (if one_destination r then [] else map (proven_host r) (moves moved written r))"

definition as_route :: "canonical_rule \<Rightarrow> canonical_rule" where
  "as_route r = (if is_verify r then r\<lparr>cr_action := Route\<rparr> else r)"

definition settle :: "rule_book \<Rightarrow> verify_move list \<Rightarrow> route_role \<Rightarrow> route_role \<Rightarrow> rule_set" where
  "settle book moved own other =
     from_rules
       (map as_route (filter (\<lambda>r. \<not> is_moved moved own r) (set_for book own) @
                      filter (is_moved moved other) (set_for book other)) @
        concat (map (proven_hosts moved other) (set_for book other)))"

definition with_verify_effective :: "rule_book \<Rightarrow> verify_move list \<Rightarrow> rule_book" where
  "with_verify_effective book moved =
     (if \<not> list_ex is_verify (all_rules book) then book
      else \<lparr>rb_primary = settle book moved Primary Secondary,
            rb_secondary = settle book moved Secondary Primary\<rparr>)"

definition without_subdomain_twins :: "rule_book \<Rightarrow> rule_book option" where
  "without_subdomain_twins book =
     (let primary = set_without_subdomain_twins (rb_primary book);
          secondary = set_without_subdomain_twins (rb_secondary book)
      in if primary = None \<and> secondary = None then None
         else Some \<lparr>rb_primary = (case primary of Some s \<Rightarrow> s | None \<Rightarrow> rb_primary book),
                    rb_secondary = (case secondary of Some s \<Rightarrow> s | None \<Rightarrow> rb_secondary book)\<rparr>)"

section \<open>The key tells rules apart\<close>

text \<open>
  Sorting by a key that is injective on the values at hand: the result depends on the multiset of
  values only, and every ascending arrangement of them is that result, whichever sorting
  algorithm produced it.
\<close>

locale keyed_order =
  fixes key :: "'a \<Rightarrow> 'k :: linorder"
    and good :: "'a set \<Rightarrow> bool"
  assumes key_inj: "good S \<Longrightarrow> inj_on key S"
begin

lemma sort_unique:
  assumes "good (set xs)" "mset ys = mset xs" "sorted (map key ys)"
  shows "ys = sort_key key xs"
  using assms sort_key_inj_key_eq [of xs ys key] key_inj by auto

lemma sort_perm:
  assumes "good (set xs)" "mset ys = mset xs"
  shows "sort_key key ys = sort_key key xs"
  using assms by (intro sort_unique) simp_all

lemma sort_append_perm:
  assumes "good (set (xs @ ys))"
  shows "sort_key key (ys @ xs) = sort_key key (xs @ ys)"
  using assms by (intro sort_perm) simp_all

end

lemma set_from_rules [simp]: "set (from_rules rs) = set rs"
  by (simp add: from_rules_def)

lemma mset_from_rules [simp]: "mset (from_rules rs) = mset rs"
  by (simp add: from_rules_def)

lemma from_rules_idem [simp]: "from_rules (from_rules rs) = from_rules rs"
  unfolding from_rules_def by (rule sort_key_id_if_sorted) simp

lemma from_rules_id: "sorted (map canonical_key rs) \<Longrightarrow> from_rules rs = rs"
  unfolding from_rules_def by (rule sort_key_id_if_sorted)

lemma sorted_from_rules: "sorted (map canonical_key (from_rules rs))"
  by (simp add: from_rules_def)

text \<open>Digits, and the characters address keys are made of.\<close>

definition key_char :: "char \<Rightarrow> bool" where
  "key_char c \<longleftrightarrow> (48 \<le> byte_of c \<and> byte_of c \<le> 57) \<or> (97 \<le> byte_of c \<and> byte_of c \<le> 102)"

lemma digits_of_key_char:
  "2 \<le> b \<Longrightarrow> b \<le> 16 \<Longrightarrow> 0 \<le> n \<Longrightarrow> c \<in> set (digits_of b n) \<Longrightarrow> key_char c"
proof (induction b n rule: digits_of.induct)
  case (1 b n)
  have d: "key_char (digit_char d)" if "0 \<le> d" "d < 16" for d
    using that by (auto simp: key_char_def byte_of_digit_char)
  show ?case
  proof (cases "n < b")
    case True
    then show ?thesis using 1 d by (simp add: digits_of.simps [of b n])
  next
    case False
    have "0 \<le> n div b" "0 \<le> n mod b" "n mod b < 16"
      using 1 False by (auto simp: pos_imp_zdiv_nonneg_iff intro: order_less_le_trans [OF pos_mod_bound])
    moreover have "c \<in> set (digits_of b (n div b)) \<or> c = digit_char (n mod b)"
      using 1 False by (auto simp: digits_of.simps [of b n])
    ultimately show ?thesis using 1 False d by auto
  qed
qed

lemma pad_zero_key_char: "(\<forall>c \<in> set s. key_char c) \<Longrightarrow> c \<in> set (pad_zero w s) \<Longrightarrow> key_char c"
  by (auto simp: pad_zero_def key_char_def)

lemma padded_key_char:
  "2 \<le> b \<Longrightarrow> b \<le> 16 \<Longrightarrow> 0 \<le> n \<Longrightarrow> c \<in> set (pad_zero w (digits_of b n)) \<Longrightarrow> key_char c"
  using digits_of_key_char pad_zero_key_char by blast

lemma ip_sort_key_chars: "c \<in> set (ip_sort_key a) \<Longrightarrow> key_char c \<or> c = CHR ''v'' \<or> c = CHR '':''"
  by (cases a) (auto dest: padded_key_char [rotated 3] simp: key_char_def)

lemma ip_sort_key_seps: "CHR ''/'' \<notin> set (ip_sort_key a)" "CHR ''-'' \<notin> set (ip_sort_key a)"
  using ip_sort_key_chars [of _ a] by (fastforce simp: key_char_def)+

lemma ip_sort_key_inject: "ip_sort_key a = ip_sort_key b \<longleftrightarrow> a = b"
proof
  assume e: "ip_sort_key a = ip_sort_key b"
  have n: "CHR ''v'' \<notin> set (pad_zero w (digits_of 10 (uint v)))" for w and v :: u32
    using padded_key_char [of 10 "uint v" "CHR ''v''" w] by (auto simp: key_char_def)
  show "a = b"
  proof (cases a; cases b)
    fix v w assume "a = V4 v" "b = V4 w"
    with e show ?thesis by (simp add: pad_digits_inject word_uint_eq_iff)
  next
    fix v w assume "a = V6 v" "b = V6 w"
    with e show ?thesis by (simp add: pad_digits_inject word_uint_eq_iff)
  next
    fix v w assume "a = V4 v" "b = V6 w"
    with e n [of 10 v] show ?thesis by (metis ip_sort_key.simps list.set_intros(1) append_Cons)
  next
    fix v w assume "a = V6 v" "b = V4 w"
    with e n [of 10 w] show ?thesis by (metis ip_sort_key.simps list.set_intros(1) append_Cons)
  qed
qed simp

lemma append_sep_inject:
  "c \<notin> set a \<Longrightarrow> c \<notin> set b \<Longrightarrow> a @ c # x = b @ c # y \<longleftrightarrow> a = b \<and> x = y"
  by (auto simp: append_eq_append_conv2 append_eq_Cons_conv Cons_eq_append_conv)

lemma subnet_key_inject:
  assumes "sort_key_str (Subnet p) = sort_key_str (Subnet q)"
  shows "p = q"
proof -
  have "ip_sort_key (network p) = ip_sort_key (network q) \<and>
      pad_zero 3 (dec (prefix_len p)) = pad_zero 3 (dec (prefix_len q))"
    using assms append_sep_inject [OF ip_sort_key_seps(1) ip_sort_key_seps(1)] by simp
  then show ?thesis
    by (intro block_eqI) (simp_all add: ip_sort_key_inject dec_def pad_digits_inject)
qed

lemma range_key_inject:
  assumes "sort_key_str (IpRange p) = sort_key_str (IpRange q)"
  shows "range_first p = range_first q \<and> range_last p = range_last q"
proof -
  have "ip_sort_key (range_first p) = ip_sort_key (range_first q) \<and>
      ip_sort_key (range_last p) = ip_sort_key (range_last q)"
    using assms append_sep_inject [OF ip_sort_key_seps(2) ip_sort_key_seps(2)] by simp
  then show ?thesis by (simp add: ip_sort_key_inject)
qed

lemma sort_key_str_inject:
  assumes "address_group a = address_group b" "sort_key_str a = sort_key_str b"
  shows "a = b \<or> (\<exists>p q. a = IpRange p \<and> b = IpRange q \<and> range_first p = range_first q \<and>
    range_last p = range_last q)"
  using assms
  by (cases a; cases b)
    (auto simp: ip_sort_key_inject simp del: sort_key_str.simps(6,7)
      dest: subnet_key_inject range_key_inject)

text \<open>What the constructors of match values and provenance guarantee.\<close>

fun wf_address :: "canonical_address_match \<Rightarrow> bool" where
  "wf_address (Subnet b) = wf_block b"
| "wf_address (IpRange r) = (range_new (range_first r) (range_last r) = Some (Some r))"
| "wf_address _ = True"

definition wf_reason :: "auto_rule_reason \<Rightarrow> bool" where
  "wf_reason reason \<longleftrightarrow> (\<forall>slug. reason = Other slug \<longrightarrow>
     slug \<notin> {''site-companion'', ''vpn-client-bootstrap'', ''user-confirmed'', ''block-notice-routed''})"

definition wf_rule :: "canonical_rule \<Rightarrow> bool" where
  "wf_rule r \<longleftrightarrow>
     (\<forall>m. cr_address_match r = Some m \<longrightarrow> wf_address m) \<and>
     (\<forall>g. cr_origin r = Some g \<longrightarrow> wf_reason (origin_reason g))"

definition rule_path :: "canonical_rule \<Rightarrow> app_path option" where
  "rule_path r = (case cr_app_match r of Some m \<Rightarrow> pattern_path (am_pattern m) | None \<Rightarrow> None)"

text \<open>The rules of one platform: a path is identified by its canonical spelling.\<close>

definition good_rules :: "canonical_rule set \<Rightarrow> bool" where
  "good_rules R \<longleftrightarrow> (\<forall>r \<in> R. wf_rule r) \<and>
     (\<forall>r \<in> R. \<forall>s \<in> R. \<forall>p q. rule_path r = Some p \<longrightarrow> rule_path s = Some q \<longrightarrow>
        ap_text p = ap_text q \<longrightarrow> p = q)"

lemma as_slug_inject: "wf_reason a \<Longrightarrow> wf_reason b \<Longrightarrow> as_slug a = as_slug b \<Longrightarrow> a = b"
  by (cases a; cases b) (auto simp: wf_reason_def)

lemma tie_origin_inject:
  assumes "wf_rule r" "wf_rule s" "tie_origin r = tie_origin s"
  shows "cr_origin r = cr_origin s"
proof (cases "cr_origin r"; cases "cr_origin s")
  fix a b assume ab: "cr_origin r = Some a" "cr_origin s = Some b"
  then have "wf_reason (origin_reason a)" "wf_reason (origin_reason b)"
    using assms(1,2) by (auto simp: wf_rule_def)
  then have "a = b" using assms(3) ab as_slug_inject by (cases a; cases b) (auto simp: tie_origin_def)
  then show ?thesis using ab by simp
qed (use assms(3) in \<open>auto simp: tie_origin_def\<close>)

lemma tie_app_inject:
  assumes "good_rules R" "r \<in> R" "s \<in> R" "tie_app r = tie_app s"
  shows "cr_app_match r = cr_app_match s"
proof (cases "cr_app_match r"; cases "cr_app_match s")
  fix a b assume ab: "cr_app_match r = Some a" "cr_app_match s = Some b"
  then have k: "pattern_kind (am_pattern a) = pattern_kind (am_pattern b)"
    "pattern_as_str (am_pattern a) = pattern_as_str (am_pattern b)"
    "am_include_child_processes a = am_include_child_processes b"
    "am_override_requested a = am_override_requested b"
    using assms(4) by (simp_all add: tie_app_def)
  have "p = q" if "am_pattern a = Path p" "am_pattern b = Path q" for p q
  proof -
    have "rule_path r = Some p" "rule_path s = Some q" "ap_text p = ap_text q"
      using ab that k(2) by (simp_all add: rule_path_def)
    then show ?thesis using assms(1-3) unfolding good_rules_def by blast
  qed
  then have "am_pattern a = am_pattern b"
    using k(1,2) by (cases "am_pattern a"; cases "am_pattern b") auto
  then have "a = b" using k(3,4) by simp
  then show ?thesis using ab by simp
qed (use assms(4) in \<open>auto simp: tie_app_def\<close>)

lemma rule_sort_key_address:
  assumes "wf_rule r" "wf_rule s" "rule_sort_key r = rule_sort_key s"
  shows "cr_address_match r = cr_address_match s"
proof (cases "cr_address_match r"; cases "cr_address_match s")
  have g4: "address_group m \<noteq> 4" for m by (cases m) auto
  {
    fix a b assume ab: "cr_address_match r = Some a" "cr_address_match s = Some b"
    then have "address_group a = address_group b" "sort_key_str a = sort_key_str b"
      using assms(3) by (simp_all add: rule_sort_key_def)
    then consider "a = b" | p q where "a = IpRange p" "b = IpRange q" "range_first p = range_first q"
      "range_last p = range_last q"
      using sort_key_str_inject by blast
    then have "a = b"
    proof cases
      case (2 p q)
      then have "range_new (range_first p) (range_last p) = Some (Some p)"
        "range_new (range_first p) (range_last p) = Some (Some q)"
        using assms(1,2) ab by (auto simp: wf_rule_def)
      then show ?thesis using 2 by simp
    qed
    then show ?thesis using ab by simp
  next
    fix a assume "cr_address_match r = Some a" "cr_address_match s = None"
    then show ?thesis using assms(3) g4 [of a] by (auto simp: rule_sort_key_def)
  next
    fix b assume "cr_address_match r = None" "cr_address_match s = Some b"
    then show ?thesis using assms(3) g4 [of b] by (auto simp: rule_sort_key_def)
  }
qed simp

lemma action_key_inject: "action_key a = action_key b \<longleftrightarrow> a = b"
  by (cases a; cases b) auto

lemma canonical_key_inj: "good_rules R \<Longrightarrow> inj_on canonical_key R"
proof (rule inj_onI)
  fix r s assume g: "good_rules R" and rs: "r \<in> R" "s \<in> R" and k: "canonical_key r = canonical_key s"
  have wf: "wf_rule r" "wf_rule s" using g rs by (auto simp: good_rules_def)
  have t: "tie_app r = tie_app s" "tie_origin r = tie_origin s" "rule_sort_key r = rule_sort_key s"
    "cr_action r = cr_action s" "cr_enabled r = cr_enabled s" "cr_id r = cr_id s" "cr_comment r = cr_comment s"
    using k by (simp_all add: canonical_key_def tie_break_def action_key_inject)
  show "r = s"
    using t rule_sort_key_address [OF wf t(3)] tie_origin_inject [OF wf t(2)] tie_app_inject [OF g rs t(1)]
    by simp
qed

interpretation canonical: keyed_order canonical_key good_rules
  by unfold_locales (rule canonical_key_inj)

text \<open>
  C30. The canonical order is total: for the rules of one platform, any arrangement of the same rules
  that ascends under the comparator is the one \<open>from_rules\<close> stores, so neither the input order
  nor the choice of an unstable sort can change the stored book or its hash.
\<close>

theorem from_rules_canonical:
  assumes "good_rules (set rs)" "mset rs' = mset rs"
  shows "from_rules rs' = from_rules rs \<and>
    (sorted (map canonical_key rs') \<longrightarrow> rs' = from_rules rs)"
  using canonical.sort_perm [OF assms] canonical.sort_unique [OF assms] by (simp add: from_rules_def)

definition plain_rule :: "string \<Rightarrow> canonical_address_match \<Rightarrow> rule_action \<Rightarrow> canonical_rule" where
  "plain_rule i m act = \<lparr>cr_id = i, cr_enabled = True, cr_address_match = Some m, cr_app_match = None,
     cr_comment = [], cr_action = act, cr_origin = None\<rparr>"

lemma good_plain_rules:
  "(\<forall>m \<in> set ms. wf_address (fst (snd m))) \<Longrightarrow>
   good_rules (set (map (\<lambda>(i, m, act). plain_rule i m act) ms))"
  by (auto simp: good_rules_def wf_rule_def plain_rule_def rule_path_def)

theorem from_rules_canonical_witness:
  "from_rules [plain_rule ''2'' (Zone ''ru'') Route, plain_rule ''1'' (ExactFqdn ''a.b'') Block] =
     from_rules [plain_rule ''1'' (ExactFqdn ''a.b'') Block, plain_rule ''2'' (Zone ''ru'') Route]"
proof -
  let ?rs = "[plain_rule ''1'' (ExactFqdn ''a.b'') Block, plain_rule ''2'' (Zone ''ru'') Route]"
  have "good_rules (set ?rs)"
    using good_plain_rules [of "[(''1'', ExactFqdn ''a.b'', Block), (''2'', Zone ''ru'', Route)]"] by simp
  from from_rules_canonical [OF this, of "rev ?rs"] show ?thesis by simp
qed

section \<open>Subdomain twins\<close>

lemma set_map_filter: "set (List.map_filter f xs) = {y. \<exists>x \<in> set xs. f x = Some y}"
  by (force simp: map_filter_def)

lemma member_suffix_keys:
  "(d, a) \<in> set (suffix_keys rules) \<longleftrightarrow>
     (\<exists>r \<in> set rules. cr_address_match r = Some (SuffixDomain d) \<and> cr_app_match r = a)"
proof -
  have k: "(case cr_address_match r of Some (SuffixDomain d) \<Rightarrow> Some (d, cr_app_match r) | _ \<Rightarrow> None) =
      Some (d, a) \<longleftrightarrow> cr_address_match r = Some (SuffixDomain d) \<and> cr_app_match r = a" for r
    by (auto split: option.splits canonical_address_match.splits)
  show ?thesis unfolding suffix_keys_def set_map_filter mem_Collect_eq k ..
qed

lemma in_twins: "t \<in> set (twins rules other) \<longleftrightarrow>
    (\<exists>r \<in> set rules. \<exists>d. twin_name rules (suffix_keys (rules @ other)) r = Some d \<and> t = subdomain_twin r d)"
  unfolding twins_def by (auto simp: set_map_filter)

lemma twin_name_cases:
  assumes "twin_name rules ks r = Some d"
  shows "cr_address_match r = Some (ExactFqdn d) \<or> cr_address_match r = Some (Zone d)"
  using assms by (auto simp: twin_name_def split: option.splits canonical_address_match.splits if_splits)

lemma subdomain_twin_fields [simp]:
  "cr_address_match (subdomain_twin r d) = Some (SuffixDomain d)"
  "cr_app_match (subdomain_twin r d) = cr_app_match r"
  "cr_enabled (subdomain_twin r d) = cr_enabled r"
  "cr_id (subdomain_twin r d) = cr_id r @ ''+sub''"
  "cr_action (subdomain_twin r d) = cr_action r"
  "cr_comment (subdomain_twin r d) = cr_comment r"
  "cr_origin (subdomain_twin r d) = None"
  by (simp_all add: subdomain_twin_def)

definition zones_enabled :: "canonical_rule list \<Rightarrow> bool" where
  "zones_enabled rules \<longleftrightarrow> (\<forall>r \<in> set rules. \<forall>d. cr_address_match r = Some (Zone d) \<longrightarrow>
     zone_ranks_as_suffix d \<longrightarrow> cr_enabled r)"

lemma no_new_twins:
  assumes P': "set P' = set P \<union> set (twins P Q)" and Q': "set Q \<subseteq> set Q'" and z: "zones_enabled P"
  shows "twins P' Q' = []"
proof -
  have "twin_name P' (suffix_keys (P' @ Q')) r = None" if r: "r \<in> set P'" for r
  proof (cases "r \<in> set P")
    case True
    let ?n = "twin_name P (suffix_keys (P @ Q)) r"
    have tw: "subdomain_twin r d \<in> set P'" if "?n = Some d" for d
      using that True P' in_twins by blast
    show ?thesis
    proof (cases "cr_address_match r")
      case (Some m)
      have "(d, cr_app_match r) \<in> set (suffix_keys (P' @ Q'))" if "m = ExactFqdn d" for d
      proof (cases "(d, cr_app_match r) \<in> set (suffix_keys (P @ Q))")
        case True
        then show ?thesis using P' Q' unfolding member_suffix_keys by auto
      next
        case False
        then have "?n = Some d" using Some that by (simp add: twin_name_def)
        then have "subdomain_twin r d \<in> set (P' @ Q')" using tw by simp
        then show ?thesis
          unfolding member_suffix_keys by (intro bexI [of _ "subdomain_twin r d"]) auto
      qed
      moreover have "holds_suffix P' d (cr_app_match r)" if "m = Zone d" "zone_ranks_as_suffix d" for d
      proof (cases "holds_suffix P d (cr_app_match r)")
        case True
        then show ?thesis using P' by (auto simp: holds_suffix_def list_ex_iff)
      next
        case False
        then have "?n = Some d" using Some that by (simp add: twin_name_def)
        moreover have "cr_enabled r" using z True Some that by (auto simp: zones_enabled_def)
        ultimately have "subdomain_twin r d \<in> set P'" "cr_enabled r" using tw by blast+
        then show ?thesis
          unfolding holds_suffix_def list_ex_iff by (intro bexI [of _ "subdomain_twin r d"]) auto
      qed
      ultimately show ?thesis using Some by (auto simp: twin_name_def split: canonical_address_match.splits)
    qed (simp add: twin_name_def)
  next
    case False
    then obtain q d where "r = subdomain_twin q d" using r P' by (auto simp: in_twins)
    then show ?thesis by (simp add: twin_name_def)
  qed
  then have "\<not> (\<exists>t. t \<in> set (twins P' Q'))" unfolding in_twins by fastforce
  then show ?thesis by (cases "twins P' Q'") auto
qed

lemma set_coverage: "set (set_with_subdomain_coverage P Q) = set P \<union> set (twins P Q)"
  by (simp add: set_with_subdomain_coverage_def)

text \<open>
  C31. Applying the subdomain rewrite twice changes nothing, provided the book has no disabled zone of
  several labels: the twins the first pass added stop the second from adding any.
\<close>

theorem subdomain_coverage_idempotent:
  assumes "zones_enabled (all_rules book)"
  shows "with_subdomain_coverage (with_subdomain_coverage book) = with_subdomain_coverage book"
proof -
  let ?p = "rb_primary book" and ?s = "rb_secondary book"
  have z: "zones_enabled ?p" "zones_enabled ?s" using assms by (auto simp: zones_enabled_def all_rules_def)
  have "twins (set_with_subdomain_coverage ?p ?s) (set_with_subdomain_coverage ?s ?p) = []"
    by (rule no_new_twins [of _ ?p ?s]) (auto simp: set_coverage z)
  moreover have "twins (set_with_subdomain_coverage ?s ?p) (set_with_subdomain_coverage ?p ?s) = []"
    by (rule no_new_twins [of _ ?s ?p]) (auto simp: set_coverage z)
  ultimately show ?thesis
    by (simp add: with_subdomain_coverage_def set_with_subdomain_coverage_def [of "set_with_subdomain_coverage _ _"])
      (simp add: set_with_subdomain_coverage_def)
qed

definition sample_book :: rule_book where
  "sample_book = \<lparr>rb_primary = from_rules [plain_rule ''1'' (ExactFqdn ''a.b'') Route,
      plain_rule ''2'' (Zone ''corp.example'') Block],
    rb_secondary = from_rules [plain_rule ''3'' (SuffixDomain ''a.b'') Route]\<rparr>"

theorem subdomain_coverage_idempotent_witness:
  "with_subdomain_coverage (with_subdomain_coverage sample_book) = with_subdomain_coverage sample_book"
  by (rule subdomain_coverage_idempotent)
    (auto simp: zones_enabled_def all_rules_def sample_book_def plain_rule_def)

definition disabled_zone_book :: rule_book where
  "disabled_zone_book =
     \<lparr>rb_primary = [(plain_rule ''1'' (Zone ''corp.example'') Route)\<lparr>cr_enabled := False\<rparr>], rb_secondary = []\<rparr>"

text \<open>A disabled zone of several labels that no enabled rule of the same application names otherwise.\<close>

definition stray_zone :: "canonical_rule list \<Rightarrow> canonical_rule \<Rightarrow> string \<Rightarrow> bool" where
  "stray_zone rules r d \<longleftrightarrow> r \<in> set rules \<and> \<not> cr_enabled r \<and> cr_address_match r = Some (Zone d) \<and> zone_ranks_as_suffix d \<and>
     (\<forall>e \<in> set rules. cr_enabled e \<longrightarrow> cr_app_match e = cr_app_match r \<longrightarrow>
        cr_address_match e \<noteq> Some (SuffixDomain d) \<and> cr_address_match e \<noteq> Some (ExactFqdn d) \<and>
        cr_address_match e \<noteq> Some (Zone d))"

lemma stray_zone_twin:
  assumes "stray_zone P r d"
  shows "twin_name P ks r = Some d"
proof -
  have "\<not> holds_suffix P d (cr_app_match r)"
    using assms by (auto simp: stray_zone_def holds_suffix_def list_ex_iff)
  then show ?thesis using assms by (simp add: twin_name_def stray_zone_def)
qed

lemma stray_zone_coverage:
  assumes "stray_zone P r d"
  shows "stray_zone (set_with_subdomain_coverage P Q) r d"
proof -
  have "cr_address_match e \<noteq> Some (SuffixDomain d) \<and> cr_address_match e \<noteq> Some (ExactFqdn d) \<and> cr_address_match e \<noteq> Some (Zone d)"
    if e: "e \<in> set (twins P Q)" "cr_enabled e" "cr_app_match e = cr_app_match r" for e
  proof -
    obtain q c where q: "q \<in> set P" "twin_name P (suffix_keys (P @ Q)) q = Some c" "e = subdomain_twin q c"
      using e(1) by (auto simp: in_twins)
    then have "c \<noteq> d" using assms e(2,3) twin_name_cases [OF q(2)] by (auto simp: stray_zone_def)
    then show ?thesis using q(3) by simp
  qed
  then show ?thesis using assms unfolding stray_zone_def set_coverage by blast
qed

lemma count_map_filter:
  "x \<in> set xs \<Longrightarrow> f x = Some y \<Longrightarrow> 1 \<le> count (mset (List.map_filter f xs)) y"
  by (simp add: set_map_filter Suc_le_eq) blast

lemma stray_zone_adds:
  assumes "stray_zone P r d"
  shows "count (mset P) (subdomain_twin r d) + 1 \<le> count (mset (set_with_subdomain_coverage P Q)) (subdomain_twin r d)"
proof -
  have "r \<in> set P" using assms by (simp add: stray_zone_def)
  then have "1 \<le> count (mset (twins P Q)) (subdomain_twin r d)"
    unfolding twins_def by (rule count_map_filter) (simp add: stray_zone_twin [OF assms])
  then show ?thesis by (simp add: set_with_subdomain_coverage_def)
qed

text \<open>
  C32. With a disabled zone of several labels the rewrite is not idempotent: its twin is disabled too,
  \<open>holds_suffix\<close> does not see it, and every further pass adds the same twin once more. For every
  book whose primary set holds such a zone, with no enabled rule of the same application for the
  same name, \<open>n\<close> passes leave at least \<open>n\<close> copies of the twin more than before, so each pass
  lengthens the set.
\<close>

theorem disabled_zone_twin_repeats:
  assumes "stray_zone (rb_primary book) r d"
  shows "count (mset (rb_primary book)) (subdomain_twin r d) + n \<le>
    count (mset (rb_primary ((with_subdomain_coverage ^^ n) book))) (subdomain_twin r d)"
proof -
  have "stray_zone (rb_primary ((with_subdomain_coverage ^^ n) book)) r d \<and>
    count (mset (rb_primary book)) (subdomain_twin r d) + n \<le>
    count (mset (rb_primary ((with_subdomain_coverage ^^ n) book))) (subdomain_twin r d)"
  proof (induction n)
    case (Suc n)
    let ?b = "(with_subdomain_coverage ^^ n) book"
    have "rb_primary ((with_subdomain_coverage ^^ Suc n) book) = set_with_subdomain_coverage (rb_primary ?b) (rb_secondary ?b)"
      by (simp add: with_subdomain_coverage_def)
    then show ?case
      using Suc stray_zone_coverage [of "rb_primary ?b" r d] stray_zone_adds [of "rb_primary ?b" r d "rb_secondary ?b"] by simp
  qed (simp add: assms)
  then show ?thesis by blast
qed

theorem disabled_zone_twin_repeats_witness:
  "3 \<le> count (mset (rb_primary ((with_subdomain_coverage ^^ 3) disabled_zone_book)))
     (subdomain_twin ((plain_rule ''1'' (Zone ''corp.example'') Route)\<lparr>cr_enabled := False\<rparr>) ''corp.example'')"
proof -
  have "zone_ranks_as_suffix ''corp.example''" by code_simp
  then have "stray_zone (rb_primary disabled_zone_book)
      ((plain_rule ''1'' (Zone ''corp.example'') Route)\<lparr>cr_enabled := False\<rparr>) ''corp.example''"
    by (simp add: stray_zone_def disabled_zone_book_def plain_rule_def)
  from disabled_zone_twin_repeats [OF this, of 3] show ?thesis by simp
qed

lemma is_twin_of_apex: "is_twin_of r apex \<Longrightarrow> \<exists>d. cr_address_match apex = Some (ExactFqdn d) \<or>
    cr_address_match apex = Some (Zone d)"
  by (auto simp: is_twin_of_def split: option.splits canonical_address_match.splits)

lemma subdomain_twin_is_twin:
  assumes "twin_name rules ks r = Some d"
  shows "is_twin_of (subdomain_twin r d) r"
  using twin_name_cases [OF assms] by (simp add: is_twin_of_def)

lemma is_twin_coverage:
  assumes "set E = set P \<union> set (twins P Q)"
  shows "is_twin E r \<longleftrightarrow> is_twin P r"
proof -
  have "\<not> is_twin_of r t" if "t \<in> set (twins P Q)" for t
    using that is_twin_of_apex [of r t] by (auto simp: in_twins)
  then show ?thesis using assms by (auto simp: is_twin_def list_ex_iff)
qed

lemma coverage_removed:
  assumes "set_without_subdomain_twins P = None" "sorted (map canonical_key P)"
  shows "(case set_without_subdomain_twins (set_with_subdomain_coverage P Q) of
    None \<Rightarrow> set_with_subdomain_coverage P Q | Some k \<Rightarrow> k) = P"
proof -
  let ?E = "set_with_subdomain_coverage P Q"
  have clean: "\<forall>r \<in> set P. \<not> is_twin P r"
    using assms(1) by (auto simp: set_without_subdomain_twins_def list_ex_iff split: if_splits)
  have E: "is_twin ?E r = is_twin P r" for r
    by (rule is_twin_coverage [of _ _ Q]) (rule set_coverage)
  have T: "\<forall>t \<in> set (twins P Q). is_twin P t"
    using subdomain_twin_is_twin by (fastforce simp: in_twins is_twin_def list_ex_iff)
  have keep: "filter (\<lambda>r. \<not> is_twin ?E r) ?E = P"
  proof -
    have "filter (\<lambda>r. \<not> is_twin P r) (P @ twins P Q) = P" using clean T by (simp add: filter_id_conv)
    then show ?thesis
      unfolding E unfolding set_with_subdomain_coverage_def from_rules_def filter_sort
      using assms(2) by (simp add: sort_key_id_if_sorted)
  qed
  show ?thesis
  proof (cases "list_ex (is_twin ?E) ?E")
    case True
    then show ?thesis
      using keep from_rules_id [OF assms(2)] by (simp add: set_without_subdomain_twins_def)
  next
    case False
    then have "filter (\<lambda>r. \<not> is_twin ?E r) ?E = ?E" by (simp add: filter_id_conv list_ex_iff)
    then show ?thesis using keep False by (simp add: set_without_subdomain_twins_def)
  qed
qed

text \<open>
  C33. Removing subdomain twins undoes adding them: from a canonical book that holds no twin, adding
  coverage and cleaning it up again gives the book back exactly.
\<close>

theorem subdomain_twins_removed:
  assumes "without_subdomain_twins book = None"
    "sorted (map canonical_key (rb_primary book))" "sorted (map canonical_key (rb_secondary book))"
  shows "(case without_subdomain_twins (with_subdomain_coverage book) of
    None \<Rightarrow> with_subdomain_coverage book | Some b \<Rightarrow> b) = book"
proof -
  let ?p = "rb_primary book" and ?s = "rb_secondary book"
  have c: "set_without_subdomain_twins ?p = None" "set_without_subdomain_twins ?s = None"
    using assms(1) by (auto simp: without_subdomain_twins_def Let_def split: if_splits)
  note p = coverage_removed [OF c(1) assms(2), of ?s] and s = coverage_removed [OF c(2) assms(3), of ?p]
  show ?thesis
    using p s by (auto simp: without_subdomain_twins_def with_subdomain_coverage_def Let_def split: option.splits)
qed

theorem subdomain_twins_removed_witness:
  "(case without_subdomain_twins (with_subdomain_coverage sample_book) of
    None \<Rightarrow> with_subdomain_coverage sample_book | Some b \<Rightarrow> b) = sample_book"
proof (rule subdomain_twins_removed)
  show "without_subdomain_twins sample_book = None" by code_simp
qed (simp_all add: sample_book_def sorted_from_rules)

section \<open>Effective verify rules\<close>

lemma as_route_not_verify [simp]: "cr_action (as_route r) \<noteq> Verify"
  by (simp add: as_route_def is_verify_def)

lemma proven_host_fields [simp]:
  "cr_action (proven_host r m) = Route" "cr_app_match (proven_host r m) = None"
  "cr_origin (proven_host r m) = None" "cr_enabled (proven_host r m) = True"
  by (simp_all add: proven_host_def Let_def)

lemma in_moves: "m \<in> set (moves moved w r) \<longleftrightarrow> is_verify r \<and> m \<in> set moved \<and> verify_key_names (vm_key m) w r"
  by (auto simp: moves_def)

lemma is_moved_iff: "is_moved moved w r \<longleftrightarrow>
    one_destination r \<and> is_verify r \<and> (\<exists>m \<in> set moved. verify_key_names (vm_key m) w r)"
  by (auto simp: is_moved_def moves_def filter_empty_conv)

lemma in_settle:
  "x \<in> set (settle book moved own other) \<longleftrightarrow>
     (\<exists>r \<in> set (set_for book own). \<not> is_moved moved own r \<and> x = as_route r) \<or>
     (\<exists>r \<in> set (set_for book other). is_moved moved other r \<and> x = as_route r) \<or>
     (\<exists>r \<in> set (set_for book other). \<not> one_destination r \<and>
        (\<exists>m \<in> set (moves moved other r). x = proven_host r m))"
  by (auto simp: settle_def proven_hosts_def split: if_splits)

lemma set_for_effective:
  assumes "list_ex is_verify (all_rules book)"
  shows "set_for (with_verify_effective book moved) own =
    settle book moved own (case own of Primary \<Rightarrow> Secondary | Secondary \<Rightarrow> Primary)"
  using assms by (cases own) (simp_all add: with_verify_effective_def)

lemma no_verify_set_for:
  "\<not> list_ex is_verify (all_rules book) \<Longrightarrow> r \<in> set (set_for book own) \<Longrightarrow> \<not> is_verify r"
  by (cases own) (auto simp: all_rules_def list_ex_iff)

fun other_role :: "route_role \<Rightarrow> route_role" where
  "other_role Primary = Secondary"
| "other_role Secondary = Primary"

lemma other_role_case: "(case own of Primary \<Rightarrow> Secondary | Secondary \<Rightarrow> Primary) = other_role own"
  by (cases own) auto

lemma as_route_id: "\<not> is_verify r \<Longrightarrow> as_route r = r"
  by (simp add: as_route_def)

lemma mset_settle_both:
  "mset (settle book moved Primary Secondary) + mset (settle book moved Secondary Primary) =
     image_mset as_route (mset (all_rules book)) +
     mset (concat (map (proven_hosts moved Secondary) (rb_secondary book))) + mset (concat (map (proven_hosts moved Primary) (rb_primary book)))"
proof -
  have part: "image_mset as_route (mset (filter (\<lambda>r. \<not> is_moved moved w r) rs)) + image_mset as_route (mset (filter (is_moved moved w) rs)) =
      image_mset as_route (mset rs)" for w rs
    by (induction rs) simp_all
  show ?thesis
    unfolding all_rules_def mset_append image_mset_union
      part [of Primary "rb_primary book", symmetric] part [of Secondary "rb_secondary book", symmetric]
    by (simp add: settle_def ac_simps)
qed

lemma no_verify_proven: "\<not> list_ex is_verify rs \<Longrightarrow> concat (map (proven_hosts moved w) rs) = []"
proof -
  assume n: "\<not> list_ex is_verify rs"
  have "proven_hosts moved w r = []" if "r \<in> set rs" for r
  proof -
    have "\<not> is_verify r" using n that by (auto simp: list_ex_iff)
    then show ?thesis unfolding proven_hosts_def moves_def by simp
  qed
  then show ?thesis unfolding concat_eq_Nil_conv set_map by blast
qed

lemma mset_effective:
  "mset (all_rules (with_verify_effective book moved)) =
     image_mset as_route (mset (all_rules book)) +
     mset (concat (map (proven_hosts moved Secondary) (rb_secondary book))) + mset (concat (map (proven_hosts moved Primary) (rb_primary book)))"
proof (cases "list_ex is_verify (all_rules book)")
  case True
  then have "all_rules (with_verify_effective book moved) = settle book moved Primary Secondary @ settle book moved Secondary Primary"
    by (simp add: with_verify_effective_def all_rules_def)
  then show ?thesis by (simp only: mset_append mset_settle_both)
next
  case False
  have "image_mset as_route (mset rs) = mset rs" if "\<not> list_ex is_verify rs" for rs
    using that by (induction rs) (simp_all add: as_route_id)
  note id = this [OF False]
  have "\<not> list_ex is_verify (rb_primary book)" "\<not> list_ex is_verify (rb_secondary book)"
    using False by (simp_all add: all_rules_def)
  note p = this [THEN no_verify_proven]
  have "with_verify_effective book moved = book" using False by (simp add: with_verify_effective_def)
  then show ?thesis by (simp only: id p mset.simps(1) add_0_right)
qed

text \<open>
  C34. What the verdicts make of a book, exactly. The effective set of a route holds the rules written
  in that set that no verdict moves (checks as routes), the one-destination checks of the other set
  that a verdict names, as routes, and one enabled exact rule for each host that a verdict about a
  wider check of the other set proved; nothing else, so no rule waits for a check any more. And no
  rule is lost or kept twice: the two sets together hold every written rule once, as a route, and the
  rules of the proven hosts.
\<close>

theorem verify_effective_confined:
  "set (set_for (with_verify_effective book moved) own) =
     {as_route r | r. r \<in> set (set_for book own) \<and>
        \<not> (one_destination r \<and> is_verify r \<and> (\<exists>m. m \<in> set moved \<and> verify_key_names (vm_key m) own r))} \<union>
     {as_route r | r m. r \<in> set (set_for book (other_role own)) \<and> one_destination r \<and> is_verify r \<and>
        m \<in> set moved \<and> verify_key_names (vm_key m) (other_role own) r} \<union>
     {proven_host r m | r m. r \<in> set (set_for book (other_role own)) \<and> \<not> one_destination r \<and> is_verify r \<and>
        m \<in> set moved \<and> verify_key_names (vm_key m) (other_role own) r} \<and>
   Verify \<notin> cr_action ` set (set_for (with_verify_effective book moved) own) \<and>
   mset (all_rules (with_verify_effective book moved)) =
     image_mset as_route (mset (all_rules book)) +
     mset (concat (map (proven_hosts moved Secondary) (rb_secondary book))) +
     mset (concat (map (proven_hosts moved Primary) (rb_primary book)))"
  (is "?S = ?A \<union> ?B \<union> ?C \<and> ?V \<and> ?M")
proof -
  have S: "?S = ?A \<union> ?B \<union> ?C"
  proof (cases "list_ex is_verify (all_rules book)")
    case True
    then show ?thesis
      unfolding set_for_effective [OF True] other_role_case set_eq_iff in_settle is_moved_iff Bex_def in_moves by blast
  next
    case False
    then have "with_verify_effective book moved = book" by (simp add: with_verify_effective_def)
    moreover have "\<not> is_verify r" if "r \<in> set (set_for book w)" for r w using no_verify_set_for [OF False that] .
    ultimately show ?thesis by (auto simp: as_route_id) (metis as_route_id)
  qed
  moreover have "cr_action (as_route r) \<noteq> Verify" "cr_action (proven_host r m) \<noteq> Verify" for r m by simp_all
  then have ?V unfolding S by (auto dest: sym)
  ultimately show ?thesis using mset_effective [of book moved] by blast
qed

definition verify_book :: rule_book where
  "verify_book = \<lparr>rb_primary = [plain_rule ''1'' (SuffixDomain ''github.io'') Verify], rb_secondary = []\<rparr>"

definition verify_verdict :: verify_move where
  "verify_verdict = \<lparr>vm_key = \<lparr>vk_written = Primary, vk_address = SuffixDomain ''github.io''\<rparr>,
     vm_host = ''Page.github.io.''\<rparr>"

lemma good_settled:
  assumes "good_rules (set (all_rules book))"
  shows "good_rules (set (settle book moved own other))"
proof -
  have sub: "set (set_for book w) \<subseteq> set (all_rules book)" for w by (cases w) (auto simp: all_rules_def)
  have r: "wf_rule (as_route r)" "rule_path (as_route r) = rule_path r" if "wf_rule r" for r
    using that by (auto simp: wf_rule_def as_route_def rule_path_def)
  have h: "wf_rule (proven_host r m)" "rule_path (proven_host r m) = None" for r m
    by (auto simp: wf_rule_def rule_path_def proven_host_def Let_def split: option.splits)
  have src: "x \<in> set (settle book moved own other) \<Longrightarrow>
      (\<exists>r \<in> set (all_rules book). x = as_route r) \<or> (\<exists>r m. x = proven_host r m)" for x
    using sub unfolding in_settle by blast
  show ?thesis
    unfolding good_rules_def
  proof (intro conjI ballI allI impI)
    fix x assume "x \<in> set (settle book moved own other)"
    then show "wf_rule x" using src [of x] assms r h by (auto simp: good_rules_def)
  next
    fix x y p q assume "x \<in> set (settle book moved own other)" "y \<in> set (settle book moved own other)"
      and pq: "rule_path x = Some p" "rule_path y = Some q" "ap_text p = ap_text q"
    then obtain a b where "a \<in> set (all_rules book)" "x = as_route a" "b \<in> set (all_rules book)" "y = as_route b"
      using src [of x] src [of y] h(2) by force
    then show "p = q" using assms r pq unfolding good_rules_def by metis
  qed
qed

lemma mset_settle_input:
  assumes "mset moved' = mset moved"
  shows "mset (settle book moved' own other) = mset (settle book moved own other)"
proof -
  have mv: "mset (moves moved' w r) = mset (moves moved w r)" for w r
    using assms by (simp add: moves_def)
  have im: "is_moved moved' w r = is_moved moved w r" for w r
    using assms by (simp add: is_moved_iff) (metis set_mset_mset)
  have ph: "mset (proven_hosts moved' w r) = mset (proven_hosts moved w r)" for w r
    using mv [of w r] by (simp add: proven_hosts_def)
  have "mset (concat (map (proven_hosts moved' other) rs)) = mset (concat (map (proven_hosts moved other) rs))" for rs
    by (induction rs) (simp_all add: ph)
  then show ?thesis by (simp add: settle_def im)
qed

text \<open>
  C35. The verdicts are a set: the effective book does not depend on the order a caller
  enumerates them in.
\<close>

theorem verify_effective_order:
  assumes "good_rules (set (all_rules book))" "mset moved' = mset moved"
  shows "with_verify_effective book moved' = with_verify_effective book moved"
proof -
  have "settle book moved' own other = settle book moved own other" for own other
  proof -
    have "from_rules (settle book moved' own other) = from_rules (settle book moved own other)"
      using canonical.sort_perm [OF good_settled [OF assms(1)] mset_settle_input [OF assms(2)]]
      by (simp add: from_rules_def)
    then show ?thesis by (simp add: settle_def)
  qed
  then show ?thesis by (simp add: with_verify_effective_def)
qed

theorem verify_effective_order_witness:
  "with_verify_effective verify_book [verify_verdict, verify_verdict\<lparr>vm_host := ''b.github.io''\<rparr>] =
   with_verify_effective verify_book [verify_verdict\<lparr>vm_host := ''b.github.io''\<rparr>, verify_verdict]"
proof (rule verify_effective_order)
  show "good_rules (set (all_rules verify_book))"
    by (simp add: good_rules_def wf_rule_def plain_rule_def rule_path_def verify_book_def all_rules_def)
qed simp

section \<open>Zone twins\<close>

text \<open>
  Spelling out \<open>base.*\<close> rules for the sites seen keeps every rule of the book where it is and
  adds only enabled suffix twins of enabled \<open>base.*\<close> rules, each for a reported site that no enabled
  rule names outright, with the action and application of the rule it stands for.
\<close>

theorem any_zone_sites_twins:
  "set (set_for (with_any_zone_sites book sites) own) = set (set_for book own) \<union>
     {zone_twin r name | r name base. r \<in> set (set_for book own) \<and> cr_enabled r \<and>
        cr_address_match r = Some (AnyZoneDomain base) \<and> name \<in> set (sites base) \<and>
        \<not> names_suffix_outright book name}"
proof -
  have zt: "x \<in> set (zone_twins book sites r) \<longleftrightarrow> (\<exists>name base. x = zone_twin r name \<and>
      cr_address_match r = Some (AnyZoneDomain base) \<and> name \<in> set (sites base) \<and>
      \<not> names_suffix_outright book name)" for x r
    by (cases "cr_address_match r"; cases "the (cr_address_match r)") (auto simp: zone_twins_def)
  have ex: "set (expand_any_zone book sites rules) = set rules \<union>
      {zone_twin r name | r name base. r \<in> set rules \<and> cr_enabled r \<and>
        cr_address_match r = Some (AnyZoneDomain base) \<and> name \<in> set (sites base) \<and>
        \<not> names_suffix_outright book name}" for rules
    unfolding expand_any_zone_def set_from_rules set_append set_concat set_map
    by (auto simp: zt) blast+
  show ?thesis
  proof (cases "has_any_zone_rules book")
    case True
    then show ?thesis by (cases own) (simp_all add: with_any_zone_sites_def ex)
  next
    case False
    then have "\<not> is_any_zone (cr_address_match r)" if "r \<in> set (set_for book own)" for r
      using that by (cases own) (auto simp: has_any_zone_rules_def all_rules_def list_ex_iff)
    then have "\<not> (\<exists>r base. r \<in> set (set_for book own) \<and> cr_address_match r = Some (AnyZoneDomain base))"
      by (metis is_any_zone.simps(1))
    then show ?thesis using False by (auto simp: with_any_zone_sites_def)
  qed
qed

end
