(* ===== verification/Fake_Ip_Allocator.thy ===== *)
theory Fake_Ip_Allocator
  imports Fake_Ip_Pool Rule_Book "HOL-Library.AList"
begin

text \<open>
  The fake-address allocator, the stateful half of
  \<open>src/core/platform/api/src/fake_ip/allocator.rs\<close>: a bidirectional map between host names and
  pool indices with recycling of idle bindings. The state is one record; each method is a function
  from the state (and the reading of the clock, for the methods that read it) to its result and the
  new state. Hash maps are association lists without duplicate keys, the ordered set \<open>by_age\<close> a
  set of pairs whose least element is \<open>first\<close>, the vector \<open>freed\<close> a list whose end is the
  top of the stack; the change sink is the list of the calls it received. The use counter saturates
  as in the code.
\<close>

type_synonym u64 = "64 word"

section \<open>State\<close>

record fake_ip_binding =
  fb_index :: u32
  fb_v4 :: u32
  fb_v6 :: "u128 option"

record idle_binding =
  ib_order :: u64
  ib_domain :: string
  ib_binding :: fake_ip_binding

datatype fake_ip_error = EmptyDomain | PoolExhausted

record slot =
  sl_domain :: string
  sl_last_used :: u64
  sl_touched :: nat

datatype binding_change = Bound string u32 | Released u32

record fake_ip_allocator =
  fa_config :: fake_ip_pool_config
  fa_by_domain :: "(string \<times> u32) list"
  fa_by_index :: "(u32 \<times> slot) list"
  fa_cursor :: u32
  fa_freed :: "u32 list"
  fa_by_age :: "(u64 \<times> u32) set"
  fa_min_recycle_idle :: nat
  fa_tick :: u64
  fa_sink :: "binding_change list option"

text \<open>Durations and instants are in milliseconds.\<close>

definition RECYCLE_MIN_IDLE :: nat where "RECYCLE_MIN_IDLE = 10 * 60 * 1000"

definition fa_new :: "fake_ip_pool_config \<Rightarrow> fake_ip_allocator" where
  "fa_new config = \<lparr>fa_config = config, fa_by_domain = [], fa_by_index = [],
     fa_cursor = FAKE_IP_FIRST_HOST_INDEX, fa_freed = [], fa_by_age = {},
     fa_min_recycle_idle = RECYCLE_MIN_IDLE, fa_tick = 0, fa_sink = None\<rparr>"

definition with_min_recycle_idle :: "fake_ip_allocator \<Rightarrow> nat \<Rightarrow> fake_ip_allocator" where
  "with_min_recycle_idle a idle = a\<lparr>fa_min_recycle_idle := idle\<rparr>"

definition set_change_sink :: "fake_ip_allocator \<Rightarrow> fake_ip_allocator" where
  "set_change_sink a = a\<lparr>fa_sink := Some []\<rparr>"

definition notify :: "binding_change \<Rightarrow> fake_ip_allocator \<Rightarrow> fake_ip_allocator" where
  "notify e a = a\<lparr>fa_sink := map_option (\<lambda>es. es @ [e]) (fa_sink a)\<rparr>"

definition normalize_hostname :: "string \<Rightarrow> string" where
  "normalize_hostname hostname = to_ascii_lowercase (trim_end_dots (trim hostname))"

section \<open>Operations\<close>

definition touch :: "nat \<Rightarrow> u32 \<Rightarrow> fake_ip_allocator \<Rightarrow> fake_ip_allocator" where
  "touch now i a =
     (let tick = saturating_inc (fa_tick a); a1 = a\<lparr>fa_tick := tick\<rparr> in
      case map_of (fa_by_index a) i of
        Some s \<Rightarrow> a1\<lparr>fa_by_index := AList.update i (s\<lparr>sl_last_used := tick, sl_touched := now\<rparr>) (fa_by_index a),
                   fa_by_age := insert (tick, i) (fa_by_age a - {(sl_last_used s, i)})\<rparr>
      | None \<Rightarrow> a1)"

definition insert_slot :: "nat \<Rightarrow> u32 \<Rightarrow> string \<Rightarrow> fake_ip_allocator \<Rightarrow> fake_ip_allocator" where
  "insert_slot now i domain a =
     (let tick = saturating_inc (fa_tick a) in
      a\<lparr>fa_tick := tick,
        fa_by_index := AList.update i \<lparr>sl_domain = domain, sl_last_used = tick, sl_touched = now\<rparr> (fa_by_index a),
        fa_by_age := insert (tick, i) (fa_by_age a)\<rparr>)"

definition restore_one :: "nat \<Rightarrow> string \<times> u32 \<Rightarrow> fake_ip_allocator \<Rightarrow> fake_ip_allocator" where
  "restore_one now b a =
     (let key = normalize_hostname (fst b); i = snd b in
      if key = [] \<or> i < FAKE_IP_FIRST_HOST_INDEX \<or> i > last_host_index (fa_config a) \<or>
         map_of (fa_by_index a) i \<noteq> None \<or> map_of (fa_by_domain a) key \<noteq> None
      then a
      else (insert_slot now i key a)\<lparr>fa_by_domain := AList.update key i (fa_by_domain a)\<rparr>)"

definition gaps :: "fake_ip_allocator \<Rightarrow> u32 \<Rightarrow> u32 list" where
  "gaps a cur = filter (\<lambda>i. map_of (fa_by_index a) i = None)
     (map word_of_nat [unat FAKE_IP_FIRST_HOST_INDEX ..< unat cur])"

definition restore :: "nat \<Rightarrow> (string \<times> u32) list \<Rightarrow> fake_ip_allocator \<Rightarrow> fake_ip_allocator" where
  "restore now bindings a =
     (let a1 = fold (restore_one now) bindings a in
      case map fst (fa_by_index a1) of
        [] \<Rightarrow> a1
      | k # ks \<Rightarrow>
          (let cursor = max (saturating_inc (fold max ks k)) (fa_cursor a1)
           in a1\<lparr>fa_cursor := cursor, fa_freed := gaps a1 cursor\<rparr>))"

definition fa_len :: "fake_ip_allocator \<Rightarrow> nat" where
  "fa_len a = length (fa_by_domain a)"

definition binding_at :: "fake_ip_allocator \<Rightarrow> u32 \<Rightarrow> fake_ip_binding" where
  "binding_at a i = \<lparr>fb_index = i, fb_v4 = v4_at (fa_config a) i, fb_v6 = v6_at (fa_config a) i\<rparr>"

definition take_index :: "nat \<Rightarrow> fake_ip_allocator \<Rightarrow> (fake_ip_error + u32) \<times> fake_ip_allocator" where
  "take_index now a =
     (if fa_freed a \<noteq> [] then (Inr (last (fa_freed a)), a\<lparr>fa_freed := butlast (fa_freed a)\<rparr>)
      else if fa_cursor a \<le> last_host_index (fa_config a) \<and> capacity (fa_config a) > 0
      then (Inr (fa_cursor a), a\<lparr>fa_cursor := saturating_inc (fa_cursor a)\<rparr>)
      else if fa_by_age a = {} then (Inl PoolExhausted, a)
      else
        let (last_used, i) = Min (fa_by_age a) in
        case map_of (fa_by_index a) i of
          None \<Rightarrow> (Inl PoolExhausted, a\<lparr>fa_by_age := fa_by_age a - {(last_used, i)}\<rparr>)
        | Some s \<Rightarrow>
            if now - sl_touched s < fa_min_recycle_idle a then (Inl PoolExhausted, a)
            else (Inr i, a\<lparr>fa_by_age := fa_by_age a - {(last_used, i)},
                           fa_by_domain := AList.delete (sl_domain s) (fa_by_domain a),
                           fa_by_index := AList.delete i (fa_by_index a)\<rparr>))"

definition allocate :: "nat \<Rightarrow> string \<Rightarrow> fake_ip_allocator \<Rightarrow> (fake_ip_error + fake_ip_binding) \<times> fake_ip_allocator" where
  "allocate now domain a =
     (let key = normalize_hostname domain in
      if key = [] then (Inl EmptyDomain, a)
      else case map_of (fa_by_domain a) key of
          Some i \<Rightarrow> (Inr (binding_at a i), touch now i a)
        | None \<Rightarrow>
            (case take_index now a of
               (Inl e, a1) \<Rightarrow> (Inl e, a1)
             | (Inr i, a1) \<Rightarrow>
                 (let a2 = insert_slot now i key a1;
                      a3 = a2\<lparr>fa_by_domain := AList.update key i (fa_by_domain a2)\<rparr>
                  in (Inr (binding_at a3 i), notify (Bound key i) a3))))"

definition binding_for_domain :: "fake_ip_allocator \<Rightarrow> string \<Rightarrow> fake_ip_binding option" where
  "binding_for_domain a domain =
     map_option (binding_at a) (map_of (fa_by_domain a) (normalize_hostname domain))"

definition domain_for_ip :: "nat \<Rightarrow> ip_addr \<Rightarrow> fake_ip_allocator \<Rightarrow> string option \<times> fake_ip_allocator" where
  "domain_for_ip now addr a =
     (case index_of (fa_config a) addr of None \<Rightarrow> (None, a)
      | Some i \<Rightarrow> (let a1 = touch now i a in (map_option sl_domain (map_of (fa_by_index a1) i), a1)))"

definition peek_domain_for_ip :: "fake_ip_allocator \<Rightarrow> ip_addr \<Rightarrow> string option" where
  "peek_domain_for_ip a addr =
     (case index_of (fa_config a) addr of None \<Rightarrow> None
      | Some i \<Rightarrow> map_option sl_domain (map_of (fa_by_index a) i))"

definition is_fake_address :: "fake_ip_allocator \<Rightarrow> ip_addr \<Rightarrow> bool" where
  "is_fake_address a addr = pool_contains (fa_config a) addr"

definition release :: "string \<Rightarrow> fake_ip_allocator \<Rightarrow> bool \<times> fake_ip_allocator" where
  "release domain a =
     (let key = normalize_hostname domain in
      case map_of (fa_by_domain a) key of
        Some i \<Rightarrow>
          (let a1 = a\<lparr>fa_by_domain := AList.delete key (fa_by_domain a)\<rparr>;
               a2 = (case map_of (fa_by_index a1) i of
                   Some s \<Rightarrow> a1\<lparr>fa_by_index := AList.delete i (fa_by_index a1),
                               fa_by_age := fa_by_age a1 - {(sl_last_used s, i)}\<rparr>
                 | None \<Rightarrow> a1)
           in (True, notify (Released i) (a2\<lparr>fa_freed := fa_freed a2 @ [i]\<rparr>)))
      | None \<Rightarrow> (False, a))"

fun idle_loop :: "nat \<Rightarrow> nat \<Rightarrow> nat \<Rightarrow> fake_ip_allocator \<Rightarrow> (u64 \<times> u32) list \<Rightarrow> idle_binding list \<Rightarrow> idle_binding list" where
  "idle_loop now idle limit a [] found = found"
| "idle_loop now idle limit a ((order, i) # rest) found =
     (if length found \<ge> limit then found
      else case map_of (fa_by_index a) i of
          None \<Rightarrow> idle_loop now idle limit a rest found
        | Some s \<Rightarrow>
            if now - sl_touched s < idle then found
            else idle_loop now idle limit a rest
                   (found @ [\<lparr>ib_order = order, ib_domain = sl_domain s, ib_binding = binding_at a i\<rparr>]))"

definition idle_bindings :: "nat \<Rightarrow> fake_ip_allocator \<Rightarrow> u64 \<Rightarrow> nat \<Rightarrow> nat \<Rightarrow> idle_binding list" where
  "idle_bindings now a after idle limit =
     idle_loop now idle limit a (filter (\<lambda>x. (after, - 1) < x) (sorted_list_of_set (fa_by_age a))) []"

definition release_if_untouched :: "string \<Rightarrow> u64 \<Rightarrow> fake_ip_allocator \<Rightarrow> bool \<times> fake_ip_allocator" where
  "release_if_untouched domain order a =
     (let key = normalize_hostname domain;
          untouched = (case Option.bind (map_of (fa_by_domain a) key) (map_of (fa_by_index a)) of
              Some s \<Rightarrow> sl_last_used s = order | None \<Rightarrow> False)
      in if untouched then release key a else (False, a))"

definition touch_address :: "nat \<Rightarrow> ip_addr \<Rightarrow> fake_ip_allocator \<Rightarrow> bool \<times> fake_ip_allocator" where
  "touch_address now addr a =
     (case index_of (fa_config a) addr of None \<Rightarrow> (False, a)
      | Some i \<Rightarrow> if map_of (fa_by_index a) i = None then (False, a) else (True, touch now i a))"

definition fa_clear :: "fake_ip_allocator \<Rightarrow> fake_ip_allocator" where
  "fa_clear a = a\<lparr>fa_by_domain := [], fa_by_index := [], fa_by_age := {}, fa_freed := [],
     fa_cursor := FAKE_IP_FIRST_HOST_INDEX\<rparr>"

section \<open>Invariant\<close>

text \<open>The two maps are inverse to each other.\<close>

definition maps_ok :: "(string \<rightharpoonup> u32) \<Rightarrow> (u32 \<rightharpoonup> slot) \<Rightarrow> bool" where
  "maps_ok bd bi \<longleftrightarrow> (\<forall>d i. bd d = Some i \<longleftrightarrow> (\<exists>s. bi i = Some s \<and> sl_domain s = d))"

text \<open>The age set holds one pair per binding.\<close>

definition ages :: "(u32 \<rightharpoonup> slot) \<Rightarrow> (u64 \<times> u32) set" where
  "ages bi = {(sl_last_used s, i) | i s. bi i = Some s}"

text \<open>Indices are those of hosts, names are not empty, stamps are in the past.\<close>

definition slots_ok :: "fake_ip_pool_config \<Rightarrow> u64 \<Rightarrow> nat \<Rightarrow> (u32 \<rightharpoonup> slot) \<Rightarrow> bool" where
  "slots_ok c tick now bi \<longleftrightarrow> (\<forall>i s. bi i = Some s \<longrightarrow>
     host_index c i \<and> sl_domain s \<noteq> [] \<and> sl_last_used s \<le> tick \<and> sl_touched s \<le> now)"

text \<open>A smaller use count was stamped no later, and counts repeat only once the counter is saturated.\<close>

definition order_ok :: "(u32 \<rightharpoonup> slot) \<Rightarrow> bool" where
  "order_ok bi \<longleftrightarrow> (\<forall>i j s t. bi i = Some s \<longrightarrow> bi j = Some t \<longrightarrow>
     (sl_last_used s < sl_last_used t \<longrightarrow> sl_touched s \<le> sl_touched t) \<and>
     (i \<noteq> j \<longrightarrow> sl_last_used s = sl_last_used t \<longrightarrow> sl_last_used s = - 1))"

abbreviation bd :: "fake_ip_allocator \<Rightarrow> string \<rightharpoonup> u32" where
  "bd a \<equiv> map_of (fa_by_domain a)"

abbreviation bi :: "fake_ip_allocator \<Rightarrow> u32 \<rightharpoonup> slot" where
  "bi a \<equiv> map_of (fa_by_index a)"

definition core :: "nat \<Rightarrow> fake_ip_allocator \<Rightarrow> bool" where
  "core now a \<longleftrightarrow> pool_ok (fa_config a) \<and> maps_ok (bd a) (bi a) \<and> fa_by_age a = ages (bi a) \<and>
     slots_ok (fa_config a) (fa_tick a) now (bi a) \<and> order_ok (bi a) \<and>
     distinct (map fst (fa_by_domain a)) \<and> distinct (map fst (fa_by_index a))"

text \<open>
  Every index below the cursor is bound, free, or in the hand of the operation in progress (\<open>H\<close>).
\<close>

definition supply_ok :: "u32 set \<Rightarrow> fake_ip_allocator \<Rightarrow> bool" where
  "supply_ok H a \<longleftrightarrow> 2 \<le> unat (fa_cursor a) \<and> unat (fa_cursor a) \<le> unat (last_host_index (fa_config a)) + 1 \<and>
     distinct (fa_freed a) \<and>
     (\<forall>i. i \<in> set (fa_freed a) \<longleftrightarrow> 2 \<le> unat i \<and> i < fa_cursor a \<and> bi a i = None \<and> i \<notin> H) \<and>
     (\<forall>i. bi a i \<noteq> None \<longrightarrow> i < fa_cursor a) \<and>
     (\<forall>i \<in> H. 2 \<le> unat i \<and> i < fa_cursor a \<and> bi a i = None)"

definition alloc_inv :: "nat \<Rightarrow> fake_ip_allocator \<Rightarrow> bool" where
  "alloc_inv now a \<longleftrightarrow> core now a \<and> supply_ok {} a"

subsection \<open>Updates of the maps\<close>

lemma maps_ok_bind:
  assumes "maps_ok D B" "D d = None" "B i = None" "sl_domain s = d"
  shows "maps_ok (D(d \<mapsto> i)) (B(i \<mapsto> s))"
proof -
  have "\<And>j t. B j = Some t \<Longrightarrow> sl_domain t \<noteq> d" using assms(1,2) unfolding maps_ok_def by (metis option.distinct(1))
  moreover have "\<And>e. D e \<noteq> Some i" using assms(1,3) unfolding maps_ok_def by (metis option.distinct(1))
  ultimately show ?thesis using assms unfolding maps_ok_def by auto
qed

lemma maps_okD: "maps_ok D B \<Longrightarrow> D d = Some i \<longleftrightarrow> (\<exists>s. B i = Some s \<and> sl_domain s = d)"
  unfolding maps_ok_def by blast

lemma maps_ok_unbind:
  assumes "maps_ok D B" "B i = Some s"
  shows "maps_ok (D(sl_domain s := None)) (B(i := None))"
  unfolding maps_ok_def
proof (intro allI)
  fix d j
  have di: "D (sl_domain s) = Some i" using assms maps_okD by blast
  show "(D(sl_domain s := None)) d = Some j \<longleftrightarrow> (\<exists>t. (B(i := None)) j = Some t \<and> sl_domain t = d)"
  proof (cases "d = sl_domain s")
    case True
    then have "\<not> (\<exists>t. j \<noteq> i \<and> B j = Some t \<and> sl_domain t = d)"
      using di maps_okD [OF assms(1), of d j] by auto
    then show ?thesis using True by auto
  next
    case False
    then have "\<not> (j = i \<and> (\<exists>t. B j = Some t \<and> sl_domain t = d))" using assms(2) by auto
    then show ?thesis using False maps_okD [OF assms(1), of d j] by auto
  qed
qed

lemma maps_ok_restamp:
  assumes "maps_ok D B" "B i = Some s" "sl_domain t = sl_domain s"
  shows "maps_ok D (B(i \<mapsto> t))"
  unfolding maps_ok_def
proof (intro allI)
  fix d j
  show "D d = Some j \<longleftrightarrow> (\<exists>u. (B(i \<mapsto> t)) j = Some u \<and> sl_domain u = d)"
    using maps_okD [OF assms(1), of d j] assms(2,3) by (cases "j = i") simp_all
qed

lemma in_ages: "(u, i) \<in> ages B \<longleftrightarrow> (\<exists>s. B i = Some s \<and> sl_last_used s = u)"
  unfolding ages_def by auto

lemma ages_bind: "B i = None \<Longrightarrow> ages (B(i \<mapsto> s)) = insert (sl_last_used s, i) (ages B)"
  by (rule set_eqI, rename_tac x, case_tac x) (auto simp: in_ages)

lemma ages_unbind: "B i = Some s \<Longrightarrow> ages (B(i := None)) = ages B - {(sl_last_used s, i)}"
  by (rule set_eqI, rename_tac x, case_tac x) (auto simp: in_ages)

lemma ages_restamp: "B i = Some s \<Longrightarrow> ages (B(i \<mapsto> t)) = insert (sl_last_used t, i) (ages B - {(sl_last_used s, i)})"
  by (rule set_eqI, rename_tac x, case_tac x) (auto simp: in_ages)

lemma slots_ok_upd:
  assumes "slots_ok c tick now B" "tick \<le> tick'" "now \<le> now'" "host_index c i" "sl_domain s \<noteq> []"
    "sl_last_used s = tick'" "sl_touched s = now'"
  shows "slots_ok c tick' now' (B(i \<mapsto> s))"
  using assms unfolding slots_ok_def by (auto intro: order_trans)

lemma slots_ok_mono: "slots_ok c tick now B \<Longrightarrow> tick \<le> tick' \<Longrightarrow> now \<le> now' \<Longrightarrow> slots_ok c tick' now' B"
  unfolding slots_ok_def by (meson order_trans)

lemma slots_ok_unbind: "slots_ok c tick now B \<Longrightarrow> slots_ok c tick now (B(i := None))"
  unfolding slots_ok_def by auto

lemma order_ok_unbind: "order_ok B \<Longrightarrow> order_ok (B(i := None))"
  unfolding order_ok_def by auto

lemma order_ok_upd:
  assumes "order_ok B" "slots_ok c tick now B" "now \<le> now'" "sl_last_used s = saturating_inc tick" "sl_touched s = now'"
  shows "order_ok (B(i \<mapsto> s))"
proof -
  have old: "sl_last_used t \<le> saturating_inc tick" "sl_touched t \<le> now'"
    "sl_last_used t = saturating_inc tick \<Longrightarrow> saturating_inc tick = - 1" if "B j = Some t" for j t
  proof -
    have t: "sl_last_used t \<le> tick" "sl_touched t \<le> now" using that assms(2) unfolding slots_ok_def by blast+
    show "sl_last_used t \<le> saturating_inc tick" using t(1) saturating_inc_ge order_trans by blast
    show "sl_touched t \<le> now'" using t(2) assms(3) by simp
    show "saturating_inc tick = - 1" if "sl_last_used t = saturating_inc tick"
      using saturating_inc_fixed [of tick] t(1) that by simp
  qed
  show ?thesis
    unfolding order_ok_def
  proof (intro allI impI)
    fix k j u t assume a: "(B(i \<mapsto> s)) k = Some u" "(B(i \<mapsto> s)) j = Some t"
    show "(sl_last_used u < sl_last_used t \<longrightarrow> sl_touched u \<le> sl_touched t) \<and>
      (k \<noteq> j \<longrightarrow> sl_last_used u = sl_last_used t \<longrightarrow> sl_last_used u = - 1)"
    proof (cases "k = i \<or> j = i")
      case True
      then show ?thesis using a old assms(4,5) by (auto split: if_splits simp: not_less dest: leD)
    next
      case False
      then show ?thesis using a assms(1) unfolding order_ok_def by auto
    qed
  qed
qed

subsection \<open>Updates of the state\<close>

lemmas alist_simps = update_conv' delete_conv' distinct_update distinct_delete

lemma coreD:
  assumes "core now a"
  shows "pool_ok (fa_config a)" "maps_ok (bd a) (bi a)" "fa_by_age a = ages (bi a)"
    "slots_ok (fa_config a) (fa_tick a) now (bi a)" "order_ok (bi a)"
    "distinct (map fst (fa_by_domain a))" "distinct (map fst (fa_by_index a))"
  using assms by (simp_all add: core_def)

lemma core_bind:
  assumes c: "core now a" and "now \<le> now'" "host_index (fa_config a) i" "key \<noteq> []" "bd a key = None" "bi a i = None"
  shows "core now' ((insert_slot now' i key a)\<lparr>fa_by_domain := AList.update key i (fa_by_domain a)\<rparr>)"
  using coreD [OF c] assms(2-)
    maps_ok_bind [OF coreD(2) [OF c] assms(5,6)]
    slots_ok_upd [OF coreD(4) [OF c] saturating_inc_ge assms(2,3)]
    order_ok_upd [OF coreD(5,4) [OF c] assms(2)]
  by (simp add: core_def insert_slot_def Let_def alist_simps ages_bind)

lemma core_touch:
  assumes c: "core now a" and "now \<le> now'"
  shows "core now' (touch now' i a)"
proof (cases "bi a i")
  case None
  then show ?thesis
    using coreD [OF c] slots_ok_mono [OF coreD(4) [OF c] saturating_inc_ge assms(2)] by (simp add: core_def touch_def Let_def)
next
  case (Some s)
  have "host_index (fa_config a) i" "sl_domain s \<noteq> []" using coreD(4) [OF c] Some unfolding slots_ok_def by blast+
  then show ?thesis
    using coreD [OF c] Some
      maps_ok_restamp [OF coreD(2) [OF c] Some]
      slots_ok_upd [OF coreD(4) [OF c] saturating_inc_ge assms(2)]
      order_ok_upd [OF coreD(5,4) [OF c] assms(2)]
    by (simp add: core_def touch_def Let_def alist_simps ages_restamp)
qed

text \<open>What \<open>release\<close> and recycling do to the maps.\<close>

definition unbind :: "u32 \<Rightarrow> slot \<Rightarrow> fake_ip_allocator \<Rightarrow> fake_ip_allocator" where
  "unbind i s a = a\<lparr>fa_by_domain := AList.delete (sl_domain s) (fa_by_domain a),
     fa_by_index := AList.delete i (fa_by_index a), fa_by_age := fa_by_age a - {(sl_last_used s, i)}\<rparr>"

lemma core_unbind:
  assumes c: "core now a" and "bi a i = Some s"
  shows "core now (unbind i s a)"
  using coreD [OF c] assms(2) maps_ok_unbind [OF coreD(2) [OF c] assms(2)]
    slots_ok_unbind [OF coreD(4) [OF c]] order_ok_unbind [OF coreD(5) [OF c]]
  by (simp add: core_def unbind_def alist_simps ages_unbind)

lemma core_frame:
  assumes "core now a" "fa_config a' = fa_config a" "fa_by_domain a' = fa_by_domain a"
    "fa_by_index a' = fa_by_index a" "fa_by_age a' = fa_by_age a" "fa_tick a' = fa_tick a" "now \<le> now'"
  shows "core now' a'"
  using assms slots_ok_mono [of "fa_config a" "fa_tick a" now "bi a" "fa_tick a" now'] by (simp add: core_def)

lemma supply_frame:
  assumes "supply_ok H a" "fa_config a' = fa_config a" "fa_cursor a' = fa_cursor a" "fa_freed a' = fa_freed a"
    "\<And>i. bi a' i = None \<longleftrightarrow> bi a i = None"
  shows "supply_ok H a'"
  using assms by (simp add: supply_ok_def)

lemma touch_supply: "supply_ok {} a \<Longrightarrow> supply_ok {} (touch now i a)"
  by (erule supply_frame) (auto simp: touch_def Let_def update_conv' split: option.splits)

lemma release_unbind:
  assumes "core now a" "bd a (normalize_hostname d) = Some i" "bi a i = Some s"
  shows "release d a = (True, notify (Released i) ((unbind i s a)\<lparr>fa_freed := fa_freed a @ [i]\<rparr>))"
proof -
  have "sl_domain s = normalize_hostname d" using maps_okD [OF coreD(2) [OF assms(1)]] assms(2,3) by auto
  then show ?thesis using assms(2,3) by (simp add: release_def Let_def unbind_def)
qed

lemma bound_slot: "core now a \<Longrightarrow> bd a d = Some i \<Longrightarrow> \<exists>s. bi a i = Some s \<and> sl_domain s = d"
  using maps_okD coreD(2) by blast

subsection \<open>The supply of indices\<close>

lemma supplyD:
  assumes "supply_ok H a"
  shows "2 \<le> unat (fa_cursor a)" "unat (fa_cursor a) \<le> unat (last_host_index (fa_config a)) + 1" "distinct (fa_freed a)"
    "i \<in> set (fa_freed a) \<longleftrightarrow> 2 \<le> unat i \<and> i < fa_cursor a \<and> bi a i = None \<and> i \<notin> H"
    "bi a i \<noteq> None \<Longrightarrow> i < fa_cursor a" "i \<in> H \<Longrightarrow> 2 \<le> unat i \<and> i < fa_cursor a \<and> bi a i = None"
  using assms by (auto simp: supply_ok_def)

lemma supply_host:
  assumes "supply_ok H a" "2 \<le> unat i" "i < fa_cursor a"
  shows "host_index (fa_config a) i"
  using assms supplyD(2) [OF assms(1)] by (simp add: host_index_unat word_less_nat_alt)

lemma supply_take_free:
  assumes "supply_ok {} a" "fa_freed a \<noteq> []"
  shows "supply_ok {last (fa_freed a)} (a\<lparr>fa_freed := butlast (fa_freed a)\<rparr>)"
proof -
  obtain xs x where f: "fa_freed a = xs @ [x]" using assms(2) by (metis append_butlast_last_id)
  have "distinct (xs @ [x])" using supplyD(3) [OF assms(1)] f by simp
  moreover have "j \<in> set (xs @ [x]) \<longleftrightarrow> 2 \<le> unat j \<and> j < fa_cursor a \<and> bi a j = None" for j
    using supplyD(4) [OF assms(1), of j] f by simp
  ultimately show ?thesis using assms(1) f by (auto simp: supply_ok_def)
qed

lemma cursor_succ:
  assumes "unat (fa_cursor a) \<le> unat (last_host_index (fa_config a))" "pool_ok (fa_config a)"
  shows "unat (saturating_inc (fa_cursor a)) = unat (fa_cursor a) + 1"
proof -
  have "unat (fa_cursor a) + 2 \<le> 2 ^ 32"
    using assms last_host_bounds(2) [OF assms(2)] power_increasing [of "32 - v4_prefix_len (fa_config a)" 32 "2::nat"] by simp
  then have "unat (fa_cursor a) < 2 ^ 32 - 1" by simp
  then have "fa_cursor a \<noteq> - 1" using unat_max_u32 by auto
  then show ?thesis by (simp add: saturating_inc_def unat_succ)
qed

lemma supply_take_cursor:
  assumes "supply_ok {} a" "fa_freed a = []" "fa_cursor a \<le> last_host_index (fa_config a)" "pool_ok (fa_config a)"
  shows "supply_ok {fa_cursor a} (a\<lparr>fa_cursor := saturating_inc (fa_cursor a)\<rparr>)"
proof -
  have le: "unat (fa_cursor a) \<le> unat (last_host_index (fa_config a))" using assms(3) by (simp add: word_le_nat_alt)
  have lt: "j < saturating_inc (fa_cursor a) \<longleftrightarrow> j < fa_cursor a \<or> j = fa_cursor a" for j
    using cursor_succ [OF le assms(4)] by (auto simp: word_less_nat_alt less_Suc_eq word_unat_eq_iff)
  have "bi a (fa_cursor a) = None" using supplyD(5) [OF assms(1), of "fa_cursor a"] by (cases "bi a (fa_cursor a)") auto
  moreover have "\<not> (2 \<le> unat j \<and> j < fa_cursor a \<and> bi a j = None)" for j
    using supplyD(4) [OF assms(1), of j] assms(2) by simp
  ultimately show ?thesis
    using supplyD(1) [OF assms(1)] supplyD(5) [OF assms(1)] le cursor_succ [OF le assms(4)] assms(2)
    unfolding supply_ok_def by (auto simp: lt)
qed

lemma supply_unbind:
  assumes "supply_ok {} a" "bi a i = Some s" "core now a"
  shows "supply_ok {i} (unbind i s a)"
proof -
  have "2 \<le> unat i" using coreD(4) [OF assms(3)] assms(2) by (auto simp: slots_ok_def host_index_unat)
  moreover have "i < fa_cursor a" using supplyD(5) [OF assms(1)] assms(2) by simp
  moreover have "i \<notin> set (fa_freed a)" using supplyD(4) [OF assms(1)] assms(2) by simp
  ultimately show ?thesis
    using assms(1) unfolding supply_ok_def by (auto simp: unbind_def delete_conv')
qed

lemma supply_bind:
  assumes "supply_ok {i} a"
  shows "supply_ok {} ((insert_slot now i key a)\<lparr>fa_by_domain := ds\<rparr>)"
  using assms supplyD(6) [OF assms, of i] unfolding supply_ok_def by (auto simp: insert_slot_def Let_def update_conv')

lemma supply_give_back:
  assumes "supply_ok {i} a"
  shows "supply_ok {} (a\<lparr>fa_freed := fa_freed a @ [i]\<rparr>)"
  using assms supplyD(4,6) [OF assms, of i] unfolding supply_ok_def by auto

lemma finite_ages: "finite (ages (map_of al))"
proof -
  have "ages (map_of al) \<subseteq> (\<lambda>(i, s). (sl_last_used s, i)) ` set al"
    unfolding ages_def by (force dest: map_of_SomeD)
  then show ?thesis by (rule finite_subset) simp
qed

lemma oldest_slot:
  assumes "core now a" "fa_by_age a \<noteq> {}" "Min (fa_by_age a) = (u, i)"
  obtains s where "bi a i = Some s" "sl_last_used s = u" "\<And>j t. bi a j = Some t \<Longrightarrow> (u, i) \<le> (sl_last_used t, j)"
proof -
  have f: "finite (fa_by_age a)" using coreD(3) [OF assms(1)] finite_ages by metis
  have "(u, i) \<in> ages (bi a)" using Min_in [OF f assms(2)] assms(3) coreD(3) [OF assms(1)] by simp
  then obtain s where s: "bi a i = Some s" "sl_last_used s = u" by (auto simp: in_ages)
  have "(u, i) \<le> (sl_last_used t, j)" if "bi a j = Some t" for j t
  proof -
    have "(sl_last_used t, j) \<in> fa_by_age a" using that coreD(3) [OF assms(1)] by (auto simp: in_ages)
    then show ?thesis using Min_le [OF f] assms(3) by metis
  qed
  then show ?thesis using that s by blast
qed

subsection \<open>Taking an index\<close>

text \<open>What taking an index did: a free one, a fresh one, or the oldest binding, idle long enough.\<close>

definition recycled :: "nat \<Rightarrow> fake_ip_allocator \<Rightarrow> u32 \<Rightarrow> slot \<Rightarrow> bool" where
  "recycled now a i s \<longleftrightarrow> bi a i = Some s \<and> fa_min_recycle_idle a \<le> now - sl_touched s \<and>
     (\<forall>j t. bi a j = Some t \<longrightarrow> (sl_last_used s, i) \<le> (sl_last_used t, j)) \<and>
     fa_freed a = [] \<and> last_host_index (fa_config a) < fa_cursor a"

lemma capacity_pos: "pool_ok c \<Longrightarrow> 0 < capacity c"
  using unat_capacity [of c] last_host_bounds(1) [of c] by (simp add: word_less_nat_alt)

lemma take_index_cases:
  assumes inv: "alloc_inv now a" and now: "now \<le> now'"
  shows "(fa_freed a \<noteq> [] \<and> take_index now' a = (Inr (last (fa_freed a)), a\<lparr>fa_freed := butlast (fa_freed a)\<rparr>)) \<or>
    (fa_freed a = [] \<and> fa_cursor a \<le> last_host_index (fa_config a) \<and>
      take_index now' a = (Inr (fa_cursor a), a\<lparr>fa_cursor := saturating_inc (fa_cursor a)\<rparr>)) \<or>
    (\<exists>i s. recycled now' a i s \<and> take_index now' a = (Inr i, unbind i s a)) \<or>
    (fa_freed a = [] \<and> last_host_index (fa_config a) < fa_cursor a \<and> take_index now' a = (Inl PoolExhausted, a) \<and>
      (fa_by_age a = {} \<or> (\<exists>i s. bi a i = Some s \<and> now' - sl_touched s < fa_min_recycle_idle a \<and>
        (\<forall>j t. bi a j = Some t \<longrightarrow> (sl_last_used s, i) \<le> (sl_last_used t, j)))))"
proof -
  have c: "core now a" using inv by (simp add: alloc_inv_def)
  have cap: "0 < capacity (fa_config a)" using capacity_pos coreD(1) [OF c] by blast
  show ?thesis
  proof (cases "fa_freed a = [] \<and> last_host_index (fa_config a) < fa_cursor a \<and> fa_by_age a \<noteq> {}")
    case True
    obtain u i where m: "Min (fa_by_age a) = (u, i)" by fastforce
    from c True m obtain s where s: "bi a i = Some s" "sl_last_used s = u"
      "\<And>j t. bi a j = Some t \<Longrightarrow> (u, i) \<le> (sl_last_used t, j)"
      using oldest_slot [of now a u i] by metis
    have "take_index now' a = (if now' - sl_touched s < fa_min_recycle_idle a then (Inl PoolExhausted, a) else (Inr i, unbind i s a))"
      using True leD [of "fa_cursor a" "last_host_index (fa_config a)"] m s(1,2)
      by (auto simp: take_index_def unbind_def)
    then show ?thesis using True s by (auto simp: recycled_def)
  next
    case False
    then show ?thesis using cap by (auto simp: take_index_def not_less)
  qed
qed

lemma take_index_Inr:
  assumes inv: "alloc_inv now a" and now: "now \<le> now'" and t: "take_index now' a = (Inr i, a1)"
  shows "core now' a1 \<and> supply_ok {i} a1 \<and> fa_config a1 = fa_config a \<and> fa_sink a1 = fa_sink a \<and>
    (\<forall>d. bd a d = None \<longrightarrow> bd a1 d = None) \<and> (\<forall>j. j \<noteq> i \<longrightarrow> bi a1 j = bi a j) \<and>
    (\<forall>d j. bd a d = Some j \<longrightarrow> bd a1 d = Some j \<or> j = i \<and> (\<exists>s. recycled now' a i s))"
proof -
  have c: "core now a" and su: "supply_ok {} a" using inv by (simp_all add: alloc_inv_def)
  have f: "core now' b" if "fa_config b = fa_config a" "fa_by_domain b = fa_by_domain a" "fa_by_index b = fa_by_index a"
    "fa_by_age b = fa_by_age a" "fa_tick b = fa_tick a" for b by (rule core_frame [OF c that now])
  consider "fa_freed a \<noteq> []" "i = last (fa_freed a)" "a1 = a\<lparr>fa_freed := butlast (fa_freed a)\<rparr>"
    | "fa_freed a = []" "fa_cursor a \<le> last_host_index (fa_config a)" "i = fa_cursor a"
      "a1 = a\<lparr>fa_cursor := saturating_inc (fa_cursor a)\<rparr>"
    | s where "recycled now' a i s" "a1 = unbind i s a"
    using take_index_cases [OF inv now] t by auto
  then show ?thesis
  proof cases
    case 1
    then show ?thesis using f [of a1] supply_take_free [OF su] by simp
  next
    case 2
    then show ?thesis using f [of a1] supply_take_cursor [OF su] coreD(1) [OF c] by simp
  next
    case (3 s)
    have s: "bi a i = Some s" using 3(1) by (simp add: recycled_def)
    have "core now' (unbind i s a)" by (rule core_unbind [OF f s]) simp_all
    moreover have "bd a (sl_domain s) = Some i" using maps_okD [OF coreD(2) [OF c]] s by blast
    ultimately show ?thesis
      using 3 supply_unbind [OF su s c] by (auto simp: unbind_def delete_conv')
  qed
qed

lemma allocate_inv:
  assumes inv: "alloc_inv now a" and now: "now \<le> now'"
  shows "alloc_inv now' (snd (allocate now' d a))"
proof -
  let ?k = "normalize_hostname d"
  have c: "core now a" and su: "supply_ok {} a" using inv by (simp_all add: alloc_inv_def)
  have same: "alloc_inv now' a" using core_frame [OF c refl refl refl refl refl now] su by (simp add: alloc_inv_def)
  show ?thesis
  proof (cases "?k = []")
    case True
    then show ?thesis using same by (simp add: allocate_def)
  next
    case k: False
    show ?thesis
    proof (cases "bd a ?k")
      case (Some i)
      then show ?thesis using k core_touch [OF c now, of i] touch_supply [OF su] by (simp add: allocate_def alloc_inv_def)
    next
      case None
      show ?thesis
      proof (cases "take_index now' a")
        case (Pair r a1)
        show ?thesis
        proof (cases r)
          case (Inl e)
          then have "a1 = a" using take_index_cases [OF inv now] Pair by auto
          then show ?thesis using k None Pair Inl same by (simp add: allocate_def)
        next
          case (Inr i)
          note t = take_index_Inr [OF inv now Pair [unfolded Inr]]
          let ?a3 = "(insert_slot now' i ?k a1)\<lparr>fa_by_domain := AList.update ?k i (fa_by_domain a1)\<rparr>"
          have i: "host_index (fa_config a1) i" "bi a1 i = None"
            using t supplyD(6) [of "{i}" a1 i] supply_host [of "{i}" a1 i] by auto
          have "core now' ?a3" using t k None i by (intro core_bind) auto
          moreover have "supply_ok {} ?a3" using t by (intro supply_bind) auto
          moreover have "snd (allocate now' d a) = notify (Bound ?k i) ?a3"
            using k None Pair Inr by (simp add: allocate_def Let_def insert_slot_def)
          ultimately show ?thesis
            by (auto simp: alloc_inv_def notify_def intro: core_frame supply_frame)
        qed
      qed
    qed
  qed
qed

subsection \<open>The other operations\<close>

lemma inv_wait: "alloc_inv now a \<Longrightarrow> now \<le> now' \<Longrightarrow> alloc_inv now' a"
  unfolding alloc_inv_def using core_frame [of now a a now'] by simp

lemma touch_inv: "alloc_inv now a \<Longrightarrow> alloc_inv now (touch now i a)"
  unfolding alloc_inv_def using core_touch [of now a now i] touch_supply [of a now i] by simp

lemma domain_for_ip_inv: "alloc_inv now a \<Longrightarrow> alloc_inv now (snd (domain_for_ip now addr a))"
  by (auto simp: domain_for_ip_def Let_def intro: touch_inv split: option.split)

lemma touch_address_inv: "alloc_inv now a \<Longrightarrow> alloc_inv now (snd (touch_address now addr a))"
  by (auto simp: touch_address_def intro: touch_inv split: option.split)

lemma release_inv:
  assumes "alloc_inv now a"
  shows "alloc_inv now (snd (release d a))"
proof (cases "bd a (normalize_hostname d)")
  case None
  then show ?thesis using assms by (simp add: release_def)
next
  case (Some i)
  have c: "core now a" and su: "supply_ok {} a" using assms by (simp_all add: alloc_inv_def)
  obtain s where s: "bi a i = Some s" using bound_slot [OF c Some] by blast
  let ?u = "(unbind i s a)\<lparr>fa_freed := fa_freed a @ [i]\<rparr>"
  have "core now ?u" by (rule core_frame [OF core_unbind [OF c s]]) simp_all
  moreover have "supply_ok {} ?u" using supply_give_back [OF supply_unbind [OF su s c]] by (simp add: unbind_def)
  ultimately show ?thesis
    using release_unbind [OF c Some s] by (auto simp: alloc_inv_def notify_def intro: core_frame supply_frame)
qed

lemma release_if_untouched_inv: "alloc_inv now a \<Longrightarrow> alloc_inv now (snd (release_if_untouched d order a))"
  by (simp add: release_if_untouched_def Let_def release_inv)

lemma empty_core: "pool_ok (fa_config a) \<Longrightarrow> fa_by_domain a = [] \<Longrightarrow> fa_by_index a = [] \<Longrightarrow> fa_by_age a = {} \<Longrightarrow> core now a"
  by (simp add: core_def maps_ok_def ages_def slots_ok_def order_ok_def)

lemma empty_supply:
  assumes "fa_by_index a = []" "fa_freed a = []" "fa_cursor a = FAKE_IP_FIRST_HOST_INDEX" "pool_ok (fa_config a)"
  shows "supply_ok {} a"
  using assms last_host_bounds(1) [OF assms(4)]
  by (auto simp: supply_ok_def FAKE_IP_FIRST_HOST_INDEX_def word_less_nat_alt)

lemma new_inv: "pool_ok c \<Longrightarrow> alloc_inv now (fa_new c)"
  unfolding alloc_inv_def by (intro conjI empty_core empty_supply) (simp_all add: fa_new_def)

lemma clear_inv: "alloc_inv now a \<Longrightarrow> alloc_inv now (fa_clear a)"
  unfolding alloc_inv_def by (intro conjI empty_core empty_supply) (auto simp: fa_clear_def dest: coreD(1))

lemma restore_one_frame [simp]:
  "fa_config (restore_one now b a) = fa_config a" "fa_cursor (restore_one now b a) = fa_cursor a"
  by (simp_all add: restore_one_def Let_def insert_slot_def)

lemma restore_one_core: "core now a \<Longrightarrow> core now (restore_one now b a)"
  unfolding restore_one_def Let_def by (auto intro!: core_bind simp: host_index_def not_less)

lemma restore_fold:
  "core now a \<Longrightarrow> core now (fold (restore_one now) bs a) \<and> fa_config (fold (restore_one now) bs a) = fa_config a \<and>
     fa_cursor (fold (restore_one now) bs a) = fa_cursor a \<and>
     (fold (restore_one now) bs a = a \<or> fa_by_index (fold (restore_one now) bs a) \<noteq> [])"
proof (induction bs arbitrary: a)
  case (Cons b bs)
  have "restore_one now b a = a \<or> fa_by_index (restore_one now b a) \<noteq> []"
    by (simp add: restore_one_def Let_def insert_slot_def)
  moreover have "fa_by_index x \<noteq> [] \<Longrightarrow> fa_by_index (fold (restore_one now) bs x) \<noteq> []" for x
  proof (induction bs arbitrary: x)
    case (Cons c bs)
    have "fa_by_index (restore_one now c x) \<noteq> []" using Cons.prems by (simp add: restore_one_def Let_def insert_slot_def)
    then show ?case using Cons.IH by simp
  qed simp
  ultimately show ?case using Cons.IH [OF restore_one_core [OF Cons.prems, of b]] by (metis fold_simps(2) restore_one_frame)
qed simp

lemma set_gaps: "i \<in> set (gaps a cur) \<longleftrightarrow> 2 \<le> unat i \<and> i < cur \<and> bi a i = None"
proof -
  have "i \<in> word_of_nat ` {2..<unat cur} \<longleftrightarrow> 2 \<le> unat i \<and> unat i < unat cur"
  proof
    assume "i \<in> word_of_nat ` {2..<unat cur}"
    then obtain n where n: "i = word_of_nat n" "2 \<le> n" "n < unat cur" by auto
    then have "unat i = n" using unat_word_less [of cur] by (simp add: unat_of_nat)
    then show "2 \<le> unat i \<and> unat i < unat cur" using n by simp
  qed (auto intro!: image_eqI [of _ _ "unat i"])
  then show ?thesis by (auto simp: gaps_def FAKE_IP_FIRST_HOST_INDEX_def word_less_nat_alt)
qed

lemma distinct_gaps: "distinct (gaps a cur)"
proof -
  have "inj_on (word_of_nat :: nat \<Rightarrow> u32) {2..<unat cur}"
  proof (rule inj_onI)
    fix m n assume "m \<in> {2..<unat cur}" "n \<in> {2..<unat cur}" "(word_of_nat m :: u32) = word_of_nat n"
    then have "unat (word_of_nat m :: u32) = unat (word_of_nat n :: u32)" "m < 2 ^ 32" "n < 2 ^ 32"
      using unat_word_less [of cur] by auto
    then show "m = n" by (simp add: unat_of_nat)
  qed
  then show ?thesis by (simp add: gaps_def distinct_map FAKE_IP_FIRST_HOST_INDEX_def)
qed

lemma fold_max_keys: "fold max ks k = Max (set (k # ks))" for k :: u32
  by (metis Max.set_eq_fold)

lemma restore_inv:
  assumes "alloc_inv now a"
  shows "alloc_inv now (restore now bs a)"
proof -
  let ?b = "fold (restore_one now) bs a"
  have c: "core now a" and su: "supply_ok {} a" using assms by (simp_all add: alloc_inv_def)
  note r = restore_fold [OF c, of bs]
  show ?thesis
  proof (cases "map fst (fa_by_index ?b)")
    case Nil
    then show ?thesis using r assms by (simp add: restore_def)
  next
    case (Cons k ks)
    let ?m = "Max (set (k # ks))" and ?l = "last_host_index (fa_config a)"
    have dom: "j \<in> set (k # ks) \<longleftrightarrow> bi ?b j \<noteq> None" for j
      using Cons by (metis domIff dom_map_of_conv_image_fst set_map)
    have m: "?m \<in> set (k # ks)" by (rule Max_in) simp_all
    then have hm: "host_index (fa_config a) ?m" using dom [of ?m] r coreD(4) [of now ?b] by (auto simp: slots_ok_def)
    have le: "j \<le> ?m" if "bi ?b j \<noteq> None" for j using that dom [of j] by (intro Max_ge) auto
    have "pool_ok (fa_config a)" using coreD(1) [OF c] .
    from hm last_host_bounds(2) [OF this] have "unat ?m + 2 \<le> 2 ^ (32 - v4_prefix_len (fa_config a))"
      by (simp add: host_index_unat)
    also have "(2::nat) ^ (32 - v4_prefix_len (fa_config a)) \<le> 2 ^ 32" by (intro power_increasing) simp_all
    finally have "?m \<noteq> - 1" using unat_max_u32 by auto
    then have sm: "unat (saturating_inc ?m) = unat ?m + 1" by (simp add: saturating_inc_def unat_succ)
    define cur where "cur = max (saturating_inc ?m) (fa_cursor a)"
    have cb: "2 \<le> unat cur" "unat cur \<le> unat ?l + 1" "unat ?m < unat cur"
      using supplyD(1,2) [OF su] sm hm by (auto simp: cur_def max_def host_index_unat word_le_nat_alt)
    have lt: "j < cur" if "bi ?b j \<noteq> None" for j using le [OF that] cb(3) by (simp add: word_le_nat_alt word_less_nat_alt)
    have "restore now bs a = ?b\<lparr>fa_cursor := cur, fa_freed := gaps ?b cur\<rparr>"
      unfolding restore_def Let_def Cons list.case fold_max_keys cur_def using r by simp
    moreover have "supply_ok {} (?b\<lparr>fa_cursor := cur, fa_freed := gaps ?b cur\<rparr>)"
      using cb(1,2) lt r distinct_gaps set_gaps by (simp add: supply_ok_def)
    moreover have "core now (?b\<lparr>fa_cursor := cur, fa_freed := gaps ?b cur\<rparr>)"
      using r by (auto intro: core_frame)
    ultimately show ?thesis by (simp add: alloc_inv_def)
  qed
qed

section \<open>Histories\<close>

text \<open>The states an allocator of one configuration can be in, and the time of its last operation.\<close>

inductive fa_run :: "fake_ip_pool_config \<Rightarrow> nat \<Rightarrow> fake_ip_allocator \<Rightarrow> bool" for c where
  start: "fa_run c now (fa_new c)"
| wait: "fa_run c now a \<Longrightarrow> now \<le> now' \<Longrightarrow> fa_run c now' a"
| allocate: "fa_run c now a \<Longrightarrow> fa_run c now (snd (allocate now d a))"
| domain_for_ip: "fa_run c now a \<Longrightarrow> fa_run c now (snd (domain_for_ip now addr a))"
| touch_address: "fa_run c now a \<Longrightarrow> fa_run c now (snd (touch_address now addr a))"
| release: "fa_run c now a \<Longrightarrow> fa_run c now (snd (release d a))"
| release_if_untouched: "fa_run c now a \<Longrightarrow> fa_run c now (snd (release_if_untouched d order a))"
| restore: "fa_run c now a \<Longrightarrow> fa_run c now (restore now bs a)"
| clear: "fa_run c now a \<Longrightarrow> fa_run c now (fa_clear a)"
| sink: "fa_run c now a \<Longrightarrow> fa_run c now (set_change_sink a)"
| idle: "fa_run c now a \<Longrightarrow> fa_run c now (with_min_recycle_idle a i)"

lemma inv_frame:
  assumes "alloc_inv now a" "fa_config a' = fa_config a" "fa_by_domain a' = fa_by_domain a"
    "fa_by_index a' = fa_by_index a" "fa_by_age a' = fa_by_age a" "fa_tick a' = fa_tick a"
    "fa_cursor a' = fa_cursor a" "fa_freed a' = fa_freed a"
  shows "alloc_inv now a'"
  using assms core_frame [of now a a' now] supply_frame [of "{}" a a'] by (simp add: alloc_inv_def)

lemma run_inv:
  assumes "fa_run c now a" "pool_ok c"
  shows "alloc_inv now a"
  using assms
proof (induction rule: fa_run.induct)
  case (start now)
  then show ?case by (rule new_inv)
next
  case (wait now a now')
  then show ?case using inv_wait by blast
next
  case (allocate now a d)
  then show ?case using allocate_inv [of now a now d] by simp
next
  case (sink now a)
  then show ?case by (auto simp: set_change_sink_def intro: inv_frame)
next
  case (idle now a i)
  then show ?case by (auto simp: with_min_recycle_idle_def intro: inv_frame)
qed (simp_all add: domain_for_ip_inv touch_address_inv release_inv release_if_untouched_inv restore_inv clear_inv)

lemma config_touch [simp]: "fa_config (touch now i a) = fa_config a"
  by (simp add: touch_def Let_def split: option.split)

lemma config_take_index: "fa_config (snd (take_index now a)) = fa_config a"
  by (simp add: take_index_def split: option.split prod.split)

lemma config_allocate: "fa_config (snd (allocate now d a)) = fa_config a"
  using config_take_index [of now a]
  by (auto simp: allocate_def Let_def insert_slot_def notify_def split: option.split prod.split sum.split)

lemma config_release: "fa_config (snd (release d a)) = fa_config a"
  by (simp add: release_def Let_def notify_def split: option.split)

lemma config_fold: "fa_config (fold (restore_one now) bs a) = fa_config a"
  by (induction bs arbitrary: a) simp_all

lemma config_restore: "fa_config (restore now bs a) = fa_config a"
  by (simp add: restore_def Let_def config_fold split: list.split)

lemma config_domain_for_ip: "fa_config (snd (domain_for_ip now addr a)) = fa_config a"
  by (simp add: domain_for_ip_def Let_def split: option.split)

lemma config_touch_address: "fa_config (snd (touch_address now addr a)) = fa_config a"
  by (simp add: touch_address_def split: option.split)

lemma config_release_if_untouched: "fa_config (snd (release_if_untouched d order a)) = fa_config a"
  unfolding release_if_untouched_def Let_def by (simp add: config_release)

lemma run_config: "fa_run c now a \<Longrightarrow> fa_config a = c"
  by (induction rule: fa_run.induct)
    (simp_all add: config_allocate config_release config_restore config_domain_for_ip config_touch_address
      config_release_if_untouched fa_new_def fa_clear_def set_change_sink_def with_min_recycle_idle_def)

section \<open>What clients rely on\<close>

lemma binding_leads_back:
  assumes "pool_ok c" "fa_run c now a" "binding_for_domain a d = Some b"
  shows "peek_domain_for_ip a (V4 (fb_v4 b)) = Some (normalize_hostname d) \<and> pool_holds_host c (V4 (fb_v4 b)) \<and>
    (\<forall>x. fb_v6 b = Some x \<longrightarrow> peek_domain_for_ip a (V6 x) = Some (normalize_hostname d) \<and> pool_holds_host c (V6 x)) \<and>
    (\<forall>e b'. binding_for_domain a e = Some b' \<longrightarrow> fb_index b' = fb_index b \<longrightarrow> normalize_hostname e = normalize_hostname d)"
proof -
  have inv: "core now a" using run_inv [OF assms(2,1)] by (simp add: alloc_inv_def)
  have cfg: "fa_config a = c" by (rule run_config [OF assms(2)])
  obtain i where i: "bd a (normalize_hostname d) = Some i" "b = binding_at a i"
    using assms(3) by (auto simp: binding_for_domain_def)
  obtain s where s: "bi a i = Some s" "sl_domain s = normalize_hostname d" using bound_slot [OF inv i(1)] by blast
  have "host_index c i" using coreD(4) [OF inv] s(1) cfg by (auto simp: slots_ok_def)
  note r = host_index_addresses [OF assms(1) this]
  have p: "peek_domain_for_ip a x = Some (normalize_hostname d)" if "index_of c x = Some i" for x
    using that s cfg by (simp add: peek_domain_for_ip_def)
  have b: "fb_v4 b = v4_at c i" "fb_v6 b = v6_at c i" "fb_index b = i" using i(2) cfg by (simp_all add: binding_at_def)
  have "normalize_hostname e = normalize_hostname d" if "binding_for_domain a e = Some b'" "fb_index b' = i" for e b'
  proof -
    have "bd a (normalize_hostname e) = Some i" using that by (auto simp: binding_for_domain_def binding_at_def)
    from bound_slot [OF inv this] show ?thesis using s by auto
  qed
  then show ?thesis unfolding b using r p by blast
qed

text \<open>
  C5. In every history a fake address stands for one host name. When a name holds a binding, both of
  its addresses are hosts of the pool and lead back to that name, and two names never hold the same
  index, whatever mixture of allocations, recycling, releases, restores and clears came before.
\<close>

theorem addresses_lead_back:
  assumes "pool_ok c" "fa_run c now a" "binding_for_domain a d = Some b"
  shows "peek_domain_for_ip a (V4 (fb_v4 b)) = Some (normalize_hostname d) \<and> pool_holds_host c (V4 (fb_v4 b)) \<and>
    (\<forall>x. fb_v6 b = Some x \<longrightarrow> peek_domain_for_ip a (V6 x) = Some (normalize_hostname d) \<and> pool_holds_host c (V6 x)) \<and>
    (\<forall>e b'. binding_for_domain a e = Some b' \<longrightarrow> fb_index b' = fb_index b \<longrightarrow> normalize_hostname e = normalize_hostname d)"
  using assms by (rule binding_leads_back)

lemma card_hosts: "pool_ok c \<Longrightarrow> card {i. host_index c i} = unat (capacity c)"
proof -
  assume ok: "pool_ok c"
  have "unat ` {i. host_index c i} = {2..unat (last_host_index c)}"
  proof (intro equalityI subsetI)
    fix n assume n: "n \<in> {2..unat (last_host_index c)}"
    then have "unat (word_of_nat n :: u32) = n" using unat_word_less [of "last_host_index c"] by (simp add: unat_of_nat)
    then show "n \<in> unat ` {i. host_index c i}" using n by (intro image_eqI [of _ _ "word_of_nat n"]) (auto simp: host_index_unat)
  qed (auto simp: host_index_unat)
  moreover have "inj_on unat {i. host_index c i}" by (auto intro!: inj_onI simp: unsigned_word_eqI)
  ultimately have "card {i. host_index c i} = card {2..unat (last_host_index c)}" by (metis card_image)
  then show ?thesis using unat_capacity [OF ok] by simp
qed

lemma len_card:
  assumes "core now a"
  shows "fa_len a = card (dom (bi a))"
proof -
  note m = maps_okD [OF coreD(2) [OF assms]]
  have "bij_betw (\<lambda>d. the (bd a d)) (dom (bd a)) (dom (bi a))"
    unfolding bij_betw_def
  proof
    show "inj_on (\<lambda>d. the (bd a d)) (dom (bd a))" 
    proof (rule inj_onI)
      fix d e assume "d \<in> dom (bd a)" "e \<in> dom (bd a)" "the (bd a d) = the (bd a e)"
      then obtain i where "bd a d = Some i" "bd a e = Some i" by auto
      then show "d = e" using m [of d i] m [of e i] by auto
    qed
    show "(\<lambda>d. the (bd a d)) ` dom (bd a) = dom (bi a)"
    proof (intro equalityI subsetI)
      fix i assume "i \<in> dom (bi a)"
      then obtain s where "bi a i = Some s" by blast
      then have "bd a (sl_domain s) = Some i" using m by blast
      then show "i \<in> (\<lambda>d. the (bd a d)) ` dom (bd a)" by (intro image_eqI [of _ _ "sl_domain s"]) auto
    next
      fix i assume "i \<in> (\<lambda>d. the (bd a d)) ` dom (bd a)"
      then obtain d where "bd a d = Some i" by auto
      then show "i \<in> dom (bi a)" using m [of d i] by auto
    qed
  qed
  then have "card (dom (bd a)) = card (dom (bi a))" by (rule bij_betw_same_card)
  moreover have "card (dom (bd a)) = length (fa_by_domain a)"
    using coreD(6) [OF assms] by (metis distinct_card dom_map_of_conv_image_fst length_map set_map)
  ultimately show ?thesis by (simp add: fa_len_def)
qed

lemma full_hosts:
  assumes "alloc_inv now a" "fa_freed a = []" "last_host_index (fa_config a) < fa_cursor a"
  shows "dom (bi a) = {i. host_index (fa_config a) i}"
proof (intro equalityI subsetI)
  fix i assume "i \<in> dom (bi a)"
  then show "i \<in> {i. host_index (fa_config a) i}"
    using assms(1) by (auto simp: alloc_inv_def slots_ok_def dest: coreD(4))
next
  fix i assume "i \<in> {i. host_index (fa_config a) i}"
  then have "2 \<le> unat i" "i < fa_cursor a" using assms(3) host_index_unat [of "fa_config a" i] by (auto simp: host_index_def)
  then show "i \<in> dom (bi a)"
    using assms(1,2) supplyD(4) [of "{}" a i] by (auto simp: alloc_inv_def)
qed

lemma oldest_recent:
  assumes c: "core now a" and "fa_tick a \<noteq> - 1" and "bi a i = Some s" "now - sl_touched s < n"
    and "\<forall>j t. bi a j = Some t \<longrightarrow> (sl_last_used s, i) \<le> (sl_last_used t, j)" and t: "bi a j = Some t"
  shows "now - sl_touched t < n"
proof -
  have "sl_last_used t \<le> fa_tick a" using coreD(4) [OF c] t unfolding slots_ok_def by blast
  then have "sl_last_used t \<noteq> - 1" using assms(2) word_order.extremum_uniqueI by metis
  moreover have o: "(sl_last_used s < sl_last_used t \<longrightarrow> sl_touched s \<le> sl_touched t) \<and>
      (i \<noteq> j \<longrightarrow> sl_last_used s = sl_last_used t \<longrightarrow> sl_last_used s = - 1)"
    using coreD(5) [OF c] t assms(3) unfolding order_ok_def by blast
  moreover have "sl_last_used s < sl_last_used t \<or> sl_last_used s = sl_last_used t"
    using assms(5) t unfolding less_eq_prod_def by fastforce
  ultimately have "sl_touched s \<le> sl_touched t" using t assms(3) by (cases "i = j") simp_all
  then show ?thesis using assms(4) by simp
qed

lemma allocate_exhausted:
  assumes "pool_ok c" "fa_run c now a" "normalize_hostname d \<noteq> []" "fst (allocate now d a) = Inl e"
  shows "e = PoolExhausted \<and> fa_len a = unat (capacity c) \<and>
    (fa_tick a \<noteq> - 1 \<longrightarrow> (\<forall>i s. bi a i = Some s \<longrightarrow> now - sl_touched s < fa_min_recycle_idle a))"
proof -
  have inv: "alloc_inv now a" by (rule run_inv [OF assms(2,1)])
  have cfg: "fa_config a = c" by (rule run_config [OF assms(2)])
  have c: "core now a" using inv by (simp add: alloc_inv_def)
  have "fst (take_index now a) = Inl e"
    using assms(3,4) by (auto simp: allocate_def Let_def split: option.splits prod.splits sum.splits)
  then have f: "e = PoolExhausted" "fa_freed a = []" "last_host_index (fa_config a) < fa_cursor a"
    and old: "fa_by_age a = {} \<or> (\<exists>i s. bi a i = Some s \<and> now - sl_touched s < fa_min_recycle_idle a \<and>
      (\<forall>j t. bi a j = Some t \<longrightarrow> (sl_last_used s, i) \<le> (sl_last_used t, j)))"
    using take_index_cases [OF inv order_refl] by auto
  have "fa_len a = unat (capacity c)"
    using len_card [OF c] full_hosts [OF inv f(2,3)] card_hosts [OF assms(1)] cfg by simp
  moreover have "now - sl_touched s < fa_min_recycle_idle a" if "fa_tick a \<noteq> - 1" "bi a i = Some s" for i s
  proof -
    have "fa_by_age a \<noteq> {}" using that(2) coreD(3) [OF c] in_ages by (metis empty_iff)
    then show ?thesis using old oldest_recent [OF c that(1) _ _ _ that(2)] by blast
  qed
  ultimately show ?thesis using f(1) by blast
qed

text \<open>
  C6. Allocation is live. A non-empty name gets an address whenever fewer names are mapped than the
  pool has hosts; when it is refused, every host index is bound and, as long as the use counter is
  not saturated, every binding was used within the recycling interval.
\<close>

theorem allocate_live:
  assumes "pool_ok c" "fa_run c now a" "normalize_hostname d \<noteq> []"
  shows "(fa_len a < unat (capacity c) \<longrightarrow> (\<exists>b. fst (allocate now d a) = Inr b)) \<and>
    (\<forall>e. fst (allocate now d a) = Inl e \<longrightarrow> e = PoolExhausted \<and> fa_len a = unat (capacity c) \<and>
      (fa_tick a \<noteq> - 1 \<longrightarrow> (\<forall>i s. bi a i = Some s \<longrightarrow> now - sl_touched s < fa_min_recycle_idle a)))"
proof -
  note err = allocate_exhausted [OF assms]
  have "\<exists>b. fst (allocate now d a) = Inr b" if "fa_len a < unat (capacity c)"
    using err that by (cases "fst (allocate now d a)") auto
  then show ?thesis using err by blast
qed

subsection \<open>Stability\<close>

lemma allocate_Inr:
  assumes inv: "alloc_inv now a" and al: "allocate now d a = (Inr b, a')"
  shows "bd a' (normalize_hostname d) = Some (fb_index b) \<and> b = binding_at a' (fb_index b) \<and>
    (\<forall>e j. bd a e = Some j \<longrightarrow> bd a' e = Some j \<or> j = fb_index b \<and> (\<exists>s. recycled now a j s))"
proof -
  let ?k = "normalize_hostname d"
  have k: "?k \<noteq> []" using al by (auto simp: allocate_def)
  show ?thesis
  proof (cases "bd a ?k")
    case (Some i)
    then have "b = binding_at a i" "a' = touch now i a" using al k by (simp_all add: allocate_def)
    then show ?thesis using Some
      by (simp add: binding_at_def touch_def Let_def split: option.split)
  next
    case None
    obtain r a1 where t: "take_index now a = (r, a1)" by fastforce
    then obtain i where r: "r = Inr i" using al k None by (cases r) (simp_all add: allocate_def)
    note ti = take_index_Inr [OF inv order_refl t [unfolded r]]
    have a': "bd a' = (bd a1)(?k \<mapsto> i)" "b = binding_at a' i"
      using al k None t r by (auto simp: allocate_def Let_def insert_slot_def notify_def binding_at_def update_conv')
    have "fb_index b = i" using a'(2) by (simp add: binding_at_def)
    moreover have "bd a' e = Some j \<or> j = i \<and> (\<exists>s. recycled now a j s)" if "bd a e = Some j" for e j
      using ti that None a'(1) by auto
    ultimately show ?thesis using a' by simp
  qed
qed

lemma allocate_leads_back:
  assumes "pool_ok c" "fa_run c now a" "allocate now d a = (Inr b, a')"
  shows "pool_holds_host c (V4 (fb_v4 b)) \<and> peek_domain_for_ip a' (V4 (fb_v4 b)) = Some (normalize_hostname d)"
proof -
  have "binding_for_domain a' d = Some b"
    using allocate_Inr [OF run_inv [OF assms(2,1)] assms(3)] by (simp add: binding_for_domain_def)
  moreover have "fa_run c now a'" using fa_run.allocate [OF assms(2), of d] assms(3) by simp
  ultimately show ?thesis using binding_leads_back [OF assms(1)] by blast
qed

text \<open>
  C7. Allocation is stable and idempotent. The binding it answers is the one the name then holds;
  every other name keeps its binding, except that the index answered may have been taken from the
  least recently used name, never from one used within the recycling interval; and asking again at
  once gives the same answer.
\<close>

theorem allocate_stable:
  assumes "pool_ok c" "fa_run c now a" "allocate now d a = (Inr b, a')"
  shows "binding_for_domain a' d = Some b \<and> fst (allocate now d a') = Inr b \<and>
    (\<forall>e b'. binding_for_domain a e = Some b' \<longrightarrow> fb_index b' \<noteq> fb_index b \<longrightarrow> binding_for_domain a' e = Some b') \<and>
    (\<forall>e i s. bd a (normalize_hostname e) = Some i \<longrightarrow> bi a i = Some s \<longrightarrow>
       now - sl_touched s < fa_min_recycle_idle a \<longrightarrow> binding_for_domain a' e = binding_for_domain a e)"
proof -
  have inv: "alloc_inv now a" by (rule run_inv [OF assms(2,1)])
  note al = allocate_Inr [OF inv assms(3)]
  have at: "binding_at a' = binding_at a" using config_allocate [of now d a] assms(3) by (auto simp: binding_at_def fun_eq_iff)
  have keep: "binding_for_domain a' e = binding_for_domain a e"
    if "bd a (normalize_hostname e) = Some i" "i \<noteq> fb_index b \<or> (\<nexists>s. recycled now a i s)" for e i
  proof -
    have "bd a' (normalize_hostname e) = Some i" using that al by blast
    then show ?thesis using that(1) at by (simp add: binding_for_domain_def)
  qed
  have "binding_for_domain a' d = Some b" using al by (simp add: binding_for_domain_def)
  moreover have "fst (allocate now d a') = Inr b"
  proof -
    have "normalize_hostname d \<noteq> []" using assms(3) by (auto simp: allocate_def)
    then show ?thesis using al by (simp add: allocate_def)
  qed
  moreover have "binding_for_domain a' e = Some b'"
    if "binding_for_domain a e = Some b'" "fb_index b' \<noteq> fb_index b" for e b'
  proof -
    from that(1) obtain i where i: "bd a (normalize_hostname e) = Some i" "b' = binding_at a i"
      by (auto simp: binding_for_domain_def)
    then have "fb_index b' = i" by (simp add: binding_at_def)
    then show ?thesis using keep [OF i(1)] that by simp
  qed
  moreover have "binding_for_domain a' e = binding_for_domain a e"
    if "bd a (normalize_hostname e) = Some i" "bi a i = Some s" "now - sl_touched s < fa_min_recycle_idle a" for e i s
    using keep [OF that(1)] that(2,3) by (auto simp: recycled_def)
  ultimately show ?thesis by blast
qed

subsection \<open>Change events\<close>

text \<open>A mirror of the map, kept by applying the events.\<close>

fun apply_change :: "binding_change \<Rightarrow> (u32 \<rightharpoonup> string) \<Rightarrow> (u32 \<rightharpoonup> string)" where
  "apply_change (Bound d i) m = m(i \<mapsto> d)"
| "apply_change (Released i) m = m(i := None)"

definition bound_names :: "fake_ip_allocator \<Rightarrow> u32 \<rightharpoonup> string" where
  "bound_names a i = map_option sl_domain (bi a i)"

definition mirrors :: "(u32 \<rightharpoonup> string) \<Rightarrow> fake_ip_allocator \<Rightarrow> bool" where
  "mirrors m a \<longleftrightarrow> (\<exists>es. fa_sink a = Some es \<and> fold apply_change es m = bound_names a)"

text \<open>The calls of a running service: everything but \<open>restore\<close>, \<open>clear\<close> and the set-up.\<close>

inductive fa_serve :: "fake_ip_allocator \<Rightarrow> nat \<Rightarrow> nat \<Rightarrow> fake_ip_allocator \<Rightarrow> bool" for a0 now0 where
  start: "fa_serve a0 now0 now0 a0"
| wait: "fa_serve a0 now0 now a \<Longrightarrow> now \<le> now' \<Longrightarrow> fa_serve a0 now0 now' a"
| allocate: "fa_serve a0 now0 now a \<Longrightarrow> fa_serve a0 now0 now (snd (allocate now d a))"
| domain_for_ip: "fa_serve a0 now0 now a \<Longrightarrow> fa_serve a0 now0 now (snd (domain_for_ip now addr a))"
| touch_address: "fa_serve a0 now0 now a \<Longrightarrow> fa_serve a0 now0 now (snd (touch_address now addr a))"
| release: "fa_serve a0 now0 now a \<Longrightarrow> fa_serve a0 now0 now (snd (release d a))"
| release_if_untouched: "fa_serve a0 now0 now a \<Longrightarrow> fa_serve a0 now0 now (snd (release_if_untouched d order a))"

lemma mirrors_frame: "mirrors m a \<Longrightarrow> fa_sink a' = fa_sink a \<Longrightarrow> bound_names a' = bound_names a \<Longrightarrow> mirrors m a'"
  by (simp add: mirrors_def)

lemma mirrors_notify:
  "mirrors m a \<Longrightarrow> fa_sink a' = fa_sink a \<Longrightarrow> bound_names a' = apply_change e (bound_names a) \<Longrightarrow> mirrors m (notify e a')"
  by (auto simp: mirrors_def notify_def bound_names_def [abs_def])

lemma touch_names: "bound_names (touch now i a) = bound_names a" "fa_sink (touch now i a) = fa_sink a"
  by (auto simp: bound_names_def touch_def Let_def update_conv' fun_eq_iff split: option.split)

lemma touch_mirrors: "mirrors m a \<Longrightarrow> mirrors m (touch now i a)"
  by (rule mirrors_frame) (simp_all add: touch_names)

lemma release_mirrors:
  assumes "alloc_inv now a" "mirrors m a"
  shows "mirrors m (snd (release d a))"
proof (cases "bd a (normalize_hostname d)")
  case None
  then show ?thesis using assms by (simp add: release_def)
next
  case (Some i)
  have c: "core now a" using assms(1) by (simp add: alloc_inv_def)
  obtain s where s: "bi a i = Some s" using bound_slot [OF c Some] by blast
  show ?thesis
    unfolding release_unbind [OF c Some s] snd_conv
    by (rule mirrors_notify [OF assms(2)]) (auto simp: unbind_def bound_names_def fun_eq_iff delete_conv')
qed

lemma allocate_mirrors:
  assumes "alloc_inv now a" "mirrors m a"
  shows "mirrors m (snd (allocate now d a))"
proof -
  let ?k = "normalize_hostname d"
  obtain r a1 where t: "take_index now a = (r, a1)" by fastforce
  consider "?k = []" | i where "?k \<noteq> []" "bd a ?k = Some i" | e where "?k \<noteq> []" "bd a ?k = None" "r = Inl e"
    | i where "?k \<noteq> []" "bd a ?k = None" "r = Inr i"
    by (cases "bd a ?k"; cases r) auto
  then show ?thesis
  proof cases
    case 3
    then have "a1 = a" using take_index_cases [OF assms(1) order_refl] t by auto
    then show ?thesis using 3 t assms(2) by (simp add: allocate_def)
  next
    case (4 i)
    note ti = take_index_Inr [OF assms(1) order_refl t [unfolded 4(3)]]
    let ?a3 = "(insert_slot now i ?k a1)\<lparr>fa_by_domain := AList.update ?k i (fa_by_domain a1)\<rparr>"
    have "snd (allocate now d a) = notify (Bound ?k i) ?a3"
      using 4 t by (simp add: allocate_def Let_def insert_slot_def)
    moreover have "mirrors m (notify (Bound ?k i) ?a3)"
      by (rule mirrors_notify [OF assms(2)]) (use ti in \<open>auto simp: insert_slot_def Let_def bound_names_def fun_eq_iff update_conv'\<close>)
    ultimately show ?thesis by simp
  qed (use assms(2) in \<open>simp_all add: allocate_def touch_mirrors\<close>)
qed

lemma serve_mirrors:
  assumes "fa_serve a0 now0 now a" "alloc_inv now0 a0" "mirrors m a0"
  shows "alloc_inv now a \<and> mirrors m a"
  using assms
proof (induction rule: fa_serve.induct)
  case (wait now a now')
  then show ?case using inv_wait by blast
next
  case (allocate now a d)
  then show ?case using allocate_inv [of now a now d] allocate_mirrors by simp
next
  case (domain_for_ip now a addr)
  then show ?case
    using domain_for_ip_inv [of now a addr]
    by (auto simp: domain_for_ip_def Let_def touch_mirrors split: option.split)
next
  case (touch_address now a addr)
  then show ?case
    using touch_address_inv [of now a addr] by (auto simp: touch_address_def touch_mirrors split: option.split)
next
  case (release now a d)
  then show ?case using release_inv release_mirrors by blast
next
  case (release_if_untouched now a d order)
  then show ?case
    using release_if_untouched_inv [of now a d order] by (auto simp: release_if_untouched_def Let_def release_mirrors)
qed simp

text \<open>
  C8. A sink can mirror the map from its events alone. A copy of the map taken when the sink is
  registered, updated by every event in the order it was reported, is the allocator's map after any
  sequence of calls of the running service: recycling included, although it reports no release.
\<close>

theorem events_mirror:
  assumes "pool_ok c" "fa_run c now0 a0" "fa_serve (set_change_sink a0) now0 now a"
  shows "\<exists>es. fa_sink a = Some es \<and> fold apply_change es (bound_names a0) = bound_names a"
proof -
  have "alloc_inv now0 (set_change_sink a0)" by (rule run_inv [OF fa_run.sink [OF assms(2)] assms(1)])
  moreover have "mirrors (bound_names a0) (set_change_sink a0)"
    by (simp add: mirrors_def set_change_sink_def bound_names_def fun_eq_iff)
  ultimately show ?thesis using serve_mirrors [OF assms(3)] by (simp add: mirrors_def)
qed

subsection \<open>Idle bindings\<close>

text \<open>Reference: all bindings past \<open>after\<close> that are idle long enough, in the order of their last use.\<close>

definition idle_entry :: "fake_ip_allocator \<Rightarrow> u64 \<times> u32 \<Rightarrow> idle_binding" where
  "idle_entry a x = \<lparr>ib_order = fst x, ib_domain = sl_domain (the (bi a (snd x))), ib_binding = binding_at a (snd x)\<rparr>"

definition idle_at :: "nat \<Rightarrow> nat \<Rightarrow> fake_ip_allocator \<Rightarrow> u64 \<times> u32 \<Rightarrow> bool" where
  "idle_at now idle a x = (case bi a (snd x) of None \<Rightarrow> False | Some s \<Rightarrow> idle \<le> now - sl_touched s)"

lemma idle_loop_takeWhile:
  assumes "\<forall>x \<in> set xs. bi a (snd x) \<noteq> None" "length found \<le> limit"
  shows "idle_loop now idle limit a xs found =
    found @ map (idle_entry a) (take (limit - length found) (takeWhile (idle_at now idle a) xs))"
  using assms
proof (induction xs arbitrary: found)
  case (Cons x xs)
  obtain u i where x: "x = (u, i)" by fastforce
  then obtain s where s: "bi a i = Some s" using Cons.prems(1) by auto
  have e: "idle_entry a x = \<lparr>ib_order = u, ib_domain = sl_domain s, ib_binding = binding_at a i\<rparr>"
    using x s by (simp add: idle_entry_def)
  show ?case
  proof (cases "length found < limit \<and> idle_at now idle a x")
    case True
    let ?f = "found @ [idle_entry a x]"
    have "idle_loop now idle limit a (x # xs) found = idle_loop now idle limit a xs ?f"
      using True s e by (auto simp: x idle_at_def)
    also have "\<dots> = ?f @ map (idle_entry a) (take (limit - length ?f) (takeWhile (idle_at now idle a) xs))"
      using Cons.prems True by (intro Cons.IH) auto
    finally show ?thesis using True by (simp add: take_Cons' )
  next
    case False
    then show ?thesis using Cons.prems(2) s by (auto simp: x idle_at_def)
  qed
qed simp

lemma takeWhile_filter_mono:
  assumes "sorted_wrt (\<lambda>x y. P y \<longrightarrow> P x) xs"
  shows "takeWhile P xs = filter P xs"
  using assms
proof (induction xs)
  case (Cons x xs)
  then show ?case by (cases "P x") (auto simp: filter_empty_conv)
qed simp

lemma idle_order:
  assumes c: "core now a" and "fa_tick a \<noteq> - 1" and "bi a i = Some s" "bi a j = Some t"
    and "(sl_last_used s, i) < (sl_last_used t, j)"
  shows "sl_touched s \<le> sl_touched t"
proof -
  have "sl_last_used t \<le> fa_tick a" using coreD(4) [OF c] assms(4) unfolding slots_ok_def by blast
  then have "sl_last_used t \<noteq> - 1" using assms(2) word_order.extremum_uniqueI by metis
  moreover have "(sl_last_used s < sl_last_used t \<longrightarrow> sl_touched s \<le> sl_touched t) \<and>
      (i \<noteq> j \<longrightarrow> sl_last_used s = sl_last_used t \<longrightarrow> sl_last_used s = - 1)"
    using coreD(5) [OF c] assms(3,4) unfolding order_ok_def by blast
  moreover have "sl_last_used s < sl_last_used t \<or> sl_last_used s = sl_last_used t \<and> i \<noteq> j"
    using assms(5) by (cases "sl_last_used s = sl_last_used t") (auto simp: less_prod_def)
  ultimately show ?thesis by auto
qed

lemma idle_sorted:
  assumes c: "core now a" and "fa_tick a \<noteq> - 1"
  shows "sorted_wrt (\<lambda>x y. idle_at now idle a y \<longrightarrow> idle_at now idle a x) (sorted_list_of_set (fa_by_age a))"
proof (rule sorted_wrt_mono_rel)
  show "sorted_wrt (<) (sorted_list_of_set (fa_by_age a))" by (rule strict_sorted_list_of_set)
  fix x y assume xy: "x \<in> set (sorted_list_of_set (fa_by_age a))" "y \<in> set (sorted_list_of_set (fa_by_age a))" "x < y"
  have f: "finite (fa_by_age a)" using coreD(3) [OF c] finite_ages by metis
  have "\<exists>i s. z = (sl_last_used s, i) \<and> bi a i = Some s" if "z \<in> set (sorted_list_of_set (fa_by_age a))" for z
  proof -
    have "z \<in> fa_by_age a" using that f by simp
    then show ?thesis unfolding coreD(3) [OF c] ages_def by blast
  qed
  from this [OF xy(1)] this [OF xy(2)] obtain i s j t
    where x: "x = (sl_last_used s, i)" "bi a i = Some s" and y: "y = (sl_last_used t, j)" "bi a j = Some t" by blast
  have "sl_touched s \<le> sl_touched t" using idle_order [OF c assms(2) x(2) y(2)] xy(3) x(1) y(1) by simp
  then show "idle_at now idle a y \<longrightarrow> idle_at now idle a x" using x y by (auto simp: idle_at_def)
qed

lemma idle_bindings_core:
  assumes "core now a" "fa_tick a \<noteq> - 1"
  shows "idle_bindings now a after idle limit = take limit (map (idle_entry a)
    (filter (\<lambda>x. idle_at now idle a x \<and> after < fst x) (sorted_list_of_set (fa_by_age a))))"
proof -
  have f: "finite (fa_by_age a)" using coreD(3) [OF assms(1)] finite_ages by metis
  let ?xs = "sorted_list_of_set (fa_by_age a)" and ?late = "\<lambda>x :: u64 \<times> u32. (after, - 1) < x"
  have late: "?late x \<longleftrightarrow> after < fst x" for x by (cases x) (auto simp: less_prod_def word_order.extremum_strict leD)
  have b: "\<forall>x \<in> set (filter ?late ?xs). bi a (snd x) \<noteq> None"
    using f coreD(3) [OF assms(1)] by (auto simp: in_ages)
  have "idle_bindings now a after idle limit = map (idle_entry a) (take limit (takeWhile (idle_at now idle a) (filter ?late ?xs)))"
    unfolding idle_bindings_def using idle_loop_takeWhile [OF b, of "[]"] by simp
  also have "takeWhile (idle_at now idle a) (filter ?late ?xs) = filter (idle_at now idle a) (filter ?late ?xs)"
    by (rule takeWhile_filter_mono [OF sorted_wrt_filter [OF idle_sorted [OF assms]]])
  finally show ?thesis by (simp add: take_map late conj_commute)
qed

text \<open>
  C37. The sweep of idle bindings is exact although it walks an index and stops early: while the use
  counter is not saturated, \<open>idle_bindings\<close> answers, of all bindings of the map by index, those
  used last after the given position and unused for at least \<open>idle\<close>, the first \<open>limit\<close> of
  them in the order of their last use.
\<close>

theorem idle_bindings_exact:
  assumes "pool_ok c" "fa_run c now a" "fa_tick a \<noteq> - 1"
  shows "idle_bindings now a after idle limit =
    take limit (map (\<lambda>(order, i). \<lparr>ib_order = order, ib_domain = sl_domain (the (map_of (fa_by_index a) i)), ib_binding = binding_at a i\<rparr>)
      (sorted_list_of_set {(sl_last_used s, i) | i s.
         map_of (fa_by_index a) i = Some s \<and> idle \<le> now - sl_touched s \<and> after < sl_last_used s}))"
proof -
  have c: "core now a" using run_inv [OF assms(2,1)] by (simp add: alloc_inv_def)
  have e: "(\<lambda>(order, i). \<lparr>ib_order = order, ib_domain = sl_domain (the (bi a i)), ib_binding = binding_at a i\<rparr>) = idle_entry a"
    by (auto simp: idle_entry_def)
  have "{x \<in> fa_by_age a. idle_at now idle a x \<and> after < fst x} =
      {(sl_last_used s, i) | i s. bi a i = Some s \<and> idle \<le> now - sl_touched s \<and> after < sl_last_used s}"
    unfolding coreD(3) [OF c] by (auto simp: in_ages idle_at_def split: option.splits)
  moreover have "finite (fa_by_age a)" using coreD(3) [OF c] finite_ages by metis
  ultimately show ?thesis
    using idle_bindings_core [OF c assms(3)] by (simp add: e filter_sorted_list_of_set)
qed

section \<open>A small pool\<close>

text \<open>A pool with one host, recycled after five milliseconds.\<close>

definition tiny_pool :: fake_ip_pool_config where
  "tiny_pool = default_pool\<lparr>v4_prefix_len := 30\<rparr>"

definition tiny_start :: fake_ip_allocator where
  "tiny_start = \<lparr>fa_config = tiny_pool, fa_by_domain = [], fa_by_index = [], fa_cursor = 2, fa_freed = [],
     fa_by_age = {}, fa_min_recycle_idle = 5, fa_tick = 0, fa_sink = None\<rparr>"

definition tiny_one :: fake_ip_allocator where
  "tiny_one = \<lparr>fa_config = tiny_pool, fa_by_domain = [(''a.example'', 2)],
     fa_by_index = [(2, \<lparr>sl_domain = ''a.example'', sl_last_used = 1, sl_touched = 0\<rparr>)], fa_cursor = 3, fa_freed = [],
     fa_by_age = {(1, 2)}, fa_min_recycle_idle = 5, fa_tick = 1, fa_sink = None\<rparr>"

lemma tiny_ok: "pool_ok tiny_pool" by code_simp

lemma tiny_run: "fa_run tiny_pool now tiny_start"
proof -
  have "tiny_start = with_min_recycle_idle (fa_new tiny_pool) 5"
    by (simp add: tiny_start_def with_min_recycle_idle_def fa_new_def FAKE_IP_FIRST_HOST_INDEX_def)
  then show ?thesis using fa_run.idle [OF fa_run.start] by metis
qed

lemma tiny_run_one: "fa_run tiny_pool now tiny_one"
proof -
  have "tiny_one = snd (allocate 0 ''A.example.'' tiny_start)" by code_simp
  then show ?thesis using fa_run.wait [OF fa_run.allocate [OF tiny_run], of 0 now "''A.example.''"] by simp
qed

theorem addresses_lead_back_witness:
  "binding_for_domain tiny_one ''a.example'' = Some (binding_at tiny_one 2) \<and>
   peek_domain_for_ip tiny_one (V4 0xC6120002) = Some ''a.example''"
proof -
  have b: "binding_for_domain tiny_one ''a.example'' = Some (binding_at tiny_one 2)" by code_simp
  have e: "fb_v4 (binding_at tiny_one 2) = 0xC6120002" "normalize_hostname ''a.example'' = ''a.example''" by code_simp+
  from conjunct1 [OF addresses_lead_back [OF tiny_ok tiny_run_one b]] show ?thesis unfolding e using b by blast
qed

theorem allocate_live_witness:
  "fst (allocate 3 ''b.example'' tiny_one) = Inl PoolExhausted \<and> fa_len tiny_one = unat (capacity tiny_pool)"
proof -
  have e: "fst (allocate 3 ''b.example'' tiny_one) = Inl PoolExhausted" by code_simp
  have "normalize_hostname ''b.example'' \<noteq> []" by code_simp
  from allocate_live [OF tiny_ok tiny_run_one this] e show ?thesis by blast
qed

theorem allocate_stable_witness:
  "(let (r, a) = allocate 7 ''b.example'' tiny_one in
     r = Inr (binding_at tiny_one 2) \<and> binding_for_domain a ''b.example'' = Some (binding_at tiny_one 2) \<and>
     binding_for_domain a ''a.example'' = None)"
proof -
  let ?a = "snd (allocate 7 ''b.example'' tiny_one)"
  have "fst (allocate 7 ''b.example'' tiny_one) = Inr (binding_at tiny_one 2)" by code_simp
  then have e: "allocate 7 ''b.example'' tiny_one = (Inr (binding_at tiny_one 2), ?a)" by (metis prod.collapse)
  have "binding_for_domain ?a ''a.example'' = None" by code_simp
  then show ?thesis using allocate_stable [OF tiny_ok tiny_run_one e] by (subst e) (simp add: Let_def)
qed

theorem events_mirror_witness:
  "\<exists>es. fa_sink (snd (allocate 7 ''b.example'' (set_change_sink tiny_one))) = Some es \<and> es \<noteq> [] \<and>
     fold apply_change es (bound_names tiny_one) = bound_names (snd (allocate 7 ''b.example'' (set_change_sink tiny_one)))"
proof -
  have "fa_serve (set_change_sink tiny_one) 7 7 (snd (allocate 7 ''b.example'' (set_change_sink tiny_one)))"
    by (rule fa_serve.allocate [OF fa_serve.start])
  from events_mirror [OF tiny_ok tiny_run_one this] obtain es
    where "fa_sink (snd (allocate 7 ''b.example'' (set_change_sink tiny_one))) = Some es"
      "fold apply_change es (bound_names tiny_one) = bound_names (snd (allocate 7 ''b.example'' (set_change_sink tiny_one)))"
    by blast
  moreover have "fa_sink (snd (allocate 7 ''b.example'' (set_change_sink tiny_one))) \<noteq> Some []" by code_simp
  ultimately show ?thesis by auto
qed

theorem idle_bindings_exact_witness:
  "fa_tick tiny_one \<noteq> - 1 \<and>
   idle_bindings 7 tiny_one 0 5 3 = [\<lparr>ib_order = 1, ib_domain = ''a.example'', ib_binding = binding_at tiny_one 2\<rparr>]"
proof -
  have t: "fa_tick tiny_one \<noteq> - 1" by code_simp
  have "{(sl_last_used s, i) | i s. map_of (fa_by_index tiny_one) i = Some s \<and> 5 \<le> 7 - sl_touched s \<and> 0 < sl_last_used s} = {(1, 2)}"
    by (auto simp: tiny_one_def split: if_splits)
  moreover have "sl_domain (the (map_of (fa_by_index tiny_one) 2)) = ''a.example''" by (simp add: tiny_one_def)
  ultimately show ?thesis using idle_bindings_exact [OF tiny_ok tiny_run_one t, of 7 0 5 3] t by simp
qed

end
