(* ===== verification/Binding_Release.thy ===== *)
theory Binding_Release
  imports Fake_Ip_Allocator
begin

text \<open>
  The sweep that gives idle virtual addresses back to the pool
  (\<open>src/core/services/service-runtime/src/fake_ip/binding_release.rs\<close>). One pass marks the
  addresses flows are on as used, reads the idle bindings under the lock, and then asks the keeper
  about each and releases what it does not want, one lock at a time. The keeper is an argument: it is
  a closure of the caller. \<open>run_once\<close> is the pass on its own; \<open>sweep\<close> is the same pass with the
  calls of the running service between its steps.
\<close>

section \<open>Definitions\<close>

definition RELEASE_BUDGET_PER_RUN :: nat where "RELEASE_BUDGET_PER_RUN = 256"

record live_snapshot =
  lv_addresses :: "ip_addr list"
  lv_policy_stamp :: u64

definition lv_publish :: "ip_addr list \<Rightarrow> u64 \<Rightarrow> live_snapshot" where
  "lv_publish addresses stamp = \<lparr>lv_addresses = addresses, lv_policy_stamp = stamp\<rparr>"

record release_cursor =
  rc_checked_upto :: u64
  rc_stamp :: u64

record binding_releaser =
  br_allocator :: fake_ip_allocator
  br_live :: live_snapshot
  br_idle :: nat
  br_cursor :: release_cursor

definition br_new :: "fake_ip_allocator \<Rightarrow> live_snapshot \<Rightarrow> binding_releaser" where
  "br_new allocator live = \<lparr>br_allocator = allocator, br_live = live, br_idle = RECYCLE_MIN_IDLE,
     br_cursor = \<lparr>rc_checked_upto = 0, rc_stamp = 0\<rparr>\<rparr>"

definition moved_cursor :: "live_snapshot \<Rightarrow> release_cursor \<Rightarrow> release_cursor" where
  "moved_cursor live cur =
     (if rc_stamp cur \<noteq> lv_policy_stamp live then \<lparr>rc_checked_upto = 0, rc_stamp = lv_policy_stamp live\<rparr> else cur)"

definition touch_all :: "nat \<Rightarrow> ip_addr list \<Rightarrow> fake_ip_allocator \<Rightarrow> fake_ip_allocator" where
  "touch_all now ips a = fold (\<lambda>ip a. snd (touch_address now ip a)) ips a"

definition on_flow :: "live_snapshot \<Rightarrow> fake_ip_binding \<Rightarrow> bool" where
  "on_flow live b \<longleftrightarrow> V4 (fb_v4 b) \<in> set (lv_addresses live) \<or>
     (case fb_v6 b of Some v6 \<Rightarrow> V6 v6 \<in> set (lv_addresses live) | None \<Rightarrow> False)"

definition judge :: "(string \<Rightarrow> bool) \<Rightarrow> live_snapshot \<Rightarrow> idle_binding \<Rightarrow> release_cursor \<times> fake_ip_allocator \<times> nat \<Rightarrow>
    release_cursor \<times> fake_ip_allocator \<times> nat" where
  "judge keep live found st =
     (case st of (cur, a, released) \<Rightarrow>
        let cur' = cur\<lparr>rc_checked_upto := ib_order found\<rparr> in
        if on_flow live (ib_binding found) \<or> keep (ib_domain found) then (cur', a, released)
        else case release_if_untouched (ib_domain found) (ib_order found) a of
            (True, a') \<Rightarrow> (cur', a', released + 1)
          | (False, a') \<Rightarrow> (cur', a', released))"

definition run_once :: "(string \<Rightarrow> bool) \<Rightarrow> nat \<Rightarrow> binding_releaser \<Rightarrow> nat \<times> binding_releaser" where
  "run_once keep now r =
     (let live = br_live r;
          cur = moved_cursor live (br_cursor r);
          a = touch_all now (lv_addresses live) (br_allocator r);
          idle = idle_bindings now a (rc_checked_upto cur) (br_idle r) RELEASE_BUDGET_PER_RUN;
          (cur', a', released) = fold (judge keep live) idle (cur, a, 0)
      in (released, r\<lparr>br_allocator := a', br_cursor := cur'\<rparr>))"

section \<open>What the idle bindings are\<close>

lemma run_touch_all: "fa_run c now a \<Longrightarrow> fa_run c now (touch_all now ips a)"
  unfolding touch_all_def by (induction ips arbitrary: a) (simp_all add: fa_run.touch_address)

lemma idle_found:
  assumes c: "core now a" and f: "f \<in> set (idle_bindings now a after idle limit)"
  obtains i s where "bi a i = Some s" "ib_order f = sl_last_used s" "ib_domain f = sl_domain s"
    "ib_binding f = binding_at a i" "idle \<le> now - sl_touched s"
proof -
  have fin: "finite (fa_by_age a)" using coreD(3) [OF c] finite_ages by metis
  let ?xs = "filter (\<lambda>x. (after, - 1) < x) (sorted_list_of_set (fa_by_age a))"
  have b: "\<forall>x \<in> set ?xs. bi a (snd x) \<noteq> None" using fin coreD(3) [OF c] by (auto simp: in_ages)
  have "f \<in> set (map (idle_entry a) (take limit (takeWhile (idle_at now idle a) ?xs)))"
    using f idle_loop_takeWhile [OF b, of "[]" limit now idle] by (simp add: idle_bindings_def)
  then obtain x where x: "f = idle_entry a x" "x \<in> set ?xs" "idle_at now idle a x"
    by (auto dest!: in_set_takeD set_takeWhileD)
  have "x \<in> fa_by_age a" using x(2) fin by simp
  then have "x \<in> ages (bi a)" unfolding coreD(3) [OF c] .
  then obtain s where s: "bi a (snd x) = Some s" "sl_last_used s = fst x" by (cases x) (auto simp: in_ages)
  have "ib_order f = sl_last_used s" "ib_domain f = sl_domain s" "ib_binding f = binding_at a (snd x)" "idle \<le> now - sl_touched s"
    using x(1,3) s by (simp_all add: idle_entry_def idle_at_def)
  then show ?thesis using that s(1) by blast
qed

text \<open>
  What stays true of a reported binding while other calls run: the only slot that can still carry its
  order is the one that was read, with its name and its age, unchanged since.
\<close>

definition still :: "fake_ip_allocator \<Rightarrow> nat \<Rightarrow> nat \<Rightarrow> fake_ip_allocator \<Rightarrow> idle_binding \<Rightarrow> bool" where
  "still a0 idle now a f \<longleftrightarrow> ib_order f \<le> fa_tick a \<and> ib_binding f = binding_at a (fb_index (ib_binding f)) \<and>
     (\<forall>i s. bi a i = Some s \<longrightarrow> sl_last_used s = ib_order f \<longrightarrow>
        i = fb_index (ib_binding f) \<and> sl_domain s = ib_domain f \<and> idle \<le> now - sl_touched s \<and> bi a0 i = Some s)"

lemma idle_still:
  assumes c: "core now a" and "fa_tick a \<noteq> - 1" and f: "f \<in> set (idle_bindings now a after idle limit)"
  shows "still a idle now a f"
proof -
  obtain i s where s: "bi a i = Some s" "ib_order f = sl_last_used s" "ib_domain f = sl_domain s"
    "ib_binding f = binding_at a i" "idle \<le> now - sl_touched s" using idle_found [OF c f] by metis
  have le: "sl_last_used s \<le> fa_tick a" using coreD(4) [OF c] s(1) unfolding slots_ok_def by blast
  then have ne: "sl_last_used s \<noteq> - 1" using assms(2) word_order.extremum_uniqueI by metis
  have "j = i" if "bi a j = Some t" "sl_last_used t = sl_last_used s" for j t
    using coreD(5) [OF c] s(1) that ne unfolding order_ok_def by metis
  moreover have "fb_index (ib_binding f) = i" using s(4) by (simp add: binding_at_def)
  ultimately show ?thesis unfolding still_def using s le by (metis option.inject)
qed

subsection \<open>Calls in between\<close>

text \<open>A call leaves a slot as it is, drops it, or stamps it past every earlier stamp.\<close>

definition later :: "fake_ip_allocator \<Rightarrow> fake_ip_allocator \<Rightarrow> bool" where
  "later a a' \<longleftrightarrow> fa_tick a \<le> fa_tick a' \<and> fa_config a' = fa_config a \<and>
     (fa_tick a' \<noteq> - 1 \<longrightarrow> (\<forall>i s. bi a' i = Some s \<longrightarrow> bi a i = Some s \<or> fa_tick a < sl_last_used s))"

lemma later_refl: "later a a" by (simp add: later_def)

lemma later_trans:
  assumes "later a b" "later b c"
  shows "later a c"
proof -
  have "fa_tick b \<noteq> - 1" if "fa_tick c \<noteq> - 1"
    using assms(2) that word_order.extremum_uniqueI unfolding later_def by metis
  moreover have "bi a i = Some s \<or> fa_tick a < sl_last_used s" if "fa_tick b \<noteq> - 1" "fa_tick c \<noteq> - 1" "bi c i = Some s" for i s
  proof (cases "bi b i = Some s")
    case True
    then show ?thesis using assms(1) that(1) unfolding later_def by blast
  next
    case False
    then have "fa_tick b < sl_last_used s" using assms(2) that unfolding later_def by blast
    then show ?thesis using assms(1) unfolding later_def by (meson order.strict_trans1)
  qed
  moreover have "fa_tick a \<le> fa_tick c" "fa_config c = fa_config a"
    using assms unfolding later_def by (metis order.trans)+
  ultimately show ?thesis unfolding later_def by blast
qed

lemma later_frame: "fa_tick a' = fa_tick a \<Longrightarrow> fa_config a' = fa_config a \<Longrightarrow> bi a' \<subseteq>\<^sub>m bi a \<Longrightarrow> later a a'"
  by (auto simp: later_def map_le_def) (metis domI)

lemma inc_greater: "saturating_inc w \<noteq> - 1 \<Longrightarrow> w < saturating_inc w"
  using saturating_inc_fixed [of w] by (meson not_le)

lemma later_touch: "later a (touch now i a)"
  by (auto simp: later_def touch_def Let_def update_conv' saturating_inc_ge intro!: inc_greater split: option.split if_splits)

lemma later_insert: "later a ((insert_slot now i k a)\<lparr>fa_by_domain := ds\<rparr>)"
  by (auto simp: later_def insert_slot_def Let_def update_conv' saturating_inc_ge intro!: inc_greater split: if_splits)

lemma later_release: "later a (snd (release d a))"
  by (rule later_frame)
    (auto simp: release_def Let_def notify_def delete_conv' map_le_def split: option.split if_splits)

lemma later_take: "take_index now a = (r, a1) \<Longrightarrow> later a a1"
  by (rule later_frame)
    (auto simp: take_index_def delete_conv' map_le_def split: option.splits if_splits prod.splits)

lemma later_notify: "later a b \<Longrightarrow> later a (notify e b)"
  by (simp add: later_def notify_def)

lemma later_allocate: "later a (snd (allocate now d a))"
proof -
  let ?k = "normalize_hostname d"
  obtain r a1 where t: "take_index now a = (r, a1)" by fastforce
  have 1: "later a a1" by (rule later_take [OF t])
  show ?thesis
  proof (cases "?k = [] \<or> bd a ?k \<noteq> None")
    case True
    then show ?thesis by (auto simp: allocate_def Let_def later_refl later_touch)
  next
    case False
    show ?thesis
    proof (cases r)
      case (Inl e)
      then show ?thesis using False t 1 by (simp add: allocate_def)
    next
      case (Inr i)
      let ?a3 = "(insert_slot now i ?k a1)\<lparr>fa_by_domain := AList.update ?k i (fa_by_domain a1)\<rparr>"
      have "snd (allocate now d a) = notify (Bound ?k i) ?a3"
        using False t Inr by (simp add: allocate_def Let_def insert_slot_def)
      then show ?thesis using later_notify [OF later_trans [OF 1 later_insert]] by simp
    qed
  qed
qed

lemma later_serve: "fa_serve a0 now0 now a \<Longrightarrow> later a0 a \<and> now0 \<le> now"
proof (induction rule: fa_serve.induct)
  case (allocate now a d)
  then show ?case using later_trans later_allocate by blast
next
  case (domain_for_ip now a addr)
  have "later a (snd (domain_for_ip now addr a))"
    by (simp add: domain_for_ip_def Let_def later_refl later_touch split: option.split)
  then show ?case using domain_for_ip later_trans by blast
next
  case (touch_address now a addr)
  have "later a (snd (touch_address now addr a))"
    by (simp add: touch_address_def later_refl later_touch split: option.split)
  then show ?case using touch_address later_trans by blast
next
  case (release now a d)
  then show ?case using later_trans later_release by blast
next
  case (release_if_untouched now a d order)
  have "later a (snd (release_if_untouched d order a))"
    by (simp add: release_if_untouched_def Let_def later_refl later_release)
  then show ?case using release_if_untouched later_trans by blast
qed (simp_all add: later_refl)

lemma still_later:
  assumes "still a0 idle now a f" "later a a'" "now \<le> now'" "fa_tick a' \<noteq> - 1"
  shows "still a0 idle now' a' f"
proof -
  have "binding_at a' = binding_at a" using assms(2) by (auto simp: later_def binding_at_def fun_eq_iff)
  moreover have "ib_order f \<le> fa_tick a'" using assms(1,2) by (auto simp: still_def later_def)
  moreover have "i = fb_index (ib_binding f) \<and> sl_domain s = ib_domain f \<and> idle \<le> now' - sl_touched s \<and> bi a0 i = Some s"
    if "bi a' i = Some s" "sl_last_used s = ib_order f" for i s
  proof -
    have "bi a i = Some s"
      using assms(1,2,4) that unfolding still_def later_def by (metis leD)
    then have "i = fb_index (ib_binding f) \<and> sl_domain s = ib_domain f \<and> idle \<le> now - sl_touched s \<and> bi a0 i = Some s"
      using assms(1) that(2) unfolding still_def by blast
    then show ?thesis using assms(3) diff_le_mono [of now now' "sl_touched s"] by linarith
  qed
  ultimately show ?thesis using assms(1) unfolding still_def by auto
qed


section \<open>The interleaved pass\<close>

text \<open>
  A pass over \<open>fs0\<close>, read in the state \<open>a0\<close>: its steps, between which the service may make any
  calls. The log holds each release with the state and the time it was made in.
\<close>

inductive sweep :: "(string \<Rightarrow> bool) \<Rightarrow> live_snapshot \<Rightarrow> idle_binding list \<Rightarrow> fake_ip_allocator \<Rightarrow> nat \<Rightarrow>
    idle_binding list \<Rightarrow> release_cursor \<Rightarrow> fake_ip_allocator \<Rightarrow> nat \<Rightarrow> (idle_binding \<times> fake_ip_allocator \<times> nat) list \<Rightarrow> bool"
  for keep live fs0 a0 now0 where
  start: "sweep keep live fs0 a0 now0 fs0 cur a0 now0 []"
| others: "sweep keep live fs0 a0 now0 fs cur a now lg \<Longrightarrow> fa_serve a now now' a' \<Longrightarrow>
    sweep keep live fs0 a0 now0 fs cur a' now' lg"
| judged: "sweep keep live fs0 a0 now0 (f # fs) cur a now lg \<Longrightarrow> judge keep live f (cur, a, 0) = (cur', a', n) \<Longrightarrow>
    sweep keep live fs0 a0 now0 fs cur' a' now (if n = 0 then lg else lg @ [(f, a, now)])"

definition released_well :: "fake_ip_allocator \<Rightarrow> (string \<Rightarrow> bool) \<Rightarrow> live_snapshot \<Rightarrow> nat \<Rightarrow> idle_binding \<times> fake_ip_allocator \<times> nat \<Rightarrow> bool" where
  "released_well a0 keep live idle e = (case e of (f, a, t) \<Rightarrow>
     \<exists>i s. bd a (normalize_hostname (ib_domain f)) = Some i \<and> bi a i = Some s \<and> sl_domain s = ib_domain f \<and>
       bi a0 i = Some s \<and> sl_last_used s = ib_order f \<and> \<not> keep (sl_domain s) \<and> \<not> on_flow live (binding_at a i) \<and> idle \<le> t - sl_touched s)"

lemma serve_inv: "fa_serve a0 now0 now a \<Longrightarrow> alloc_inv now0 a0 \<Longrightarrow> alloc_inv now a"
proof (induction rule: fa_serve.induct)
  case (wait now a now')
  then show ?case using inv_wait by blast
next
  case (allocate now a d)
  then show ?case using allocate_inv [of now a now d] by simp
qed (simp_all add: domain_for_ip_inv touch_address_inv release_inv release_if_untouched_inv)

lemma judge_cases:
  "judge keep live f (cur, a, n) = (cur\<lparr>rc_checked_upto := ib_order f\<rparr>,
     if on_flow live (ib_binding f) \<or> keep (ib_domain f) then (a, n)
     else (snd (release_if_untouched (ib_domain f) (ib_order f) a),
           if fst (release_if_untouched (ib_domain f) (ib_order f) a) then n + 1 else n))"
  by (simp add: judge_def Let_def case_prod_unfold split: bool.split)

lemma later_release_if_untouched: "later a (snd (release_if_untouched d order a))"
  by (simp add: release_if_untouched_def Let_def later_refl later_release)

lemma release_if_untouched_fst:
  assumes "core now a"
  shows "fst (release_if_untouched d order a) \<longleftrightarrow> normalize_hostname (normalize_hostname d) \<in> dom (bd a) \<and>
    (\<exists>i s. bd a (normalize_hostname d) = Some i \<and> bi a i = Some s \<and> sl_last_used s = order)"
  by (auto simp: release_if_untouched_def Let_def release_def bind_eq_Some_conv split: option.splits)

lemma judge_good:
  assumes "judge keep live f (cur, a, 0) = (cur', a', n)" "n \<noteq> 0" "still a0 idle now a f" "core now a"
  shows "released_well a0 keep live idle (f, a, now)"
proof -
  have g: "\<not> on_flow live (ib_binding f)" "\<not> keep (ib_domain f)" "fst (release_if_untouched (ib_domain f) (ib_order f) a)"
    using assms(1,2) by (auto simp: judge_cases split: if_splits)
  from g(3) obtain i s where s: "bd a (normalize_hostname (ib_domain f)) = Some i" "bi a i = Some s" "sl_last_used s = ib_order f"
    unfolding release_if_untouched_fst [OF assms(4)] by blast
  then have "i = fb_index (ib_binding f) \<and> sl_domain s = ib_domain f \<and> idle \<le> now - sl_touched s \<and> bi a0 i = Some s"
    "ib_binding f = binding_at a (fb_index (ib_binding f))"
    using assms(3) unfolding still_def by blast+
  then show ?thesis using s g(1,2) by (auto simp: released_well_def)
qed

lemma sweep_invariant:
  assumes "sweep keep live fs0 a0 now0 fs cur a now lg" "alloc_inv now0 a0"
    and "fa_tick a0 \<noteq> - 1 \<Longrightarrow> \<forall>f \<in> set fs0. still a0 idle now0 a0 f"
  shows "alloc_inv now a \<and> (fa_tick a \<noteq> - 1 \<longrightarrow>
    (\<forall>f \<in> set fs. still a0 idle now a f) \<and> (\<forall>e \<in> set lg. released_well a0 keep live idle e))"
  using assms
proof (induction rule: sweep.induct)
  case (start cur)
  then show ?case by simp
next
  case (others fs cur a now lg now' a')
  have l: "later a a'" "now \<le> now'" using later_serve [OF others.hyps(2)] by auto
  have "fa_tick a \<noteq> - 1" if "fa_tick a' \<noteq> - 1"
    using l(1) that word_order.extremum_uniqueI unfolding later_def by metis
  then show ?case using others serve_inv still_later [OF _ l] by blast
next
  case (judged f fs cur a now lg cur' a' n)
  have inv: "alloc_inv now a" using judged by blast
  have a': "a' = a \<or> a' = snd (release_if_untouched (ib_domain f) (ib_order f) a)"
    using judged.hyps(2) by (auto simp: judge_cases split: if_splits)
  then have l: "later a a'" using later_refl later_release_if_untouched by blast
  have t: "fa_tick a \<noteq> - 1" if "fa_tick a' \<noteq> - 1"
    using l that word_order.extremum_uniqueI unfolding later_def by metis
  have "alloc_inv now a'" using a' inv release_if_untouched_inv by blast
  moreover have "\<forall>g \<in> set fs. still a0 idle now a' g" if "fa_tick a' \<noteq> - 1"
    using judged t [OF that] still_later [OF _ l order_refl that] by auto
  moreover have "\<forall>e \<in> set (if n = 0 then lg else lg @ [(f, a, now)]). released_well a0 keep live idle e" if "fa_tick a' \<noteq> - 1"
  proof -
    have "released_well a0 keep live idle (f, a, now)" if "n \<noteq> 0"
      using judge_good [OF judged.hyps(2) that] judged t [OF \<open>fa_tick a' \<noteq> - 1\<close>] inv by (auto simp: alloc_inv_def)
    then show ?thesis using judged t [OF that] by auto
  qed
  ultimately show ?case by blast
qed

lemma sweep_log:
  "sweep keep live fs0 a0 now0 fs cur a now lg \<Longrightarrow> set fs \<subseteq> set fs0 \<and> fst ` set lg \<subseteq> set fs0"
  by (induction rule: sweep.induct) auto

text \<open>
  C13. The sweep takes no address in use, whatever runs beside it. In every interleaving with the calls
  of the service, each binding the pass released was, at the moment of its release, the binding the
  pass had read, its slot unchanged since then (so not used in between), one that no flow reported
  and no rule kept, and unused for the whole idle window.
\<close>

theorem sweep_releases_idle:
  assumes "pool_ok c" "fa_run c now0 a" "a0 = touch_all now0 (lv_addresses live) a"
    and "sweep keep live (idle_bindings now0 a0 after idle limit) a0 now0 fs cur a1 now1 lg"
    and "fa_tick a1 \<noteq> - 1" "(f, b, t) \<in> set lg"
  shows "f \<in> set (idle_bindings now0 a0 after idle limit) \<and>
    (\<exists>i s. bd b (normalize_hostname (ib_domain f)) = Some i \<and> bi b i = Some s \<and> bi a0 i = Some s \<and>
      sl_domain s = ib_domain f \<and> sl_last_used s = ib_order f \<and> \<not> keep (sl_domain s) \<and>
      \<not> on_flow live (binding_at b i) \<and> idle \<le> t - sl_touched s)"
proof -
  have inv: "alloc_inv now0 a0" using run_inv [OF run_touch_all [OF assms(2)] assms(1)] assms(3) by simp
  have "\<forall>f \<in> set (idle_bindings now0 a0 after idle limit). still a0 idle now0 a0 f" if "fa_tick a0 \<noteq> - 1"
    using idle_still [OF _ that] inv by (auto simp: alloc_inv_def)
  from sweep_invariant [OF assms(4) inv this] have "released_well a0 keep live idle (f, b, t)"
    using assms(5,6) by blast
  moreover have "f \<in> set (idle_bindings now0 a0 after idle limit)" using sweep_log [OF assms(4)] assms(6) by force
  ultimately show ?thesis by (auto simp: released_well_def)
qed

section \<open>The pass on its own\<close>

definition gone :: "(string \<Rightarrow> bool) \<Rightarrow> live_snapshot \<Rightarrow> idle_binding \<Rightarrow> bool" where
  "gone keep live f \<longleftrightarrow> \<not> on_flow live (ib_binding f) \<and> \<not> keep (ib_domain f)"

text \<open>The stored names are those normalization leaves alone, as it does names without a space before their last dots.\<close>

definition normal_names :: "fake_ip_allocator \<Rightarrow> bool" where
  "normal_names a \<longleftrightarrow> (\<forall>d i. bd a d = Some i \<longrightarrow> normalize_hostname d = d)"

definition found_in :: "fake_ip_allocator \<Rightarrow> idle_binding \<Rightarrow> bool" where
  "found_in a f \<longleftrightarrow> (\<exists>i s. bd a (ib_domain f) = Some i \<and> bi a i = Some s \<and> sl_last_used s = ib_order f)"

lemma release_found:
  assumes inv: "alloc_inv now a" and nn: "normal_names a" and "found_in a f"
  shows "\<exists>a'. release_if_untouched (ib_domain f) (ib_order f) a = (True, a') \<and> alloc_inv now a' \<and>
    bd a' = (bd a)(ib_domain f := None) \<and> (\<forall>g. found_in a g \<longrightarrow> ib_domain g \<noteq> ib_domain f \<longrightarrow> found_in a' g)"
proof -
  let ?d = "ib_domain f"
  have c: "core now a" using inv by (simp add: alloc_inv_def)
  obtain i s where s: "bd a ?d = Some i" "bi a i = Some s" "sl_last_used s = ib_order f"
    using assms(3) by (auto simp: found_in_def)
  have d: "normalize_hostname ?d = ?d" using nn s(1) by (simp add: normal_names_def)
  have sd: "sl_domain s = ?d" using bound_slot [OF c s(1)] s(2) by auto
  have r: "release_if_untouched ?d (ib_order f) a = (True, notify (Released i) ((unbind i s a)\<lparr>fa_freed := fa_freed a @ [i]\<rparr>))"
    using release_unbind [OF c _ s(2), of ?d] s d by (simp add: release_if_untouched_def)
  let ?a = "notify (Released i) ((unbind i s a)\<lparr>fa_freed := fa_freed a @ [i]\<rparr>)"
  have m: "bd ?a = (bd a)(?d := None)" "bi ?a = (bi a)(i := None)"
    by (simp_all add: notify_def unbind_def delete_conv' sd)
  have "found_in ?a g" if "found_in a g" "ib_domain g \<noteq> ?d" for g
  proof -
    obtain j t where t: "bd a (ib_domain g) = Some j" "bi a j = Some t" "sl_last_used t = ib_order g"
      using \<open>found_in a g\<close> by (auto simp: found_in_def)
    have "j \<noteq> i" using bound_slot [OF c t(1)] s(2) sd that(2) by auto
    then show ?thesis using t that(2) unfolding found_in_def m by auto
  qed
  moreover have "alloc_inv now ?a" using release_if_untouched_inv [OF inv, of ?d "ib_order f"] r by simp
  ultimately show ?thesis using r m(1) by blast
qed

lemma judge_fold:
  assumes "alloc_inv now a" "normal_names a" "distinct (map ib_domain fs)" "\<forall>f \<in> set fs. found_in a f"
    and "fold (judge keep live) fs (cur, a, n) = (cur', a', n')"
  shows "n' = n + length (filter (gone keep live) fs) \<and>
    cur' = (if fs = [] then cur else cur\<lparr>rc_checked_upto := ib_order (last fs)\<rparr>) \<and>
    (\<forall>d. bd a' d = (if \<exists>f \<in> set fs. ib_domain f = d \<and> gone keep live f then None else bd a d))"
  using assms
proof (induction fs arbitrary: cur a n)
  case (Cons f fs)
  show ?case
  proof (cases "gone keep live f")
    case False
    then have "judge keep live f (cur, a, n) = (cur\<lparr>rc_checked_upto := ib_order f\<rparr>, a, n)"
      by (auto simp: judge_cases gone_def)
    then have "fold (judge keep live) fs (cur\<lparr>rc_checked_upto := ib_order f\<rparr>, a, n) = (cur', a', n')"
      using Cons.prems(5) by simp
    from Cons.IH [OF Cons.prems(1,2) _ _ this] show ?thesis using Cons.prems(3,4) False by auto
  next
    case True
    obtain b where b: "release_if_untouched (ib_domain f) (ib_order f) a = (True, b)" "alloc_inv now b"
      "bd b = (bd a)(ib_domain f := None)" "\<forall>g. found_in a g \<longrightarrow> ib_domain g \<noteq> ib_domain f \<longrightarrow> found_in b g"
      using release_found [OF Cons.prems(1,2)] Cons.prems(4) by (meson list.set_intros(1))
    have "judge keep live f (cur, a, n) = (cur\<lparr>rc_checked_upto := ib_order f\<rparr>, b, n + 1)"
      using True b(1) by (auto simp: judge_cases gone_def)
    then have f: "fold (judge keep live) fs (cur\<lparr>rc_checked_upto := ib_order f\<rparr>, b, n + 1) = (cur', a', n')"
      using Cons.prems(5) by simp
    have "normal_names b" using Cons.prems(2) b(3) by (auto simp: normal_names_def split: if_splits)
    moreover have "\<forall>g \<in> set fs. found_in b g" 
    proof
      fix g assume g: "g \<in> set fs"
      then have "ib_domain g \<in> set (map ib_domain fs)" by simp
      then have "ib_domain g \<noteq> ib_domain f" using Cons.prems(3) by auto
      then show "found_in b g" using b(4) Cons.prems(4) g by simp
    qed
    ultimately have "n' = n + 1 + length (filter (gone keep live) fs) \<and>
      cur' = (if fs = [] then cur\<lparr>rc_checked_upto := ib_order f\<rparr> else cur\<lparr>rc_checked_upto := ib_order (last fs)\<rparr>) \<and>
      (\<forall>d. bd a' d = (if \<exists>g \<in> set fs. ib_domain g = d \<and> gone keep live g then None else bd b d))"
      using Cons.IH [OF b(2) _ _ _ f] Cons.prems(3) by simp
    then show ?thesis using True b(3) by auto
  qed
qed simp

lemma idle_list:
  assumes "core now a" "fa_tick a \<noteq> - 1"
  shows "distinct (map ib_domain (idle_bindings now a after idle limit))"
    "\<forall>f \<in> set (idle_bindings now a after idle limit). found_in a f"
proof -
  let ?xs = "filter (\<lambda>x. idle_at now idle a x \<and> after < fst x) (sorted_list_of_set (fa_by_age a))"
  have fin: "finite (fa_by_age a)" using coreD(3) [OF assms(1)] finite_ages by metis
  have slot: "\<exists>s. bi a (snd x) = Some s \<and> sl_last_used s = fst x \<and> bd a (sl_domain s) = Some (snd x)" if "x \<in> set ?xs" for x
  proof -
    have "x \<in> fa_by_age a" using that fin by simp
    then have "x \<in> ages (bi a)" unfolding coreD(3) [OF assms(1)] .
    then obtain s where "bi a (snd x) = Some s" "sl_last_used s = fst x" by (cases x) (auto simp: in_ages)
    then show ?thesis using maps_okD [OF coreD(2) [OF assms(1)]] by blast
  qed
  have inj: "inj_on (\<lambda>x. ib_domain (idle_entry a x)) (set ?xs)"
  proof (rule inj_onI)
    fix x y assume xy: "x \<in> set ?xs" "y \<in> set ?xs" and e: "ib_domain (idle_entry a x) = ib_domain (idle_entry a y)"
    obtain s t where s: "bi a (snd x) = Some s" "sl_last_used s = fst x" "bd a (sl_domain s) = Some (snd x)"
      and t: "bi a (snd y) = Some t" "sl_last_used t = fst y" "bd a (sl_domain t) = Some (snd y)"
      using slot [OF xy(1)] slot [OF xy(2)] by blast
    have "sl_domain s = sl_domain t" using e s(1) t(1) by (simp add: idle_entry_def)
    then have "snd x = snd y" using s(3) t(3) by simp
    then show "x = y" using s t by (simp add: prod_eq_iff)
  qed
  have eq: "idle_bindings now a after idle limit = map (idle_entry a) (take limit ?xs)"
    using idle_bindings_core [OF assms] by (simp add: take_map)
  have "distinct (map (\<lambda>x. ib_domain (idle_entry a x)) (take limit ?xs))"
    unfolding distinct_map using inj_on_subset [OF inj set_take_subset, of limit] by (intro conjI distinct_take) simp_all
  then show "distinct (map ib_domain (idle_bindings now a after idle limit))" unfolding eq by (simp add: comp_def)
  show "\<forall>f \<in> set (idle_bindings now a after idle limit). found_in a f"
  proof
    fix f assume "f \<in> set (idle_bindings now a after idle limit)"
    then obtain x where x: "f = idle_entry a x" "x \<in> set ?xs" unfolding eq by (auto dest: in_set_takeD)
    obtain s where "bi a (snd x) = Some s" "sl_last_used s = fst x" "bd a (sl_domain s) = Some (snd x)"
      using slot [OF x(2)] by blast
    then show "found_in a f" unfolding found_in_def x(1) idle_entry_def by simp
  qed
qed

text \<open>The bindings a pass has to judge, and the names it has to release of them.\<close>

definition idle_slot :: "nat \<Rightarrow> fake_ip_allocator \<Rightarrow> nat \<Rightarrow> u64 \<Rightarrow> u32 \<Rightarrow> slot \<Rightarrow> bool" where
  "idle_slot now a idle after i s \<longleftrightarrow> bi a i = Some s \<and> idle \<le> now - sl_touched s \<and> after < sl_last_used s"

definition due :: "(string \<Rightarrow> bool) \<Rightarrow> live_snapshot \<Rightarrow> nat \<Rightarrow> fake_ip_allocator \<Rightarrow> nat \<Rightarrow> u64 \<Rightarrow> u64 \<Rightarrow> string \<Rightarrow> bool" where
  "due keep live now a idle after till d \<longleftrightarrow>
     (\<exists>i s. bd a d = Some i \<and> idle_slot now a idle after i s \<and> sl_last_used s \<le> till \<and>
        \<not> keep d \<and> \<not> on_flow live (binding_at a i))"

definition judged_upto :: "u64 \<Rightarrow> (u64 \<times> u32) list \<Rightarrow> u64" where
  "judged_upto after xs = (if xs = [] then after else fst (last xs))"

lemma cursor_judged:
  "rc_checked_upto cur = after \<Longrightarrow>
   rc_checked_upto (if map (idle_entry a) xs = [] then cur else cur\<lparr>rc_checked_upto := ib_order (last (map (idle_entry a) xs))\<rparr>) =
     judged_upto after xs"
  by (simp add: judged_upto_def last_map idle_entry_def)

lemma set_take_upto:
  assumes "sorted_wrt (\<lambda>x y. fst x < fst y) xs" "\<forall>x \<in> set xs. after < fst x"
  shows "set (take k xs) = {x \<in> set xs. fst x \<le> judged_upto after (take k xs)}"
proof -
  let ?t = "take k xs" and ?d = "drop k xs"
  have xs: "set xs = set ?t \<union> set ?d" by (metis append_take_drop_id set_append)
  have w: "sorted_wrt (\<lambda>x y. fst x < fst y) (?t @ ?d)" using assms(1) by simp
  have "fst x \<le> judged_upto after ?t" if "x \<in> set ?t" for x
  proof -
    have "?t \<noteq> []" using that by (metis list.set(1) empty_iff)
    then have e: "butlast ?t @ [last ?t] = ?t" by simp
    then have "sorted_wrt (\<lambda>x y. fst x < fst y) (butlast ?t @ [last ?t])" using w by (simp add: sorted_wrt_append)
    moreover have "x \<in> set (butlast ?t) \<or> x = last ?t" using that by (subst (asm) e [symmetric]) auto
    ultimately show ?thesis using \<open>?t \<noteq> []\<close> by (auto simp: judged_upto_def sorted_wrt_append intro: less_imp_le)
  qed
  moreover have "judged_upto after ?t < fst y" if "y \<in> set ?d" for y
  proof (cases "?t = []")
    case True
    then show ?thesis using assms(2) that by (auto simp: judged_upto_def dest: in_set_dropD)
  next
    case False
    then have "last ?t \<in> set ?t" by (rule last_in_set)
    then have "fst (last ?t) < fst y" using w that unfolding sorted_wrt_append by blast
    then show ?thesis using False by (simp add: judged_upto_def)
  qed
  ultimately show ?thesis unfolding xs by (auto simp: not_le [symmetric])
qed

lemma idle_walk:
  assumes c: "core now a" and t: "fa_tick a \<noteq> - 1"
  obtains xs where "idle_bindings now a after idle limit = map (idle_entry a) (take limit xs)"
    "set xs = {(sl_last_used s, i) | i s. idle_slot now a idle after i s}" "distinct xs"
    "set (take limit xs) = {x \<in> set xs. fst x \<le> judged_upto after (take limit xs)}"
proof
  let ?xs = "filter (\<lambda>x. idle_at now idle a x \<and> after < fst x) (sorted_list_of_set (fa_by_age a))"
  have fin: "finite (fa_by_age a)" using coreD(3) [OF c] finite_ages by metis
  show "idle_bindings now a after idle limit = map (idle_entry a) (take limit ?xs)"
    using idle_bindings_core [OF assms] by (simp add: take_map)
  show set: "set ?xs = {(sl_last_used s, i) | i s. idle_slot now a idle after i s}"
    using fin unfolding coreD(3) [OF c] by (auto simp: in_ages idle_at_def idle_slot_def split: option.splits)
  show "distinct ?xs" by simp
  have "sorted_wrt (\<lambda>x y. fst x < fst y) ?xs"
  proof (rule sorted_wrt_mono_rel [OF _ sorted_wrt_filter [OF strict_sorted_list_of_set]])
    fix x y assume "x \<in> set ?xs" "y \<in> set ?xs" and lt: "x < y"
    then obtain i s j u where x: "x = (sl_last_used s, i)" "bi a i = Some s" and y: "y = (sl_last_used u, j)" "bi a j = Some u"
      unfolding set by (auto simp: idle_slot_def)
    have "sl_last_used s \<le> fa_tick a" using coreD(4) [OF c] x(2) unfolding slots_ok_def by blast
    then have "sl_last_used s \<noteq> - 1" using t word_order.extremum_uniqueI by metis
    then have "sl_last_used s \<noteq> sl_last_used u"
      using coreD(5) [OF c] x y lt unfolding order_ok_def by (metis less_irrefl option.inject)
    then show "fst x < fst y" using lt x(1) y(1) by (auto simp: less_prod_def)
  qed
  then show "set (take limit ?xs) = {x \<in> set ?xs. fst x \<le> judged_upto after (take limit ?xs)}"
    by (rule set_take_upto) simp
qed

lemma idle_due:
  assumes c: "core now a" and xs: "set xs = {(sl_last_used s, i) | i s. idle_slot now a idle after i s}"
    and t: "set ys = {x \<in> set xs. fst x \<le> till}"
  shows "(\<exists>f \<in> set (map (idle_entry a) ys). ib_domain f = d \<and> gone keep live f) \<longleftrightarrow> due keep live now a idle after till d"
proof -
  have m: "bd a d = Some i \<longleftrightarrow> (\<exists>s. bi a i = Some s \<and> sl_domain s = d)" for i
    using coreD(2) [OF c] by (simp add: maps_ok_def)
  show ?thesis
    unfolding due_def m set_map t xs
    by (auto simp: gone_def idle_entry_def idle_slot_def; force)
qed

lemma judged_count:
  assumes xs: "set xs = {(sl_last_used s, i) | i s. idle_slot now a idle after i s}" "distinct xs"
    and t: "set (take k xs) = {x \<in> set xs. fst x \<le> till}"
  shows "card {i. \<exists>s. idle_slot now a idle after i s \<and> sl_last_used s \<le> till} =
    min k (card {i. \<exists>s. idle_slot now a idle after i s})"
proof -
  have inj: "inj_on snd (set xs)" unfolding xs(1) by (auto simp: inj_on_def idle_slot_def)
  have "{i. \<exists>s. idle_slot now a idle after i s \<and> sl_last_used s \<le> till} = snd ` set (take k xs)"
    unfolding t xs(1) by force
  moreover have "{i. \<exists>s. idle_slot now a idle after i s} = snd ` set xs" unfolding xs(1) by force
  ultimately show ?thesis
    using card_image [OF inj] card_image [OF inj_on_subset [OF inj set_take_subset], of k] xs(2)
    by (simp add: distinct_card min.commute)
qed

text \<open>
  C18. What an undisturbed pass does is exact. A name loses its address if and only if it is due: no
  rule keeps it, no flow is on it, it was unused for the idle window, and its last use lies past the
  position judged before under the same rules and not past the new one; all other names stay. The
  pass returns how many names it released, the cursor carries the rules' stamp and stands at the
  last binding judged (where it was, if there was none), and exactly the budget's number of idle
  bindings, or all when there are fewer, lie between the two positions. The stored names are
  assumed to be fixed points of normalization, the use counter not to be saturated.
\<close>

theorem run_once_exact:
  assumes "pool_ok c" "fa_run c now (br_allocator r)" "a = touch_all now (lv_addresses (br_live r)) (br_allocator r)"
    and "fa_tick a \<noteq> - 1" "normal_names a" "after = rc_checked_upto (moved_cursor (br_live r) (br_cursor r))"
    and "run_once keep now r = (n, r')" "till = rc_checked_upto (br_cursor r')"
  shows "(\<forall>d. bd (br_allocator r') d = (if due keep (br_live r) now a (br_idle r) after till d then None else bd a d)) \<and>
    n = card {d. due keep (br_live r) now a (br_idle r) after till d} \<and>
    rc_stamp (br_cursor r') = lv_policy_stamp (br_live r) \<and>
    (till = after \<or> after < till \<and> (\<exists>i s. idle_slot now a (br_idle r) after i s \<and> sl_last_used s = till)) \<and>
    card {i. \<exists>s. idle_slot now a (br_idle r) after i s \<and> sl_last_used s \<le> till} =
      min RELEASE_BUDGET_PER_RUN (card {i. \<exists>s. idle_slot now a (br_idle r) after i s})"
proof -
  let ?B = RELEASE_BUDGET_PER_RUN and ?cur = "moved_cursor (br_live r) (br_cursor r)" and ?live = "br_live r"
  let ?idle = "idle_bindings now a after (br_idle r) ?B"
  have inv: "alloc_inv now a" using run_inv [OF run_touch_all [OF assms(2)] assms(1)] assms(3) by simp
  then have c: "core now a" by (simp add: alloc_inv_def)
  obtain xs where idle: "?idle = map (idle_entry a) (take ?B xs)"
    and xs: "set xs = {(sl_last_used s, i) | i s. idle_slot now a (br_idle r) after i s}" "distinct xs"
    and tk: "set (take ?B xs) = {x \<in> set xs. fst x \<le> judged_upto after (take ?B xs)}"
    by (rule idle_walk [OF c assms(4)])
  obtain cur' a' n' where f: "fold (judge keep ?live) ?idle (?cur, a, 0) = (cur', a', n')" using prod_cases3 by blast
  then have r': "br_allocator r' = a'" "br_cursor r' = cur'" "n = n'" using assms(3,6,7) by (auto simp: run_once_def Let_def)
  note j = judge_fold [OF inv assms(5) idle_list [OF c assms(4)] f]
  have "cur' = (if ?idle = [] then ?cur else ?cur\<lparr>rc_checked_upto := ib_order (last ?idle)\<rparr>)" using j by blast
  then have till: "till = judged_upto after (take ?B xs)"
    using cursor_judged [OF assms(6) [symmetric], of a "take ?B xs"] by (simp only: idle assms(8) r'(2))
  note d = idle_due [OF c xs(1) tk [folded till], of _ keep ?live, folded idle]
  have "n = card {d. due keep ?live now a (br_idle r) after till d}"
  proof -
    have "distinct (map ib_domain (filter (gone keep ?live) ?idle))" by (rule distinct_map_filter [OF idle_list(1) [OF c assms(4)]])
    then have "length (filter (gone keep ?live) ?idle) = card (ib_domain ` set (filter (gone keep ?live) ?idle))"
      by (metis distinct_card length_map set_map)
    moreover have "ib_domain ` set (filter (gone keep ?live) ?idle) = {d. due keep ?live now a (br_idle r) after till d}"
      by (auto simp: image_iff simp flip: d)
    ultimately show ?thesis using j r'(3) by simp
  qed
  moreover have "rc_stamp (br_cursor r') = lv_policy_stamp ?live"
    using j r'(2) by (auto simp: moved_cursor_def)
  moreover have "till = after \<or> after < till \<and> (\<exists>i s. idle_slot now a (br_idle r) after i s \<and> sl_last_used s = till)"
  proof (cases "take ?B xs = []")
    case False
    then have "last (take ?B xs) \<in> set xs" using last_in_set in_set_takeD by metis
    then obtain i s where "last (take ?B xs) = (sl_last_used s, i)" "idle_slot now a (br_idle r) after i s"
      unfolding xs(1) by blast
    moreover have "till = sl_last_used s" using calculation(1) False till by (simp add: judged_upto_def)
    ultimately show ?thesis unfolding idle_slot_def by blast
  qed (simp add: till judged_upto_def)
  ultimately show ?thesis using j d r'(1) judged_count [OF xs tk [folded till]] by simp
qed

section \<open>A concrete pass\<close>

definition tiny_releaser :: binding_releaser where
  "tiny_releaser = \<lparr>br_allocator = tiny_one, br_live = lv_publish [] 1, br_idle = 5,
     br_cursor = \<lparr>rc_checked_upto = 0, rc_stamp = 0\<rparr>\<rparr>"

lemma tiny_touch: "touch_all 7 [] tiny_one = tiny_one" by (simp add: touch_all_def)

lemma tiny_idle: "idle_bindings 7 tiny_one 0 5 limit = take limit [\<lparr>ib_order = 1, ib_domain = ''a.example'', ib_binding = binding_at tiny_one 2\<rparr>]"
  by (cases limit) (simp_all add: idle_bindings_def tiny_one_def less_prod_def)

theorem run_once_exact_witness:
  "bd (br_allocator (snd (run_once (\<lambda>_. False) 7 tiny_releaser))) ''a.example'' = None \<and>
   fst (run_once (\<lambda>_. False) 7 tiny_releaser) = 1"
proof -
  let ?s = "\<lparr>sl_domain = ''a.example'', sl_last_used = 1, sl_touched = 0\<rparr>"
  have t: "fa_tick tiny_one \<noteq> - 1" by code_simp
  have b: "bd tiny_one d = Some i \<longleftrightarrow> d = ''a.example'' \<and> i = 2" "bi tiny_one i = Some s \<longleftrightarrow> i = 2 \<and> s = ?s" for d i s
    by (auto simp: tiny_one_def)
  have "normalize_hostname ''a.example'' = ''a.example''" by code_simp
  then have nn: "normal_names tiny_one" by (simp add: normal_names_def b)
  have r: "br_allocator tiny_releaser = tiny_one" "lv_addresses (br_live tiny_releaser) = []" "br_idle tiny_releaser = 5"
    "rc_checked_upto (moved_cursor (br_live tiny_releaser) (br_cursor tiny_releaser)) = 0"
    by (simp_all add: tiny_releaser_def moved_cursor_def lv_publish_def)
  have o: "\<not> on_flow (br_live tiny_releaser) b" for b by (simp add: r on_flow_def split: option.split)
  let ?r = "run_once (\<lambda>_. False) 7 tiny_releaser"
  have e: "?r = (fst ?r, snd ?r)" by simp
  have u: "rc_checked_upto (br_cursor (snd ?r)) = 1"
    by (simp add: run_once_def Let_def split_beta r tiny_touch tiny_idle RELEASE_BUDGET_PER_RUN_def judge_cases)
  have d: "due (\<lambda>_. False) (br_live tiny_releaser) 7 tiny_one 5 0 1 x \<longleftrightarrow> x = ''a.example''" for x
    by (auto simp: due_def idle_slot_def b o)
  have "fa_run tiny_pool 7 (br_allocator tiny_releaser)" "tiny_one = touch_all 7 (lv_addresses (br_live tiny_releaser)) (br_allocator tiny_releaser)"
    using tiny_run_one by (simp_all add: r tiny_touch)
  from run_once_exact [OF tiny_ok this t nn r(4) [symmetric] e u [symmetric]] show ?thesis by (simp add: d r(3))
qed

theorem sweep_releases_idle_witness:
  "\<exists>i s. bd tiny_one ''a.example'' = Some i \<and> bi tiny_one i = Some s \<and> 5 \<le> 7 - sl_touched s"
proof -
  let ?f = "\<lparr>ib_order = 1, ib_domain = ''a.example'', ib_binding = binding_at tiny_one 2\<rparr>" and ?live = "lv_publish [] 1"
  let ?cur = "\<lparr>rc_checked_upto = 0, rc_stamp = 1\<rparr>"
  let ?j = "judge (\<lambda>_. False) ?live ?f (?cur, tiny_one, 0)"
  have n: "snd (snd ?j) \<noteq> 0" "fa_tick (fst (snd ?j)) \<noteq> - 1" by code_simp+
  have "sweep (\<lambda>_. False) ?live [?f] tiny_one 7 [?f] ?cur tiny_one 7 []" by (rule sweep.start)
  from sweep.judged [OF this, of "fst ?j" "fst (snd ?j)" "snd (snd ?j)"] n(1)
  have sw: "sweep (\<lambda>_. False) ?live (idle_bindings 7 tiny_one 0 5 1) tiny_one 7 [] (fst ?j) (fst (snd ?j)) 7 [(?f, tiny_one, 7)]"
    by (simp add: tiny_idle)
  have "normalize_hostname ''a.example'' = ''a.example''" by code_simp
  moreover have "tiny_one = touch_all 7 (lv_addresses ?live) tiny_one" by (simp add: tiny_touch lv_publish_def)
  ultimately show ?thesis
    using sweep_releases_idle [OF tiny_ok tiny_run_one _ sw n(2), of ?f tiny_one 7] by auto
qed

end
