(* ===== verification/Decision_Input.thy ===== *)
theory Decision_Input
  imports Rule_Book App_Identity
begin

text \<open>
  The input side of a decision: \<open>decision_pipeline.rs\<close> (the raw input), \<open>decision_normalization.rs\<close>
  (its canonical form), \<open>decision_lookup.rs\<close> (what the cache knows of the destination) and
  \<open>decision_engine_input.rs\<close> (the normalization itself), all under \<open>src/core/domain/src\<close>. The
  \<open>idna\<close> crate is the parameter \<open>idna\<close> (the ASCII form of a name, or failure) and Unicode
  lowercasing the parameter \<open>lc\<close>. Times are seconds, identifiers of processes numbers.
\<close>

section \<open>Raw input\<close>

datatype observation_source = WfpCallback | TestHarness

record process_context =
  pc_pid :: nat
  pc_process_name :: "string option"
  pc_process_path :: "string option"
  pc_parent_pid :: "nat option"
  pc_browser_hint :: bool

record protocol_hints =
  ph_ip_protocol :: "nat option"
  ph_destination_port :: "nat option"

record decision_feature_flags =
  ff_browser_stub_experimental :: bool

datatype adapter_availability = AdapterAvailable | AdapterUnavailable

record interface_availability_snapshot =
  ia_primary :: adapter_availability
  ia_secondary :: "adapter_availability option"

record runtime_input =
  ri_process_context :: process_context
  ri_destination_hostname :: "string option"
  ri_destination_ip :: "ip_addr option"
  ri_protocol_hints :: protocol_hints
  ri_active_revision_id :: string
  ri_route_behavior_mode :: route_behavior_mode
  ri_interface_availability :: interface_availability_snapshot
  ri_observed_at :: nat
  ri_observation_source :: observation_source
  ri_feature_flags :: decision_feature_flags

section \<open>Canonical input\<close>

datatype normalization_warning =
  Ipv4MappedIpv6NormalizedToIpv4 u128 u32
| ApplicationBareProcessNameWeakIdentity string
| ApplicationPathStripped string string
| ApplicationExeSuffixAdded string
| DomainTrailingDotRemoved
| DomainPunycodeEncoded string string
| ZoneLeadingDotRemoved string

datatype normalization_error =
  DomainEmpty
| DomainInvalidCharacters string
| DomainIdnaFailed string
| DomainMalformedLabels string
| ZoneNameEmpty
| ZoneNameContainsWhitespace string
| ZoneNameInvalidCharacters string
| ApplicationNameEmpty

datatype normalized_hostname =
  Valid string | HostUnavailable | Invalid string normalization_error

fun hostname_is_usable :: "normalized_hostname \<Rightarrow> bool" where
  "hostname_is_usable (Valid _) = True"
| "hostname_is_usable _ = False"

datatype normalized_ip = ValidIpv4 u32 | IpUnavail | ValidIpv6 u128

fun ip_is_usable :: "normalized_ip \<Rightarrow> bool" where
  "ip_is_usable IpUnavail = False"
| "ip_is_usable _ = True"

record normalized_app_identity =
  na_process_name :: string
  na_original_path :: "string option"
  na_warnings :: "normalization_warning list"

datatype input_availability_signal = HostnameUnavailable | IpUnavailable | AppContextUnavailable

record match_class_availability =
  mca_exact_fqdn :: "normalization_error option"
  mca_suffix_domain :: "normalization_error option"
  mca_zone :: "normalization_error option"
  mca_exact_ip :: "normalization_error option"
  mca_application :: "normalization_error option"

definition all_available :: "match_class_availability \<Rightarrow> bool" where
  "all_available m \<longleftrightarrow> mca_exact_fqdn m = None \<and> mca_suffix_domain m = None \<and> mca_zone m = None \<and>
     mca_exact_ip m = None \<and> mca_application m = None"

definition all_address_classes_blocked :: "match_class_availability \<Rightarrow> bool" where
  "all_address_classes_blocked m \<longleftrightarrow> mca_exact_fqdn m \<noteq> None \<and> mca_suffix_domain m \<noteq> None \<and>
     mca_zone m \<noteq> None \<and> mca_exact_ip m \<noteq> None"

definition nothing_available :: "match_class_availability \<Rightarrow> bool" where
  "nothing_available m \<longleftrightarrow> all_address_classes_blocked m \<and> mca_application m \<noteq> None"

record normalized_decision_input =
  ni_hostname :: normalized_hostname
  ni_ip :: normalized_ip
  ni_app_identity :: "normalized_app_identity option"
  ni_match_class_availability :: match_class_availability
  ni_availability_signals :: "input_availability_signal list"
  ni_warnings :: "normalization_warning list"

section \<open>Lookup results\<close>

datatype lookup_direction = HostnameToIp | IpToHostname | BothDirections

datatype cache_entry_state =
  Fresh | StaleUsable | StaleNotUsable | Missing | Conflicting | NegativeCached

fun is_usable_for_matching :: "cache_entry_state \<Rightarrow> bool" where
  "is_usable_for_matching Fresh = True"
| "is_usable_for_matching StaleUsable = True"
| "is_usable_for_matching _ = False"

datatype lookup_source = DnsResolution | CacheHit | ManualRefresh | ObservedFromTraffic

record resolved_address_entry =
  ra_addr :: ip_addr
  ra_cache_state :: cache_entry_state
  ra_source :: lookup_source
  ra_resolved_at :: "nat option"
  ra_ttl_seconds :: "nat option"

datatype lookup_error = LookupTimeout nat | DnsResolveFailed | CacheUnavailable

datatype do_resolve_policy = CacheOnly | AllowWithTimeout nat | CacheWithBackgroundRefresh

definition CACHE_REFRESH_MIN_SECS :: u32 where "CACHE_REFRESH_MIN_SECS = 60"

definition CACHE_REFRESH_MAX_SECS :: u32 where "CACHE_REFRESH_MAX_SECS = 86400"

definition CACHE_REFRESH_DEFAULT_SECS :: u32 where "CACHE_REFRESH_DEFAULT_SECS = 300"

definition clamp_cache_refresh_secs :: "u32 \<Rightarrow> u32" where
  "clamp_cache_refresh_secs v =
     (if v < CACHE_REFRESH_MIN_SECS then CACHE_REFRESH_MIN_SECS
      else if v > CACHE_REFRESH_MAX_SECS then CACHE_REFRESH_MAX_SECS else v)"

record freshness_thresholds =
  ft_fresh_max_age_secs :: u32
  ft_stale_usable_max_age_secs :: u32
  ft_fallback_ttl_secs :: u32
  ft_negative_ttl_secs :: u32

definition default_production :: freshness_thresholds where
  "default_production = \<lparr>ft_fresh_max_age_secs = 300, ft_stale_usable_max_age_secs = 2592000,
     ft_fallback_ttl_secs = 300, ft_negative_ttl_secs = 30\<rparr>"

record lookup_standard_signals =
  ls_cache_hit :: bool
  ls_freshness :: "cache_entry_state option"
  ls_source :: "lookup_source option"
  ls_errors :: "lookup_error list"

record lookup_extended_metadata =
  lx_all_resolved_ips :: "resolved_address_entry list"
  lx_selected_entry_ttl_secs :: "nat option"
  lx_selected_entry_resolved_at :: "nat option"

record lookup_explain_data =
  le_standard :: lookup_standard_signals
  le_extended :: lookup_extended_metadata

record lookup_result =
  lr_selected_ip :: "resolved_address_entry option"
  lr_is_multi_ip :: bool
  lr_explain_data :: lookup_explain_data

definition has_usable_ip :: "lookup_result \<Rightarrow> bool" where
  "has_usable_ip l =
     (case lr_selected_ip l of Some e \<Rightarrow> is_usable_for_matching (ra_cache_state e) | None \<Rightarrow> False)"

section \<open>Normalization\<close>

definition MAX_HOSTNAME_OCTETS :: int where "MAX_HOSTNAME_OCTETS = 253"

definition MAX_LABEL_OCTETS :: int where "MAX_LABEL_OCTETS = 63"

definition dns_labels_are_well_formed :: "string \<Rightarrow> bool" where
  "dns_labels_are_well_formed host =
     (if host = [] \<or> int (length host) > MAX_HOSTNAME_OCTETS then False
      else list_all (\<lambda>label. label \<noteq> [] \<and> int (length label) \<le> MAX_LABEL_OCTETS) (labels host))"

definition host_char :: "char \<Rightarrow> bool" where
  "host_char c \<longleftrightarrow> ascii_alphanumeric c \<or> c = CHR ''.'' \<or> c = CHR ''-'' \<or> c = CHR ''_''"

definition normalize_hostname_value ::
  "(string \<Rightarrow> string option) \<Rightarrow> string option \<Rightarrow> normalized_hostname \<times> normalization_warning list" where
  "normalize_hostname_value idna raw =
     (case raw of None \<Rightarrow> (HostUnavailable, [])
      | Some h \<Rightarrow>
          (let trimmed = trim h in
           if trimmed = [] then (Invalid h DomainEmpty, [])
           else
             let (without_dot, warnings) = (case strip_suffix_str ''.'' trimmed of
                   Some stripped \<Rightarrow> (stripped, [DomainTrailingDotRemoved])
                 | None \<Rightarrow> (trimmed, []))
             in
             if is_ascii without_dot then
               (let lowercased = to_ascii_lowercase without_dot in
                if list_all host_char lowercased then
                  if \<not> dns_labels_are_well_formed lowercased
                  then (Invalid h (DomainMalformedLabels h), warnings)
                  else (Valid lowercased, warnings)
                else (Invalid h (DomainInvalidCharacters h), warnings))
             else
               (case idna without_dot of
                  Some ascii \<Rightarrow>
                    (let warnings' = warnings @
                           (if ascii \<noteq> without_dot then [DomainPunycodeEncoded without_dot ascii] else [])
                     in if \<not> dns_labels_are_well_formed ascii
                        then (Invalid h (DomainMalformedLabels h), warnings')
                        else (Valid ascii, warnings'))
                | None \<Rightarrow> (Invalid h (DomainIdnaFailed h), warnings))))"

definition hostname_ace :: "(string \<Rightarrow> string option) \<Rightarrow> string \<Rightarrow> string option" where
  "hostname_ace idna raw =
     (case fst (normalize_hostname_value idna (Some raw)) of Valid host \<Rightarrow> Some host | _ \<Rightarrow> None)"

definition normalize_ip_value :: "ip_addr option \<Rightarrow> normalized_ip \<times> normalization_warning list" where
  "normalize_ip_value raw =
     (case raw of None \<Rightarrow> (IpUnavail, [])
      | Some a \<Rightarrow>
          (case (a, canonical_ip a) of
             (V6 original, V4 normalized) \<Rightarrow>
               (ValidIpv4 normalized, [Ipv4MappedIpv6NormalizedToIpv4 original normalized])
           | (_, V4 v4) \<Rightarrow> (ValidIpv4 v4, [])
           | (_, V6 v6) \<Rightarrow> (ValidIpv6 v6, [])))"

text \<open>\<open>trim_end_matches(".exe")\<close> removes the suffix as often as it is there.\<close>

function trim_end_exe :: "string \<Rightarrow> string" where
  "trim_end_exe s = (case strip_suffix_str exe_suffix s of None \<Rightarrow> s | Some r \<Rightarrow> trim_end_exe r)"
  by pat_completeness auto
termination
  by (relation "measure length") (auto dest!: strip_suffix_str_SomeD simp: exe_suffix_def)

declare trim_end_exe.simps [simp del]

definition normalize_app_identity_value ::
  "(string \<Rightarrow> string) \<Rightarrow> process_context \<Rightarrow> normalized_app_identity option \<times> input_availability_signal list" where
  "normalize_app_identity_value lc ctx =
     (case pc_process_name ctx of None \<Rightarrow> (None, [AppContextUnavailable])
      | Some raw_name \<Rightarrow>
          (let trimmed = trim raw_name in
           if trimmed = [] then (None, [AppContextUnavailable])
           else
             let contains_sep = list_ex path_sep trimmed;
                 original_path = or_opt (pc_process_path ctx) (if contains_sep then Some trimmed else None);
                 filename = (if contains_sep
                   then (case filter (\<lambda>s. s \<noteq> []) (split_by path_sep trimmed) of [] \<Rightarrow> trimmed | ss \<Rightarrow> last ss)
                   else trimmed);
                 w1 = (if contains_sep then [ApplicationPathStripped trimmed filename] else []);
                 lowercased = lc filename;
                 (process_name, w2) = (if suffix exe_suffix lowercased then (lowercased, [])
                   else (lowercased @ exe_suffix, [ApplicationExeSuffixAdded lowercased]))
             in
             if trim_end_exe process_name = [] then (None, [AppContextUnavailable])
             else
               let w3 = (if original_path = None \<and> \<not> contains_sep
                         then [ApplicationBareProcessNameWeakIdentity process_name] else [])
               in (Some \<lparr>na_process_name = process_name, na_original_path = original_path,
                         na_warnings = w1 @ w2 @ w3\<rparr>, [])))"

definition derive_match_class_availability ::
  "normalized_hostname \<Rightarrow> normalized_app_identity option \<Rightarrow> match_class_availability" where
  "derive_match_class_availability hostname app_identity =
     (let hostname_block = (case hostname of Valid _ \<Rightarrow> None | HostUnavailable \<Rightarrow> Some DomainEmpty
            | Invalid _ error \<Rightarrow> Some error);
          app_block = (if app_identity = None then Some ApplicationNameEmpty else None)
      in \<lparr>mca_exact_fqdn = hostname_block, mca_suffix_domain = hostname_block, mca_zone = hostname_block,
          mca_exact_ip = None, mca_application = app_block\<rparr>)"

definition normalize_runtime_input ::
  "(string \<Rightarrow> string option) \<Rightarrow> (string \<Rightarrow> string) \<Rightarrow> runtime_input \<Rightarrow> normalized_decision_input" where
  "normalize_runtime_input idna lc input =
     (let (hostname, hn_warnings) = normalize_hostname_value idna (ri_destination_hostname input);
          (ip, ip_warnings) = normalize_ip_value (ri_destination_ip input);
          (app_identity, app_signals) = normalize_app_identity_value lc (ri_process_context input)
      in \<lparr>ni_hostname = hostname, ni_ip = ip, ni_app_identity = app_identity,
          ni_match_class_availability = derive_match_class_availability hostname app_identity,
          ni_availability_signals =
            (if hostname = HostUnavailable then [HostnameUnavailable] else []) @
            (if ip = IpUnavail then [IpUnavailable] else []) @ app_signals,
          ni_warnings = hn_warnings @ ip_warnings\<rparr>)"

section \<open>Canonical host names\<close>

text \<open>What a valid normalized name of the ASCII branch looks like.\<close>

definition host_ok :: "string \<Rightarrow> bool" where
  "host_ok h \<longleftrightarrow> dns_labels_are_well_formed h \<and> list_all host_char h \<and> to_ascii_lowercase h = h"

text \<open>Punycode output is ASCII, whatever the tables of the crate say.\<close>

definition idna_ascii :: "(string \<Rightarrow> string option) \<Rightarrow> bool" where
  "idna_ascii idna \<longleftrightarrow> (\<forall>s a. idna s = Some a \<longrightarrow> is_ascii a)"

lemma host_char_graphic: "host_char c \<Longrightarrow> graphic c"
  by (auto simp: host_char_def graphic_def ascii_alphanumeric_def ascii_alphabetic_def ascii_upper_def
      ascii_lower_def ascii_digit_def)

lemma host_char_ascii: "host_char c \<Longrightarrow> byte_of c < 128"
  by (auto simp: host_char_def ascii_alphanumeric_def ascii_alphabetic_def ascii_upper_def
      ascii_lower_def ascii_digit_def)

lemma well_formed_labels:
  "dns_labels_are_well_formed h \<Longrightarrow> h \<noteq> [] \<and> (\<forall>l \<in> set (labels h). l \<noteq> [])"
  by (auto simp: dns_labels_are_well_formed_def list_all_iff split: if_splits)

lemma well_formed_no_trailing_dot: "dns_labels_are_well_formed h \<Longrightarrow> strip_suffix_str ''.'' h = None"
proof (rule ccontr)
  assume w: "dns_labels_are_well_formed h" and n: "strip_suffix_str ''.'' h \<noteq> None"
  then obtain r where "strip_suffix_str ''.'' h = Some r" by auto
  from strip_suffix_str_SomeD [OF this] have "labels h = labels r @ labels []"
    using labels_sep [of r "[]"] by simp
  then have "[] \<in> set (labels h)" by simp
  then show False using well_formed_labels [OF w] by blast
qed

lemma trim_host:
  assumes "list_all host_char h" "h \<noteq> []"
  shows "trim h = h"
  using assms host_char_graphic trim_graphic [of h] by (auto simp: list_all_iff)

lemma hostname_ace_fixed: "host_ok h \<Longrightarrow> hostname_ace idna h = Some h"
proof -
  assume "host_ok h"
  then have o: "dns_labels_are_well_formed h" "list_all host_char h" "to_ascii_lowercase h = h" "h \<noteq> []"
    using well_formed_labels by (auto simp: host_ok_def)
  have "is_ascii h" using o(2) host_char_ascii by (auto simp: is_ascii_def list_all_iff)
  then show ?thesis
    using o trim_host [OF o(2,4)] well_formed_no_trailing_dot [OF o(1)]
    by (simp add: hostname_ace_def normalize_hostname_value_def Let_def)
qed

definition bare_host :: "string \<Rightarrow> string" where
  "bare_host raw = (case strip_suffix_str ''.'' (trim raw) of Some r \<Rightarrow> r | None \<Rightarrow> trim raw)"

lemma hostname_ace_cases:
  assumes "hostname_ace idna raw = Some h"
  shows "dns_labels_are_well_formed h \<and>
    (if is_ascii (bare_host raw) then h = to_ascii_lowercase (bare_host raw) \<and> list_all host_char h
     else idna (bare_host raw) = Some h)"
  using assms unfolding hostname_ace_def normalize_hostname_value_def bare_host_def Let_def
  by (auto split: option.splits if_splits)

lemma is_ascii_trim: "is_ascii s \<Longrightarrow> is_ascii (trim s)"
  by (auto simp: trim_ascii is_ascii_def dest!: set_dropWhileD)

lemma is_ascii_bare_host: "is_ascii raw \<Longrightarrow> is_ascii (bare_host raw)"
  using is_ascii_trim [of raw] by (auto simp: bare_host_def split: option.split dest: strip_suffix_str_SomeD)

lemma hostname_ace_ok:
  assumes "is_ascii raw" "hostname_ace idna raw = Some h"
  shows "host_ok h"
  using hostname_ace_cases [OF assms(2)] is_ascii_bare_host [OF assms(1)] by (auto simp: host_ok_def)

lemma hostname_ace_fixed_ok:
  assumes "idna_ascii idna" "hostname_ace idna h = Some h"
  shows "host_ok h"
proof (rule hostname_ace_ok [OF _ assms(2)])
  show "is_ascii h"
    using hostname_ace_cases [OF assms(2)] assms(1) is_ascii_lower [of "bare_host h"]
    by (cases "is_ascii (bare_host h)") (auto simp: idna_ascii_def simp del: is_ascii_lower)
qed

lemma hostname_ace_ascii:
  assumes "idna_ascii idna" "hostname_ace idna raw = Some h"
  shows "is_ascii h"
  using hostname_ace_cases [OF assms(2)] assms(1)
  by (cases "is_ascii (bare_host raw)") (auto simp: idna_ascii_def)

lemma well_formed_bounds:
  "dns_labels_are_well_formed h \<longleftrightarrow>
     h \<noteq> [] \<and> length h \<le> 253 \<and> list_all (\<lambda>l. l \<noteq> [] \<and> length l \<le> 63) (labels h)"
  by (auto simp: dns_labels_are_well_formed_def MAX_HOSTNAME_OCTETS_def MAX_LABEL_OCTETS_def list_all_iff)

text \<open>
  C28. What a normalized host name is. Every result of \<open>hostname_ace\<close>, of names in any script, is
  ASCII, not empty, at most 253 octets long, with labels of one to sixty-three octets. When the
  reported name, without its outer blanks and trailing dot, is ASCII, the result also consists of
  lowercase host characters. A name is its own normalized form exactly when both hold: so a result
  of the IDN branch, which checks the labels of the crate's answer and not its characters, is stable
  only if that answer consists of lowercase host characters.
\<close>

theorem hostname_ace_canonical:
  assumes "idna_ascii idna"
  shows "(hostname_ace idna raw = Some h \<longrightarrow>
      is_ascii h \<and> h \<noteq> [] \<and> length h \<le> 253 \<and> list_all (\<lambda>l. l \<noteq> [] \<and> length l \<le> 63) (labels h) \<and>
      (is_ascii (bare_host raw) \<longrightarrow> list_all host_char h \<and> to_ascii_lowercase h = h)) \<and>
    (hostname_ace idna h = Some h \<longleftrightarrow>
      h \<noteq> [] \<and> length h \<le> 253 \<and> list_all (\<lambda>l. l \<noteq> [] \<and> length l \<le> 63) (labels h) \<and>
      list_all host_char h \<and> to_ascii_lowercase h = h)"
proof -
  have "hostname_ace idna h = Some h \<longleftrightarrow> host_ok h"
    using assms hostname_ace_fixed hostname_ace_fixed_ok by blast
  moreover have "is_ascii h \<and> dns_labels_are_well_formed h \<and> (is_ascii (bare_host raw) \<longrightarrow> list_all host_char h \<and> to_ascii_lowercase h = h)"
    if "hostname_ace idna raw = Some h"
    using hostname_ace_cases [OF that] hostname_ace_ascii [OF assms that] by auto
  ultimately show ?thesis by (simp add: host_ok_def well_formed_bounds)
qed

text \<open>A crate answer for one name, and the name: two Cyrillic labels in UTF-8.\<close>

definition idn_name :: string where
  "idn_name = map char_of [0xD1, 0x82, 0xD0, 0xB5, 0xD1, 0x81, 0xD1, 0x82, 0x2E, 0xD1, 0x80, 0xD1, 0x84 :: nat]"

definition sample_idna :: "string \<Rightarrow> string option" where
  "sample_idna s = (if s = idn_name then Some ''xn--e1aybc.xn--p1ai'' else None)"

lemma sample_idna_ascii: "idna_ascii sample_idna"
  by (simp add: idna_ascii_def sample_idna_def is_ascii_def)

theorem hostname_ace_canonical_witness:
  "length ''xn--e1aybc.xn--p1ai'' \<le> 253 \<and> hostname_ace sample_idna idn_name = Some ''xn--e1aybc.xn--p1ai'' \<and>
   hostname_ace sample_idna ''xn--e1aybc.xn--p1ai'' = Some ''xn--e1aybc.xn--p1ai''"
proof -
  let ?h = "''xn--e1aybc.xn--p1ai''"
  have "hostname_ace sample_idna idn_name = Some ?h" by code_simp
  moreover have "list_all host_char ?h" "to_ascii_lowercase ?h = ?h" by code_simp+
  ultimately show ?thesis
    using hostname_ace_canonical [OF sample_idna_ascii, of idn_name ?h] by blast
qed

section \<open>Scope of errors\<close>

lemma hostname_unavailable_iff: "fst (normalize_hostname_value idna raw) = HostUnavailable \<longleftrightarrow> raw = None"
  by (auto simp: normalize_hostname_value_def Let_def split: option.splits)

lemma ip_unavailable_iff: "fst (normalize_ip_value raw) = IpUnavail \<longleftrightarrow> raw = None"
  by (auto simp: normalize_ip_value_def split: option.splits ip_addr.splits)

lemma app_signals:
  "snd (normalize_app_identity_value lc ctx) =
     (if fst (normalize_app_identity_value lc ctx) = None then [AppContextUnavailable] else [])"
  by (simp add: normalize_app_identity_value_def Let_def split: option.splits)

lemmas normalize_parts = normalize_runtime_input_def Let_def split_beta

lemma normalize_fields [simp]:
  "ni_hostname (normalize_runtime_input idna lc r) = fst (normalize_hostname_value idna (ri_destination_hostname r))"
  "ni_ip (normalize_runtime_input idna lc r) = fst (normalize_ip_value (ri_destination_ip r))"
  "ni_app_identity (normalize_runtime_input idna lc r) = fst (normalize_app_identity_value lc (ri_process_context r))"
  by (simp_all add: normalize_parts)

lemma normalize_availability:
  "ni_match_class_availability (normalize_runtime_input idna lc r) =
     derive_match_class_availability (ni_hostname (normalize_runtime_input idna lc r))
       (ni_app_identity (normalize_runtime_input idna lc r))"
  by (simp add: normalize_parts)

lemma derive_blocks:
  "mca_suffix_domain (derive_match_class_availability h a) = mca_exact_fqdn (derive_match_class_availability h a)"
  "mca_zone (derive_match_class_availability h a) = mca_exact_fqdn (derive_match_class_availability h a)"
  "mca_exact_ip (derive_match_class_availability h a) = None"
  "mca_application (derive_match_class_availability h a) = (if a = None then Some ApplicationNameEmpty else None)"
  by (auto simp: derive_match_class_availability_def Let_def)

text \<open>The ASCII form a reported name is judged by, and the file name a process is judged by.\<close>

definition ascii_form :: "(string \<Rightarrow> string option) \<Rightarrow> string \<Rightarrow> string option" where
  "ascii_form idna b = (if is_ascii b then if list_all host_char b then Some (to_ascii_lowercase b) else None else idna b)"

definition observed_file :: "string \<Rightarrow> string" where
  "observed_file name = (case filter (\<lambda>s. s \<noteq> []) (split_by path_sep (trim name)) of [] \<Rightarrow> trim name | ss \<Rightarrow> last ss)"

lemma host_char_lower: "host_char (lower_byte c) \<longleftrightarrow> host_char c"
  by (auto simp: host_char_def lower_byte_def ascii_alphanumeric_def ascii_alphabetic_def ascii_upper_def ascii_lower_def ascii_digit_def of_char_of
      dest: arg_cong [of _ _ byte_of])

lemma host_chars_lower: "list_all host_char (to_ascii_lowercase s) \<longleftrightarrow> list_all host_char s"
  by (simp add: to_ascii_lowercase_def list_all_iff host_char_lower)

lemma name_classes_block:
  "mca_exact_fqdn (derive_match_class_availability (fst (normalize_hostname_value idna raw)) app) =
     (case raw of None \<Rightarrow> Some DomainEmpty
      | Some h \<Rightarrow> if trim h = [] then Some DomainEmpty
          else case ascii_form idna (bare_host h) of
              None \<Rightarrow> Some (if is_ascii (bare_host h) then DomainInvalidCharacters h else DomainIdnaFailed h)
            | Some a \<Rightarrow> if dns_labels_are_well_formed a then None else Some (DomainMalformedLabels h))"
  by (auto simp: derive_match_class_availability_def normalize_hostname_value_def bare_host_def ascii_form_def Let_def
      host_chars_lower split: option.split)

lemma trim_end_exe_append: "trim_end_exe (s @ exe_suffix) = trim_end_exe s"
  by (subst trim_end_exe.simps) simp

lemma concat_replicate_Suc: "concat (replicate (Suc k) x) = concat (replicate k x) @ x"
  by (induction k) simp_all

lemma trim_end_exe_Nil: "trim_end_exe s = [] \<longleftrightarrow> (\<exists>k. s = concat (replicate k exe_suffix))"
proof
  show "trim_end_exe s = [] \<Longrightarrow> \<exists>k. s = concat (replicate k exe_suffix)"
  proof (induction s rule: trim_end_exe.induct)
    case (1 s)
    show ?case
    proof (cases "strip_suffix_str exe_suffix s")
      case None
      then have "s = concat (replicate 0 exe_suffix)" using 1(2) by (simp add: trim_end_exe.simps [of s])
      then show ?thesis by blast
    next
      case (Some r)
      then obtain k where "r = concat (replicate k exe_suffix)" using 1 by (auto simp: trim_end_exe.simps [of s])
      then have "s = concat (replicate (Suc k) exe_suffix)"
        using strip_suffix_str_SomeD [OF Some] by (simp only: concat_replicate_Suc)
      then show ?thesis by blast
    qed
  qed
next
  have "trim_end_exe (concat (replicate k exe_suffix)) = []" for k
  proof (induction k)
    case (Suc k)
    then show ?case by (simp only: concat_replicate_Suc trim_end_exe_append)
  qed (simp add: trim_end_exe.simps strip_suffix_str_def exe_suffix_def)
  then show "\<exists>k. s = concat (replicate k exe_suffix) \<Longrightarrow> trim_end_exe s = []" by blast
qed

lemma observed_file_no_sep: "\<not> list_ex path_sep (trim name) \<Longrightarrow> observed_file name = trim name"
  by (simp add: observed_file_def split_by_single)

lemma process_unknown:
  "fst (normalize_app_identity_value lc ctx) = None \<longleftrightarrow>
     (case pc_process_name ctx of None \<Rightarrow> True
      | Some name \<Rightarrow> trim name = [] \<or> (\<exists>k. lc (observed_file name) = concat (replicate k exe_suffix)))"
proof (cases "pc_process_name ctx")
  case (Some name)
  let ?l = "lc (observed_file name)"
  have "fst (normalize_app_identity_value lc ctx) = None \<longleftrightarrow>
      trim name = [] \<or> trim_end_exe (if suffix exe_suffix ?l then ?l else ?l @ exe_suffix) = []"
  proof (cases "list_ex path_sep (trim name)")
    case True
    then show ?thesis
      using Some by (simp add: normalize_app_identity_value_def Let_def split_beta flip: observed_file_def)
  next
    case False
    then show ?thesis
      using Some by (simp add: normalize_app_identity_value_def Let_def split_beta observed_file_no_sep)
  qed
  moreover have "trim_end_exe (if suffix exe_suffix ?l then ?l else ?l @ exe_suffix) = trim_end_exe ?l"
    by (simp add: trim_end_exe_append)
  ultimately show ?thesis using Some by (simp only: trim_end_exe_Nil option.case)
qed (simp add: normalize_app_identity_value_def)

text \<open>
  C29. What each input field makes available, and why not, read off the input alone. A signal is
  raised once at most, for the host name or the address exactly when that field is missing, for the
  process exactly when no name is reported, or a blank one, or one whose file name is nothing but
  repeated \<open>.exe\<close>. The three name classes are blocked together: with \<open>DomainEmpty\<close> for a
  missing or blank name, \<open>DomainInvalidCharacters\<close> for an ASCII name with another character,
  \<open>DomainIdnaFailed\<close> where the crate refuses a name, \<open>DomainMalformedLabels\<close> where the ASCII
  form breaks a length limit, and not at all otherwise. The application class is blocked exactly with
  its signal, the address class never, so no input blocks every class.
\<close>

theorem normalization_availability:
  "let n = normalize_runtime_input idna lc r; m = ni_match_class_availability n; sg = ni_availability_signals n;
       name = pc_process_name (ri_process_context r);
       unknown = (case name of None \<Rightarrow> True
         | Some p \<Rightarrow> trim p = [] \<or> (\<exists>k. lc (observed_file p) = concat (replicate k ''.exe'')))
   in distinct sg \<and>
     (HostnameUnavailable \<in> set sg \<longleftrightarrow> ri_destination_hostname r = None) \<and>
     (IpUnavailable \<in> set sg \<longleftrightarrow> ri_destination_ip r = None) \<and>
     (AppContextUnavailable \<in> set sg \<longleftrightarrow> unknown) \<and>
     mca_exact_fqdn m =
       (case ri_destination_hostname r of None \<Rightarrow> Some DomainEmpty
        | Some h \<Rightarrow> if trim h = [] then Some DomainEmpty
            else case ascii_form idna (bare_host h) of
                None \<Rightarrow> Some (if is_ascii (bare_host h) then DomainInvalidCharacters h else DomainIdnaFailed h)
              | Some a \<Rightarrow> if a \<noteq> [] \<and> length a \<le> 253 \<and> list_all (\<lambda>l. l \<noteq> [] \<and> length l \<le> 63) (labels a) then None
                  else Some (DomainMalformedLabels h)) \<and>
     mca_suffix_domain m = mca_exact_fqdn m \<and> mca_zone m = mca_exact_fqdn m \<and> mca_exact_ip m = None \<and>
     mca_application m = (if unknown then Some ApplicationNameEmpty else None) \<and> \<not> nothing_available m"
proof -
  let ?n = "normalize_runtime_input idna lc r"
  have sg: "ni_availability_signals ?n =
      (if ri_destination_hostname r = None then [HostnameUnavailable] else []) @
      (if ri_destination_ip r = None then [IpUnavailable] else []) @
      (if ni_app_identity ?n = None then [AppContextUnavailable] else [])"
    by (simp add: normalize_parts hostname_unavailable_iff ip_unavailable_iff app_signals)
  note app = process_unknown [of lc "ri_process_context r", unfolded exe_suffix_def]
  show ?thesis
    unfolding Let_def sg normalize_availability normalize_fields name_classes_block derive_blocks app well_formed_bounds
    by (intro conjI) (auto simp: nothing_available_def all_address_classes_blocked_def derive_blocks)
qed

section \<open>Process names\<close>

text \<open>
  The name a process is observed under is the name the rule editor would store for it on
  Windows: whenever normalization identifies a process, its name is the canonical exact name of the
  reported one, and it is left unidentified only when nothing but \<open>.exe\<close> suffixes remains.
\<close>

theorem observed_name_is_canonical:
  assumes "pc_process_name ctx = Some raw"
  shows "case fst (normalize_app_identity_value lc ctx) of
      None \<Rightarrow> trim raw = [] \<or> trim_end_exe (fst (canonical_exact_process_name lc raw WindowsExe)) = []
    | Some i \<Rightarrow> na_process_name i = fst (canonical_exact_process_name lc raw WindowsExe) \<and>
        trim_end_exe (na_process_name i) \<noteq> []"
proof -
  let ?f = "if list_ex path_sep (trim raw)
      then (case filter (\<lambda>s. s \<noteq> []) (split_by path_sep (trim raw)) of [] \<Rightarrow> trim raw | x # xs \<Rightarrow> last (x # xs))
      else trim raw"
  let ?p = "if suffix exe_suffix (lc ?f) then lc ?f else lc ?f @ exe_suffix"
  have "fst (canonical_exact_process_name lc raw WindowsExe) = ?p"
    by (simp add: canonical_exact_process_name_def Let_def)
  moreover have "fst (normalize_app_identity_value lc ctx) = None \<longleftrightarrow> trim raw = [] \<or> trim_end_exe ?p = []"
    using assms by (simp add: normalize_app_identity_value_def Let_def split_beta)
  moreover have "na_process_name i = ?p" if "fst (normalize_app_identity_value lc ctx) = Some i" for i
    using that assms by (auto simp: normalize_app_identity_value_def Let_def split_beta split: if_splits)
  ultimately show ?thesis by (auto split: option.split)
qed

theorem observed_name_is_canonical_witness:
  "\<exists>i. fst (normalize_app_identity_value to_ascii_lowercase
        \<lparr>pc_pid = 7, pc_process_name = Some ''/usr/bin/Viewer'', pc_process_path = None,
         pc_parent_pid = None, pc_browser_hint = False\<rparr>) = Some i \<and>
     na_process_name i = fst (canonical_exact_process_name to_ascii_lowercase ''/usr/bin/Viewer'' WindowsExe)"
proof -
  let ?c = "\<lparr>pc_pid = 7, pc_process_name = Some ''/usr/bin/Viewer'', pc_process_path = None,
         pc_parent_pid = None, pc_browser_hint = False\<rparr>"
  have "fst (normalize_app_identity_value to_ascii_lowercase ?c) \<noteq> None" by code_simp
  then obtain i where i: "fst (normalize_app_identity_value to_ascii_lowercase ?c) = Some i" by auto
  show ?thesis using observed_name_is_canonical [of ?c "''/usr/bin/Viewer''" to_ascii_lowercase] i by simp
qed

section \<open>Refresh intervals\<close>

lemma clamp_bounds:
  "CACHE_REFRESH_MIN_SECS \<le> clamp_cache_refresh_secs v \<and> clamp_cache_refresh_secs v \<le> CACHE_REFRESH_MAX_SECS"
  by (auto simp: clamp_cache_refresh_secs_def CACHE_REFRESH_MIN_SECS_def CACHE_REFRESH_MAX_SECS_def not_less)

end
