(* ===== verification/Dns_Wire.thy ===== *)
theory Dns_Wire
  imports App_Identity Std_Net "HOL-Library.Monad_Syntax"
begin

text \<open>
  The DNS wire codec (\<open>src/core/services/service-runtime/src/dns_wire.rs\<close>). A packet is the list
  of its bytes; positions are natural numbers, which a slice of memory bounds below the wrap of
  \<open>usize\<close>. Header fields are 16 and 32 bit words. The loops that follow compression pointers carry
  fuel: 160 iterations are enough on every packet, because 32 jumps and a name of 255 bytes are the
  bounds the code itself checks. Direct indexing that could panic is an outer \<open>None\<close>.
  A label that passes \<open>is_learnable_label\<close> is ASCII, so reading it as UTF-8 never fails.
\<close>

type_synonym bytes = string
type_synonym u16 = "16 word"

abbreviation octet :: "char \<Rightarrow> int" where "octet \<equiv> of_char"

text \<open>\<open>slice::get\<close> with an index and with a range.\<close>

definition get_byte :: "bytes \<Rightarrow> nat \<Rightarrow> char option" where
  "get_byte p i = (if i < length p then Some (p ! i) else None)"

definition get_slice :: "bytes \<Rightarrow> nat \<Rightarrow> nat \<Rightarrow> bytes option" where
  "get_slice p a b = (if a \<le> b \<and> b \<le> length p then Some (take (b - a) (drop a p)) else None)"

text \<open>\<open>to_be_bytes\<close> and \<open>from_be_bytes\<close> of unsigned integers.\<close>

fun be_bytes :: "nat \<Rightarrow> int \<Rightarrow> bytes" where
  "be_bytes 0 x = []"
| "be_bytes (Suc n) x = be_bytes n (x div 256) @ [char_of (x mod 256)]"

definition be_value :: "bytes \<Rightarrow> int" where
  "be_value bs = foldl (\<lambda>a c. a * 256 + octet c) 0 bs"

definition be16 :: "u16 \<Rightarrow> bytes" where "be16 w = be_bytes 2 (uint w)"

definition be32 :: "u32 \<Rightarrow> bytes" where "be32 w = be_bytes 4 (uint w)"

definition u16_at :: "bytes \<Rightarrow> nat \<Rightarrow> u16" where
  "u16_at p i = of_int (be_value [p ! i, p ! (i + 1)])"

section \<open>Questions\<close>

definition DNS_HEADER_LEN :: nat where "DNS_HEADER_LEN = 12"

definition QTYPE_A :: u16 where "QTYPE_A = 1"

definition QTYPE_CNAME :: u16 where "QTYPE_CNAME = 5"

definition QTYPE_PTR :: u16 where "QTYPE_PTR = 12"

definition QTYPE_HTTPS :: u16 where "QTYPE_HTTPS = 65"

definition CLASS_IN :: u16 where "CLASS_IN = 1"

definition QTYPE_AAAA :: u16 where "QTYPE_AAAA = 28"

definition RCODE_NOERROR :: int where "RCODE_NOERROR = 0"

definition RCODE_NXDOMAIN :: int where "RCODE_NXDOMAIN = 3"

definition RCODE_SERVFAIL :: int where "RCODE_SERVFAIL = 2"

record parsed_question =
  qname :: string
  qtype :: u16
  question_end :: nat

function parse_qname_loop :: "bytes \<Rightarrow> nat \<Rightarrow> string list \<Rightarrow> nat \<Rightarrow> (string list \<times> nat) option" where
  "parse_qname_loop packet off ls tot =
     do {
       b \<leftarrow> get_byte packet off;
       let len = octet b;
       if len = 0 then Some (ls, off + 1)
       else if len AND 0xC0 \<noteq> 0 then None
       else do {
         label \<leftarrow> get_slice packet (off + 1) (off + 1 + nat len);
         if \<not> is_learnable_label label then None
         else if tot + nat len + 1 > 255 then None
         else parse_qname_loop packet (off + 1 + nat len) (ls @ [to_ascii_lowercase label]) (tot + nat len + 1)
       }
     }"
  by pat_completeness auto
termination by (relation "measure (\<lambda>(packet, off, ls, tot). 256 - tot)") auto

declare parse_qname_loop.simps [simp del]

definition parse_qname :: "bytes \<Rightarrow> nat \<Rightarrow> (string \<times> nat) option" where
  "parse_qname packet off = map_option (\<lambda>(ls, e). (join_with (CHR ''.'') ls, e)) (parse_qname_loop packet off [] 0)"

fun decode_loop :: "nat \<Rightarrow> bytes \<Rightarrow> nat \<Rightarrow> string list \<Rightarrow> nat \<Rightarrow> nat \<Rightarrow> string list option option" where
  "decode_loop 0 packet off ls jumps tot = None"
| "decode_loop (Suc fuel) packet off ls jumps tot =
     (case get_byte packet off of None \<Rightarrow> Some None
      | Some b \<Rightarrow>
        let len = octet b in
        if len = 0 then Some (Some ls)
        else if len AND 0xC0 = 0xC0 then
          (case get_byte packet (off + 1) of None \<Rightarrow> Some None
           | Some b2 \<Rightarrow>
             let target = nat (push_bit 8 (len AND 0x3F) OR octet b2) in
             if jumps + 1 > 32 \<or> target \<ge> length packet then Some None
             else decode_loop fuel packet target ls (jumps + 1) tot)
        else if len AND 0xC0 \<noteq> 0 then Some None
        else
          (case get_slice packet (off + 1) (off + 1 + nat len) of None \<Rightarrow> Some None
           | Some label \<Rightarrow>
             if \<not> is_learnable_label label then Some None
             else if tot + (nat len + 1) > 255 then Some None
             else decode_loop fuel packet (off + 1 + nat len) (ls @ [to_ascii_lowercase label]) jumps
                    (tot + (nat len + 1))))"

definition NAME_FUEL :: nat where "NAME_FUEL = 160"

definition decode_name :: "bytes \<Rightarrow> nat \<Rightarrow> string option" where
  "decode_name packet off =
     (case decode_loop NAME_FUEL packet off [] 0 0 of
        Some (Some ls) \<Rightarrow> if ls = [] then None else Some (join_with (CHR ''.'') ls)
      | _ \<Rightarrow> None)"

function skip_encoded_name :: "bytes \<Rightarrow> nat \<Rightarrow> nat option" where
  "skip_encoded_name packet off =
     do {
       b \<leftarrow> get_byte packet off;
       let len = octet b;
       if len = 0 then Some (off + 1)
       else if len AND 0xC0 = 0xC0 then do { _ \<leftarrow> get_byte packet (off + 1); Some (off + 2) }
       else if len AND 0xC0 \<noteq> 0 then None
       else skip_encoded_name packet (off + (1 + nat len))
     }"
  by pat_completeness auto
termination
  by (relation "measure (\<lambda>(packet, off). length packet - off)") (auto simp: get_byte_def split: if_splits)

declare skip_encoded_name.simps [simp del]

definition parse_question :: "bytes \<Rightarrow> parsed_question option" where
  "parse_question packet =
     (if length packet < DNS_HEADER_LEN then None
      else if u16_at packet 4 = 0 then None
      else do {
        (name, after_name) \<leftarrow>
          (case parse_qname packet DNS_HEADER_LEN of
             Some parsed \<Rightarrow> Some parsed
           | None \<Rightarrow> do {
               name \<leftarrow> decode_name packet DNS_HEADER_LEN;
               after_name \<leftarrow> skip_encoded_name packet DNS_HEADER_LEN;
               Some (name, after_name)
             });
        t0 \<leftarrow> get_byte packet after_name;
        t1 \<leftarrow> get_byte packet (after_name + 1);
        _ \<leftarrow> get_byte packet (after_name + 2);
        _ \<leftarrow> get_byte packet (after_name + 3);
        if after_name + 4 > length packet then None
        else Some \<lparr>qname = name, qtype = of_int (be_value [t0, t1]), question_end = after_name + 4\<rparr>
      })"

section \<open>Responses to a client\<close>

text \<open>\<open>copy_from_slice\<close> into a range of the same length.\<close>

definition put_at :: "bytes \<Rightarrow> nat \<Rightarrow> bytes \<Rightarrow> bytes" where
  "put_at p i bs = take i p @ bs @ drop (i + length bs) p"

definition response_prefix :: "bytes \<Rightarrow> nat \<Rightarrow> int \<Rightarrow> u16 \<Rightarrow> bytes option" where
  "response_prefix query qend rcode ancount =
     (if length query < qend \<or> qend < 12 then None
      else
        let resp = take qend query;
            resp = resp[2 := char_of (0x80 OR (octet (resp ! 2) AND 0x79))];
            resp = resp[3 := char_of (0x80 OR (rcode AND 0x0F))];
            resp = put_at resp 6 (be16 ancount);
            resp = put_at resp 8 [CHR 0x00, CHR 0x00];
            resp = put_at resp 10 [CHR 0x00, CHR 0x00]
        in Some resp)"

definition put_answer :: "u16 \<Rightarrow> u32 \<Rightarrow> bytes \<Rightarrow> bytes" where
  "put_answer rtype ttl octs =
     [CHR 0xC0, CHR 0x0C] @ be16 rtype @ [CHR 0x00, CHR 0x01] @ be32 ttl @ be16 (of_nat (length octs)) @ octs"

definition build_address_response :: "bytes \<Rightarrow> u16 \<Rightarrow> bytes list \<Rightarrow> u32 \<Rightarrow> bytes option option" where
  "build_address_response query rtype rdata ttl =
     (if rdata = [] then Some None
      else case parse_question query of None \<Rightarrow> Some None
        | Some q \<Rightarrow>
          let ancount = of_int (min (int (length rdata)) 65535) in
          map_option (\<lambda>resp. Some (resp @ concat (map (put_answer rtype ttl) (take (unat ancount) rdata))))
            (response_prefix query (question_end q) 0 ancount))"

definition build_a_response :: "bytes \<Rightarrow> u32 list \<Rightarrow> u32 \<Rightarrow> bytes option option" where
  "build_a_response query ips ttl = build_address_response query QTYPE_A (map (\<lambda>ip. be_bytes 4 (uint ip)) ips) ttl"

definition build_aaaa_response :: "bytes \<Rightarrow> u128 list \<Rightarrow> u32 \<Rightarrow> bytes option option" where
  "build_aaaa_response query ips ttl = build_address_response query QTYPE_AAAA (map (\<lambda>ip. be_bytes 16 (uint ip)) ips) ttl"

definition build_error_response :: "bytes \<Rightarrow> int \<Rightarrow> bytes option option" where
  "build_error_response query rcode =
     (case parse_question query of None \<Rightarrow> Some None
      | Some q \<Rightarrow> map_option Some (response_prefix query (question_end q) rcode 0))"

definition NEGATIVE_TTL_SECS :: u32 where "NEGATIVE_TTL_SECS = 60"

definition RNAME :: bytes where
  "RNAME = [CHR 0x06] @ ''nobody'' @ [CHR 0x07] @ ''invalid'' @ [CHR 0x00]"

definition build_negative_response :: "bytes \<Rightarrow> int \<Rightarrow> u32 \<Rightarrow> bytes option option" where
  "build_negative_response query rcode negative_ttl =
     (case parse_question query of None \<Rightarrow> Some None
      | Some q \<Rightarrow>
        map_option (\<lambda>resp.
          Some (put_at resp 8 (be16 1) @
            [CHR 0xC0, CHR 0x0C] @ be16 6 @ [CHR 0x00, CHR 0x01] @ be32 negative_ttl @
            be16 (of_nat (2 + length RNAME + 5 * 4)) @
            [CHR 0xC0, CHR 0x0C] @ RNAME @ be32 1 @ be32 3600 @ be32 600 @ be32 86400 @ be32 negative_ttl))
          (response_prefix query (question_end q) rcode 0))"

section \<open>Queries to an upstream\<close>

fun encode_labels :: "string list \<Rightarrow> bytes \<Rightarrow> bytes option" where
  "encode_labels [] out = Some out"
| "encode_labels (label # ls) out =
     (if label = [] \<or> length label > 63 \<or> \<not> is_ascii label then None
      else encode_labels ls (out @ [char_of (length label)] @ label))"

definition encode_qname :: "string \<Rightarrow> bytes option" where
  "encode_qname name0 =
     (let name = (case strip_suffix_str ''.'' name0 of Some n \<Rightarrow> n | None \<Rightarrow> name0) in
      if name = [] then None
      else do {
        out \<leftarrow> encode_labels (labels name) [];
        let out = out @ [CHR 0x00];
        if length out > 255 then None else Some out
      })"

definition query_frame :: "u16 \<Rightarrow> bytes \<Rightarrow> u16 \<Rightarrow> bytes" where
  "query_frame ident name rtype =
     be16 ident @ [CHR 0x01, CHR 0x00] @ [CHR 0x00, CHR 0x01] @ replicate 6 (CHR 0x00) @
     name @ be16 rtype @ [CHR 0x00, CHR 0x01]"

definition build_address_query :: "u16 \<Rightarrow> string \<Rightarrow> u16 \<Rightarrow> bytes option" where
  "build_address_query ident name0 rtype = do { name \<leftarrow> encode_qname name0; Some (query_frame ident name rtype) }"

definition reverse_in_addr_arpa :: "u32 \<Rightarrow> string" where
  "reverse_in_addr_arpa ip = join_with (CHR ''.'') (map (digits_of 10) (rev (octets ip))) @ ''.in-addr.arpa''"

definition build_ptr_query :: "u16 \<Rightarrow> u32 \<Rightarrow> bytes option" where
  "build_ptr_query ident ip = do { name \<leftarrow> encode_qname (reverse_in_addr_arpa ip); Some (query_frame ident name QTYPE_PTR) }"

section \<open>Responses of an upstream\<close>

record answer_rr =
  rr_owner :: "string option"
  rr_rtype :: u16
  rr_rclass :: u16
  rr_ttl :: u32
  rr_rdata_start :: nat
  rr_rdlen :: nat

fun read_answer_records :: "bytes \<Rightarrow> nat \<Rightarrow> nat \<Rightarrow> answer_rr list" where
  "read_answer_records packet off 0 = []"
| "read_answer_records packet off (Suc n) =
     (case skip_encoded_name packet off of None \<Rightarrow> []
      | Some after_name \<Rightarrow>
        (case get_slice packet after_name (after_name + 10) of None \<Rightarrow> []
         | Some fixed \<Rightarrow>
           let rdlen = nat (be_value [fixed ! 8, fixed ! 9]);
               rdata_start = after_name + 10
           in if get_slice packet rdata_start (rdata_start + rdlen) = None then []
              else \<lparr>rr_owner = decode_name packet off,
                    rr_rtype = u16_at fixed 0, rr_rclass = u16_at fixed 2,
                    rr_ttl = of_int (be_value [fixed ! 4, fixed ! 5, fixed ! 6, fixed ! 7]),
                    rr_rdata_start = rdata_start, rr_rdlen = rdlen\<rparr>
                   # read_answer_records packet (rdata_start + rdlen) n))"

definition MAX_CNAME_CHAIN :: nat where "MAX_CNAME_CHAIN = 16"

definition alias_pairs :: "bytes \<Rightarrow> answer_rr list \<Rightarrow> (string \<times> string) list" where
  "alias_pairs packet records =
     List.map_filter (\<lambda>r. do { owner \<leftarrow> rr_owner r; target \<leftarrow> decode_name packet (rr_rdata_start r); Some (owner, target) })
       (filter (\<lambda>r. rr_rtype r = QTYPE_CNAME \<and> rr_rclass r = CLASS_IN) records)"

fun alias_pass :: "(string \<times> string) list \<Rightarrow> string set \<Rightarrow> bool \<Rightarrow> string set \<times> bool" where
  "alias_pass [] names grew = (names, grew)"
| "alias_pass ((owner, target) # as) names grew =
     (if owner \<in> names \<and> target \<notin> names then alias_pass as (insert target names) True
      else alias_pass as names grew)"

fun closure_loop :: "nat \<Rightarrow> (string \<times> string) list \<Rightarrow> string set \<Rightarrow> string set" where
  "closure_loop 0 aliases names = names"
| "closure_loop (Suc n) aliases names =
     (let (names', grew) = alias_pass aliases names False in
      if grew then closure_loop n aliases names' else names')"

definition answer_owner_closure :: "bytes \<Rightarrow> answer_rr list \<Rightarrow> string \<Rightarrow> string set" where
  "answer_owner_closure packet records name = closure_loop MAX_CNAME_CHAIN (alias_pairs packet records) {name}"

definition owned :: "string set \<Rightarrow> answer_rr \<Rightarrow> bool" where
  "owned owners rr = (case rr_owner rr of None \<Rightarrow> False | Some owner \<Rightarrow> owner \<in> owners)"

datatype ptr_response_outcome = PtrNames "string list" | PtrNoRecords | PtrTruncated | PtrFailed int | PtrMismatch

definition parse_ptr_response :: "u16 \<Rightarrow> u32 \<Rightarrow> bytes \<Rightarrow> ptr_response_outcome" where
  "parse_ptr_response expect_id ip packet =
     (if length packet < DNS_HEADER_LEN then PtrMismatch
      else if u16_at packet 0 \<noteq> expect_id then PtrMismatch
      else if octet (packet ! 2) AND 0x80 = 0 then PtrMismatch
      else case parse_question packet of None \<Rightarrow> PtrMismatch
        | Some q \<Rightarrow>
          if qname q \<noteq> reverse_in_addr_arpa ip \<or> qtype q \<noteq> QTYPE_PTR then PtrMismatch
          else if octet (packet ! 2) AND 0x02 \<noteq> 0 then PtrTruncated
          else
            let rcode = octet (packet ! 3) AND 0x0F in
            if rcode = RCODE_NXDOMAIN then PtrNoRecords
            else if rcode \<noteq> 0 then PtrFailed rcode
            else
              let records = read_answer_records packet (question_end q) (unat (u16_at packet 6));
                  owners = answer_owner_closure packet records (qname q);
                  names = List.map_filter (\<lambda>rr. decode_name packet (rr_rdata_start rr))
                    (filter (owned owners) (filter (\<lambda>r. rr_rtype r = QTYPE_PTR \<and> rr_rclass r = CLASS_IN) records))
              in if names = [] then PtrNoRecords else PtrNames names)"

datatype address_response_outcome = Answers "ip_addr list" u32 | NoRecords | Truncated | Failed int | Mismatch

definition address_rdlen :: "u16 \<Rightarrow> nat option" where
  "address_rdlen rtype = (if rtype = QTYPE_A then Some 4 else if rtype = QTYPE_AAAA then Some 16 else None)"

definition only_v4 :: "ip_addr list \<Rightarrow> u32 list" where
  "only_v4 addresses = List.map_filter (\<lambda>a. case a of V4 v4 \<Rightarrow> Some v4 | V6 _ \<Rightarrow> None) addresses"

definition address_from_rdata :: "bytes \<Rightarrow> ip_addr option" where
  "address_from_rdata rdata =
     (if length rdata = 4 then Some (V4 (of_int (be_value rdata)))
      else if length rdata = 16 then Some (V6 (of_int (be_value rdata)))
      else None)"

text \<open>One pass over the records: the addresses found and the smallest lifetime among them.\<close>

fun collect_addresses :: "bytes \<Rightarrow> string set \<Rightarrow> nat \<Rightarrow> answer_rr list \<Rightarrow> ip_addr list \<Rightarrow> u32 \<Rightarrow> ip_addr list \<times> u32" where
  "collect_addresses packet owners rdlen [] addresses min_ttl = (addresses, min_ttl)"
| "collect_addresses packet owners rdlen (rr # rrs) addresses min_ttl =
     (if \<not> owned owners rr then collect_addresses packet owners rdlen rrs addresses min_ttl
      else case get_slice packet (rr_rdata_start rr) (rr_rdata_start rr + rdlen) of
          None \<Rightarrow> collect_addresses packet owners rdlen rrs addresses min_ttl
        | Some rdata \<Rightarrow>
          (case address_from_rdata rdata of None \<Rightarrow> collect_addresses packet owners rdlen rrs addresses min_ttl
           | Some addr \<Rightarrow>
             collect_addresses packet owners rdlen rrs (addresses @ [addr]) (min min_ttl (rr_ttl rr))))"

definition parse_address_response :: "u16 \<Rightarrow> string \<Rightarrow> u16 \<Rightarrow> bytes \<Rightarrow> address_response_outcome" where
  "parse_address_response expect_id expect_qname rtype packet =
     (case address_rdlen rtype of None \<Rightarrow> Mismatch
      | Some rdlen \<Rightarrow>
        if length packet < DNS_HEADER_LEN then Mismatch
        else if u16_at packet 0 \<noteq> expect_id then Mismatch
        else if octet (packet ! 2) AND 0x80 = 0 then Mismatch
        else case parse_question packet of None \<Rightarrow> Mismatch
          | Some q \<Rightarrow>
            let expect = to_ascii_lowercase
                  (case strip_suffix_str ''.'' expect_qname of Some n \<Rightarrow> n | None \<Rightarrow> expect_qname) in
            if qname q \<noteq> expect \<or> qtype q \<noteq> rtype then Mismatch
            else if octet (packet ! 2) AND 0x02 \<noteq> 0 then Truncated
            else
              let rcode = octet (packet ! 3) AND 0x0F in
              if rcode = RCODE_NXDOMAIN then NoRecords
              else if rcode \<noteq> 0 then Failed rcode
              else
                let records = read_answer_records packet (question_end q) (unat (u16_at packet 6));
                    owners = answer_owner_closure packet records (qname q);
                    (addresses, min_ttl) = collect_addresses packet owners rdlen
                      (filter (\<lambda>r. rr_rtype r = rtype \<and> rr_rclass r = CLASS_IN \<and> rr_rdlen r = rdlen) records) [] (- 1)
                in if addresses = [] then NoRecords
                   else Answers addresses (if min_ttl = - 1 then 0 else min_ttl))"

section \<open>Question keys and framing\<close>

fun key_loop :: "nat \<Rightarrow> bytes \<Rightarrow> nat \<Rightarrow> bytes \<Rightarrow> nat \<Rightarrow> bytes option option" where
  "key_loop 0 packet off key jumps = None"
| "key_loop (Suc fuel) packet off key jumps =
     (case get_byte packet off of None \<Rightarrow> Some None
      | Some b \<Rightarrow>
        let len = octet b in
        if len = 0 then Some (Some key)
        else if len AND 0xC0 = 0xC0 then
          (case get_byte packet (off + 1) of None \<Rightarrow> Some None
           | Some b2 \<Rightarrow>
             let target = nat (push_bit 8 (len AND 0x3F) OR octet b2) in
             if jumps + 1 > 32 \<or> target \<ge> length packet then Some None
             else key_loop fuel packet target key (jumps + 1))
        else if len AND 0xC0 \<noteq> 0 then Some None
        else
          (case get_slice packet (off + 1) (off + 1 + nat len) of None \<Rightarrow> Some None
           | Some label \<Rightarrow>
             let key = key @ map lower_byte label @ [CHR ''.''] in
             if length key > 255 then Some None
             else key_loop fuel packet (off + (1 + nat len)) key jumps))"

definition question_key :: "bytes \<Rightarrow> (bytes \<times> u16 \<times> u16) option" where
  "question_key packet =
     (if length packet < DNS_HEADER_LEN \<or> u16_at packet 4 = 0 then None
      else do {
        key \<leftarrow> (case key_loop NAME_FUEL packet DNS_HEADER_LEN [] 0 of Some k \<Rightarrow> k | None \<Rightarrow> None);
        after_name \<leftarrow> skip_encoded_name packet DNS_HEADER_LEN;
        fixed \<leftarrow> get_slice packet after_name (after_name + 4);
        Some (key, u16_at fixed 0, u16_at fixed 2)
      })"

definition is_truncated :: "bytes \<Rightarrow> bool" where
  "is_truncated reply \<longleftrightarrow> DNS_HEADER_LEN \<le> length reply \<and> octet (reply ! 2) AND 0x02 \<noteq> 0"

definition DNS_TCP_MAX_MESSAGE :: int where "DNS_TCP_MAX_MESSAGE = 65535"

datatype io_error = InvalidData | UnexpectedEof

text \<open>A reader is the bytes still to come; a read answers its message and what is left.\<close>

definition read_tcp_message :: "bytes \<Rightarrow> int \<Rightarrow> io_error + bytes option \<times> bytes" where
  "read_tcp_message reader limit =
     (case reader of [] \<Rightarrow> Inr (None, [])
      | [_] \<Rightarrow> Inl UnexpectedEof
      | l0 # l1 # rest \<Rightarrow>
        let n = be_value [l0, l1] in
        if n = 0 \<or> n > min limit DNS_TCP_MAX_MESSAGE then Inl InvalidData
        else if length rest < nat n then Inl UnexpectedEof
        else Inr (Some (take (nat n) rest), drop (nat n) rest))"

definition write_tcp_message :: "bytes \<Rightarrow> bytes \<Rightarrow> io_error + bytes" where
  "write_tcp_message writer message =
     (if int (length message) > 65535 then Inl InvalidData
      else Inr (writer @ be_bytes 2 (int (length message)) @ message))"

section \<open>Bytes and numbers\<close>

lemma octet_byte: "octet c = int (byte_of c)"
  by (rule of_nat_of_char [symmetric])

lemma octet_bounds [simp]: "0 \<le> octet c" "octet c < 256"
  using byte_of_bound [of c] by (simp_all only: octet_byte)

lemma octet_char_of [simp]: "octet (char_of x) = x mod 256"
  by (simp add: of_char_of)

lemma length_be_bytes [simp]: "length (be_bytes n x) = n"
  by (induction n arbitrary: x) auto

lemma length_be [simp]: "length (be16 w) = 2" "length (be32 v) = 4"
  by (simp_all add: be16_def be32_def)

lemma be_value_snoc: "be_value (bs @ [c]) = be_value bs * 256 + octet c"
  by (simp add: be_value_def)

lemma be_value_be_bytes: "0 \<le> x \<Longrightarrow> x < 256 ^ n \<Longrightarrow> be_value (be_bytes n x) = x"
proof (induction n arbitrary: x)
  case (Suc n)
  have "x div 256 < k" if "x < 256 * k" for k :: int using that by linarith
  from this [of "256 ^ n"] have "x div 256 < 256 ^ n" using Suc.prems(2) by simp
  then show ?case using Suc by (simp add: be_value_snoc)
qed (simp add: be_value_def)

lemma be16_value: "of_int (be_value (be16 w)) = w"
  using uint_lt2p [of w] by (simp add: be16_def be_value_be_bytes)

lemma be32_value: "of_int (be_value (be32 w)) = w"
  using uint_lt2p [of w] by (simp add: be32_def be_value_be_bytes)

lemma label_bits:
  assumes "0 \<le> n" "n < (256 :: int)"
  shows "n AND 0xC0 = 64 * (n div 64)"
proof -
  have "(0xC0 :: int) = mask (2 + 6) AND NOT (mask 6)" by (simp add: mask_eq_exp_minus_1)
  then have "n AND 0xC0 = push_bit 6 (take_bit 2 (drop_bit 6 n))" by (simp only: slice_eq_mask and.assoc)
  moreover have "take_bit 2 (drop_bit 6 n) = n div 64" using assms
    by (subst take_bit_int_eq_self) (auto simp: drop_bit_eq_div)
  ultimately show ?thesis by (simp add: push_bit_eq_mult)
qed

lemma label_kind:
  "octet c AND 0xC0 = 0 \<longleftrightarrow> octet c < 64"
  "octet c AND 0xC0 = 0xC0 \<longleftrightarrow> 192 \<le> octet c"
proof -
  have "octet c div 64 = 0 \<longleftrightarrow> octet c < 64" "64 * (octet c div 64) = 192 \<longleftrightarrow> octet c div 64 = 3"
    by (auto simp: div_eq_0_iff)
  moreover have "octet c div 64 = 3 \<longleftrightarrow> 192 \<le> octet c" using octet_bounds [of c] by linarith
  ultimately show "octet c AND 0xC0 = 0 \<longleftrightarrow> octet c < 64" "octet c AND 0xC0 = 0xC0 \<longleftrightarrow> 192 \<le> octet c"
    by (simp_all add: label_bits)
qed

lemma octet_length: "length l < 64 \<Longrightarrow> octet (char_of (length l)) = int (length l)"
proof -
  assume "length l < 64"
  then have "byte_of (char_of (length l)) = length l" by (simp add: of_char_of)
  then show ?thesis by (simp only: octet_byte)
qed

section \<open>Names on the wire\<close>

definition wire :: "string list \<Rightarrow> bytes" where
  "wire ls = concat (map (\<lambda>l. char_of (length l) # l) ls) @ [CHR 0x00]"

definition name_len :: "string list \<Rightarrow> nat" where
  "name_len ls = sum_list (map (\<lambda>l. length l + 1) ls)"

definition wire_labels :: "string list \<Rightarrow> bool" where
  "wire_labels ls \<longleftrightarrow> (\<forall>l \<in> set ls. l \<noteq> [] \<and> length l < 64)"

lemma wire_simps [simp]:
  "wire [] = [CHR 0x00]"
  "wire (l # ls) = char_of (length l) # l @ wire ls"
  by (simp_all add: wire_def)

lemma name_len_simps [simp]: "name_len [] = 0" "name_len (l # ls) = length l + 1 + name_len ls"
  by (simp_all add: name_len_def)

lemma length_wire: "length (wire ls) = name_len ls + 1"
  by (induction ls) simp_all

lemma wire_labels_simps [simp]:
  "wire_labels []" "wire_labels (l # ls) \<longleftrightarrow> l \<noteq> [] \<and> length l < 64 \<and> wire_labels ls"
  by (auto simp: wire_labels_def)

lemma get_byte_app: "get_byte (a @ c # b) (length a) = Some c"
  by (simp add: get_byte_def)

lemma get_byte_app': "i = length a \<Longrightarrow> get_byte (a @ c # b) i = Some c"
  by (simp add: get_byte_def)

lemma get_slice_app: "i = length a \<Longrightarrow> j = length a + length x \<Longrightarrow> get_slice (a @ x @ b) i j = Some x"
  by (simp add: get_slice_def)

lemma get_slice_Some: "get_slice p i j = Some x \<Longrightarrow> \<exists>a b. p = a @ x @ b \<and> length a = i \<and> j = i + length x"
proof -
  assume "get_slice p i j = Some x"
  then have ij: "i \<le> j" "j \<le> length p" and x: "x = take (j - i) (drop i p)" by (auto simp: get_slice_def split: if_splits)
  have "drop j p = drop (j - i) (drop i p)" using ij by simp
  then have "p = take i p @ x @ drop j p" unfolding x by (metis append_take_drop_id)
  moreover have "length (take i p) = i" "j = i + length x" using ij by (simp_all add: x)
  ultimately show ?thesis by blast
qed

lemma get_byte_Some: "get_byte p i = Some c \<Longrightarrow> \<exists>a b. p = a @ c # b \<and> length a = i"
proof -
  assume "get_byte p i = Some c"
  then have i: "i < length p" "c = p ! i" by (auto simp: get_byte_def split: if_splits)
  have "p = take i p @ c # drop (Suc i) p" using id_take_nth_drop [OF i(1)] i(2) by simp
  moreover have "length (take i p) = i" using i(1) by simp
  ultimately show ?thesis by blast
qed

lemma wire_head:
  "get_byte (a @ wire (l # ls) @ b) (length a) = Some (char_of (length l))"
  "get_slice (a @ wire (l # ls) @ b) (length a + 1) (length a + 1 + length l) = Some l"
  "l \<noteq> [] \<and> length l < 64 \<and> wire_labels ls \<Longrightarrow> octet (char_of (length l)) = int (length l)"
  "l \<noteq> [] \<and> length l < 64 \<and> wire_labels ls \<Longrightarrow> int (length l) AND 0xC0 = 0"
proof -
  show "get_byte (a @ wire (l # ls) @ b) (length a) = Some (char_of (length l))" by (simp add: get_byte_app)
  show "get_slice (a @ wire (l # ls) @ b) (length a + 1) (length a + 1 + length l) = Some l"
    using get_slice_app [of "length a + 1" "a @ [char_of (length l)]" _ l "wire ls @ b"] by simp
  assume l: "l \<noteq> [] \<and> length l < 64 \<and> wire_labels ls"
  then show len: "octet (char_of (length l)) = int (length l)" by (intro octet_length) simp
  have "octet (char_of (length l)) < 64" unfolding len using l by simp
  then have "octet (char_of (length l)) AND 0xC0 = 0" by (simp only: label_kind)
  then show "int (length l) AND 0xC0 = 0" unfolding len .
qed

text \<open>What \<open>parse_qname\<close> accepts: the labels spelled out, learnable and within the length bound.\<close>

lemma parse_qname_loop_wire:
  assumes "wire_labels ls" "\<forall>l \<in> set ls. is_learnable_label l" "tot + name_len ls \<le> 255"
  shows "parse_qname_loop (a @ wire ls @ b) (length a) acc tot =
    Some (acc @ map to_ascii_lowercase ls, length a + length (wire ls))"
  using assms
proof (induction ls arbitrary: a acc tot)
  case Nil
  then show ?case by (simp add: parse_qname_loop.simps get_byte_app)
next
  case (Cons l ls)
  let ?p = "a @ wire (l # ls) @ b"
  note head = wire_head(1,2) [of a l ls b] wire_head(3,4) [OF wire_labels_simps(2) [THEN iffD1, OF Cons.prems(1)]]
  have ih: "parse_qname_loop ((a @ char_of (length l) # l) @ wire ls @ b) (length (a @ char_of (length l) # l))
      (acc @ [to_ascii_lowercase l]) (tot + length l + 1) =
      Some ((acc @ [to_ascii_lowercase l]) @ map to_ascii_lowercase ls, length (a @ char_of (length l) # l) + length (wire ls))"
    using Cons.prems by (intro Cons.IH) auto
  show ?case
    unfolding parse_qname_loop.simps [of ?p "length a"] head(1) bind.bind_lunit Let_def
    using Cons.prems ih head by (simp del: octet_char_of)
qed

lemma parse_qname_loop_Some:
  "parse_qname_loop p off acc tot = Some (r, e) \<Longrightarrow>
   \<exists>ls a b. p = a @ wire ls @ b \<and> length a = off \<and> e = off + length (wire ls) \<and>
     r = acc @ map to_ascii_lowercase ls \<and> wire_labels ls \<and> (\<forall>l \<in> set ls. is_learnable_label l) \<and>
     tot + name_len ls \<le> max tot 255"
proof (induction p off acc tot arbitrary: r e rule: parse_qname_loop.induct)
  case (1 p off acc tot)
  from "1.prems" obtain c where c: "get_byte p off = Some c"
    by (subst (asm) parse_qname_loop.simps) (auto simp: bind_eq_Some_conv)
  note unf = "1.prems" [unfolded parse_qname_loop.simps [of p off] c bind.bind_lunit Let_def]
  from get_byte_Some [OF c] obtain a b where p: "p = a @ c # b" and a: "length a = off" by blast
  show ?case
  proof (cases "octet c = 0")
    case True
    then have "c = CHR 0x00" using of_char_eq_iff [where ?'a = int, of c "CHR 0x00"] by simp
    then show ?thesis using True unf p a by (intro exI [of _ "[]"] exI [of _ a] exI [of _ b]) auto
  next
    case False
    then have small: "octet c AND 0xC0 = 0" using unf by (auto split: if_splits)
    obtain l where l: "get_slice p (off + 1) (off + 1 + nat (octet c)) = Some l" "is_learnable_label l"
        "tot + nat (octet c) + 1 \<le> 255"
      and rest: "parse_qname_loop p (off + 1 + nat (octet c)) (acc @ [to_ascii_lowercase l]) (tot + nat (octet c) + 1) = Some (r, e)"
      using unf False small by (auto simp: bind_eq_Some_conv split: if_splits)
    from get_slice_Some [OF l(1)] obtain a' b' where s: "p = a' @ l @ b'" "length a' = off + 1" "nat (octet c) = length l"
      by auto
    from "1.IH" [OF c refl False _ l(1) _ _ rest] l small obtain ls a2 b2 where
      i: "p = a2 @ wire ls @ b2" "length a2 = off + 1 + nat (octet c)"
        "e = off + 1 + nat (octet c) + length (wire ls)" "r = (acc @ [to_ascii_lowercase l]) @ map to_ascii_lowercase ls"
        "wire_labels ls" "\<forall>l \<in> set ls. is_learnable_label l" "tot + nat (octet c) + 1 + name_len ls \<le> 255"
      by force
    have cl: "c = char_of (length l)" using s(3) by (metis char_of_char octet_byte nat_int)
    have "a' = take (off + 1) p" using s(2) unfolding s(1) by simp
    also have "\<dots> = a @ [c]" using a unfolding p by simp
    finally have "a' = a @ [c]" .
    moreover have "a2 = a' @ l"
    proof -
      have "a2 = take (off + 1 + length l) p" using i(2) s(3) unfolding i(1) by simp
      then show ?thesis using s(2) unfolding s(1) by simp
    qed
    ultimately have "p = a @ wire (l # ls) @ b2" using i(1) cl by simp
    moreover have "length l < 64" using small label_kind(1) [of c] s(3) by linarith
    moreover have "l \<noteq> []" using l(2) by (simp add: is_learnable_label_def)
    ultimately show ?thesis using a i s l(2)
      by (intro exI [of _ "l # ls"] exI [of _ a] exI [of _ b2]) auto
  qed
qed

lemma decode_wire:
  assumes "wire_labels ls" "\<forall>l \<in> set ls. is_learnable_label l" "tot + name_len ls \<le> 255" "length ls < fuel"
  shows "decode_loop fuel (a @ wire ls @ b) (length a) acc jumps tot = Some (Some (acc @ map to_ascii_lowercase ls))"
  using assms
proof (induction ls arbitrary: a acc tot fuel)
  case Nil
  then show ?case by (cases fuel) (simp_all add: get_byte_app)
next
  case (Cons l ls)
  let ?p = "a @ wire (l # ls) @ b"
  obtain fuel' where f: "fuel = Suc fuel'" using Cons.prems(4) by (cases fuel) auto
  note head = wire_head(1,2) [of a l ls b] wire_head(3,4) [OF wire_labels_simps(2) [THEN iffD1, OF Cons.prems(1)]]
  have ih: "decode_loop fuel' ((a @ char_of (length l) # l) @ wire ls @ b) (length (a @ char_of (length l) # l))
      (acc @ [to_ascii_lowercase l]) jumps (tot + (length l + 1)) =
      Some (Some ((acc @ [to_ascii_lowercase l]) @ map to_ascii_lowercase ls))"
    using Cons.prems f by (intro Cons.IH) auto
  show ?case
    unfolding f decode_loop.simps head(1) option.case Let_def
    using Cons.prems ih head by (simp del: octet_char_of)
qed

lemma skip_wire:
  assumes "wire_labels ls"
  shows "skip_encoded_name (a @ wire ls @ b) (length a) = Some (length a + length (wire ls))"
  using assms
proof (induction ls arbitrary: a)
  case Nil
  then show ?case by (subst skip_encoded_name.simps) (simp add: get_byte_app)
next
  case (Cons l ls)
  let ?p = "a @ wire (l # ls) @ b"
  note head = wire_head(1,2) [of a l ls b] wire_head(3,4) [OF wire_labels_simps(2) [THEN iffD1, OF Cons.prems(1)]]
  have ih: "skip_encoded_name ((a @ char_of (length l) # l) @ wire ls @ b) (length (a @ char_of (length l) # l)) =
      Some (length (a @ char_of (length l) # l) + length (wire ls))"
    using Cons.prems by (intro Cons.IH) auto
  show ?case
    unfolding skip_encoded_name.simps [of ?p "length a"] head(1) bind.bind_lunit Let_def
    using Cons.prems ih head by (simp del: octet_char_of)
qed

text \<open>Without the character rule the same walk spells the comparison key.\<close>

lemma key_wire:
  assumes "wire_labels ls" "length acc + name_len ls \<le> 255" "length ls < fuel"
  shows "key_loop fuel (a @ wire ls @ b) (length a) acc jumps =
    Some (Some (acc @ concat (map (\<lambda>l. to_ascii_lowercase l @ [CHR ''.'']) ls)))"
  using assms
proof (induction ls arbitrary: a acc fuel)
  case Nil
  then show ?case by (cases fuel) (simp_all add: get_byte_app)
next
  case (Cons l ls)
  let ?p = "a @ wire (l # ls) @ b"
  obtain fuel' where f: "fuel = Suc fuel'" using Cons.prems(3) by (cases fuel) auto
  note head = wire_head(1,2) [of a l ls b] wire_head(3,4) [OF wire_labels_simps(2) [THEN iffD1, OF Cons.prems(1)]]
  have ih: "key_loop fuel' ((a @ char_of (length l) # l) @ wire ls @ b) (length (a @ char_of (length l) # l))
      (acc @ to_ascii_lowercase l @ [CHR ''.'']) jumps =
      Some (Some ((acc @ to_ascii_lowercase l @ [CHR ''.'']) @ concat (map (\<lambda>l. to_ascii_lowercase l @ [CHR ''.'']) ls)))"
    using Cons.prems f by (intro Cons.IH) auto
  show ?case
    unfolding f key_loop.simps head(1) option.case Let_def
    using Cons.prems ih head by (simp add: to_ascii_lowercase_def del: octet_char_of)
qed

section \<open>Every name walk returns\<close>

lemma decode_returns:
  "(32 - jumps) + (255 - tot) div 2 < fuel \<Longrightarrow> decode_loop fuel p off ls jumps tot \<noteq> None"
proof (induction fuel arbitrary: off ls jumps tot)
  case (Suc fuel)
  have jump: "decode_loop fuel p t ls (jumps + 1) tot \<noteq> None" if "\<not> jumps + 1 > 32" for t
    using that Suc.prems by (intro Suc.IH) auto
  have label: "decode_loop fuel p (off + 1 + nat (octet c)) (ls @ l) jumps (tot + (nat (octet c) + 1)) \<noteq> None"
    if "octet c \<noteq> 0" "\<not> tot + (nat (octet c) + 1) > 255" for l c
    using that Suc.prems octet_bounds(1) [of c] by (intro Suc.IH) linarith
  show ?case
    using jump label by (auto simp: Let_def split: option.splits)
qed simp

lemma decode_more: "decode_loop fuel p off ls jumps tot = Some r \<Longrightarrow> decode_loop (fuel + extra) p off ls jumps tot = Some r"
proof (induction fuel arbitrary: off ls jumps tot)
  case (Suc fuel)
  then show ?case by (auto simp: Let_def split: option.splits if_splits)
qed simp

lemma key_returns:
  "(32 - jumps) + (255 - length key) div 2 < fuel \<Longrightarrow> key_loop fuel p off key jumps \<noteq> None"
proof (induction fuel arbitrary: off key jumps)
  case (Suc fuel)
  have jump: "key_loop fuel p t key (jumps + 1) \<noteq> None" if "\<not> jumps + 1 > 32" for t
    using that Suc.prems by (intro Suc.IH) auto
  have label: "key_loop fuel p (off + (1 + nat (octet c))) (key @ map lower_byte l @ [CHR ''.'']) jumps \<noteq> None"
    if "octet c \<noteq> 0" "get_slice p (off + 1) (off + 1 + nat (octet c)) = Some l" "\<not> length (key @ map lower_byte l @ [CHR ''.'']) > 255" for l c
  proof (rule Suc.IH)
    have "0 < nat (octet c)" using that(1) octet_bounds(1) [of c] by linarith
    moreover have "length l = nat (octet c)" using get_slice_Some [OF that(2)] by auto
    ultimately show "32 - jumps + (255 - length (key @ map lower_byte l @ [CHR ''.''])) div 2 < fuel"
      using that(3) Suc.prems by (simp del: nat_of_char)
  qed
  show ?case
    using jump label by (auto simp: Let_def split: option.splits)
qed simp

lemma key_more: "key_loop fuel p off key jumps = Some r \<Longrightarrow> key_loop (fuel + extra) p off key jumps = Some r"
proof (induction fuel arbitrary: off key jumps)
  case (Suc fuel)
  then show ?case by (auto simp: Let_def split: option.splits if_splits)
qed simp

text \<open>
  C12. Reading a name returns on every packet, a malicious loop of compression pointers included: within
  160 iterations the decoder and the key reader have their answer, and more iterations do not change
  it.
\<close>

theorem name_walk_returns:
  "\<exists>r k. \<forall>extra. decode_loop (NAME_FUEL + extra) packet off [] 0 0 = Some r \<and>
     key_loop (NAME_FUEL + extra) packet off [] 0 = Some k"
proof -
  obtain r where r: "decode_loop NAME_FUEL packet off [] 0 0 = Some r"
    using decode_returns [of 0 0 NAME_FUEL packet off "[]"] by (auto simp: NAME_FUEL_def)
  obtain k where k: "key_loop NAME_FUEL packet off [] 0 = Some k"
    using key_returns [of 0 "[]" NAME_FUEL packet off] by (auto simp: NAME_FUEL_def)
  from decode_more [OF r] key_more [OF k] show ?thesis by blast
qed

section \<open>Questions read back\<close>

definition undotted :: "string \<Rightarrow> string" where
  "undotted s = (case strip_suffix_str ''.'' s of Some n \<Rightarrow> n | None \<Rightarrow> s)"

abbreviation dotted :: "string list \<Rightarrow> string" where
  "dotted ls \<equiv> join_with (CHR ''.'') (map to_ascii_lowercase ls)"

definition clean_name :: "string list \<Rightarrow> bool" where
  "clean_name ls \<longleftrightarrow> wire_labels ls \<and> (\<forall>l \<in> set ls. is_learnable_label l) \<and> name_len ls \<le> 255"

lemma join_with_map: "f c = c \<Longrightarrow> map f (join_with c ls) = join_with c (map (map f) ls)"
  by (induction c ls rule: join_with.induct) simp_all

lemma lower_dotted: "to_ascii_lowercase (join_with (CHR ''.'') ls) = dotted ls"
  unfolding to_ascii_lowercase_def by (rule join_with_map) (simp add: lower_byte_def ascii_upper_def)

lemma wire_labels_length: "wire_labels ls \<Longrightarrow> 2 * length ls \<le> name_len ls"
proof (induction ls)
  case (Cons l ls)
  then show ?case by (cases l) auto
qed simp

lemma decode_clean:
  assumes "clean_name ls" "ls \<noteq> []"
  shows "decode_name (a @ wire ls @ b) (length a) = Some (dotted ls)"
proof -
  have "2 * length ls \<le> 255" using assms(1) wire_labels_length [of ls] by (simp add: clean_name_def)
  then show ?thesis
    using assms decode_wire [of ls 0 NAME_FUEL a b "[]" 0] by (simp add: decode_name_def clean_name_def NAME_FUEL_def)
qed

lemma parse_question_wire:
  assumes "clean_name ls" "length h = 12" "u16_at (h @ wire ls @ [t0, t1, c0, c1] @ rest) 4 \<noteq> 0"
  shows "parse_question (h @ wire ls @ [t0, t1, c0, c1] @ rest) =
    Some \<lparr>qname = dotted ls, qtype = of_int (be_value [t0, t1]), question_end = 16 + length (wire ls)\<rparr>"
proof -
  let ?p = "h @ wire ls @ [t0, t1, c0, c1] @ rest"
  have q: "parse_qname ?p 12 = Some (dotted ls, 12 + length (wire ls))"
    using parse_qname_loop_wire [of ls 0 h "[t0, t1, c0, c1] @ rest" "[]"] assms
    by (simp add: parse_qname_def clean_name_def)
  let ?e = "12 + length (wire ls)"
  have g: "get_byte ?p ?e = Some t0" "get_byte ?p (?e + 1) = Some t1" "get_byte ?p (?e + 2) = Some c0" "get_byte ?p (?e + 3) = Some c1"
    using assms(2) by (simp_all add: get_byte_def nth_append)
  have l: "\<not> length ?p < 12" "\<not> ?e + 4 > length ?p" using assms(2) by simp_all
  show ?thesis
    unfolding parse_question_def DNS_HEADER_LEN_def q option.case bind.bind_lunit prod.case g
    using assms(3) l by simp
qed

lemma parse_question_Some:
  assumes "parse_question p = Some q" "parse_qname p 12 \<noteq> None"
  obtains h ls t0 t1 c0 c1 rest where "p = h @ wire ls @ [t0, t1, c0, c1] @ rest" "length h = 12" "clean_name ls"
    "q = \<lparr>qname = dotted ls, qtype = of_int (be_value [t0, t1]), question_end = 16 + length (wire ls)\<rparr>"
    "u16_at p 4 \<noteq> 0"
proof -
  obtain name e where q: "parse_qname p 12 = Some (name, e)" using assms(2) by auto
  then obtain r where "parse_qname_loop p 12 [] 0 = Some (r, e)" by (auto simp: parse_qname_def)
  from parse_qname_loop_Some [OF this] obtain ls h b where
    p: "p = h @ wire ls @ b" "length h = 12" "e = 12 + length (wire ls)" "clean_name ls"
    by (auto simp: clean_name_def)
  have u: "u16_at p 4 \<noteq> 0" using assms(1) by (auto simp: parse_question_def split: if_splits)
  have "get_byte p (e + 3) \<noteq> None"
    using assms(1) q by (auto simp: parse_question_def DNS_HEADER_LEN_def bind_eq_Some_conv split: if_splits)
  then have "4 \<le> length b" using p by (auto simp: get_byte_def split: if_splits)
  then obtain t0 t1 c0 c1 rest where b: "b = [t0, t1, c0, c1] @ rest"
    by (auto simp: numeral_eq_Suc Suc_le_length_iff)
  show thesis
    using that [OF p(1,2,4) [unfolded b]] parse_question_wire [OF p(4,2), of t0 t1 c0 c1 rest] assms(1) u p b by simp
qed

definition spell :: "string list \<Rightarrow> bytes" where
  "spell ls = concat (map (\<lambda>l. l @ [CHR ''.'']) ls)"

lemma spell_simps [simp]: "spell [] = []" "spell (ls @ [l]) = spell ls @ l @ [CHR ''.'']"
  by (simp_all add: spell_def)

lemma spell_join: "spell ls = (if ls = [] then [] else join_with (CHR ''.'') ls @ ''.'')"
  by (induction ls rule: induct_list012) (simp_all add: spell_def)

lemma decode_key:
  "decode_loop fuel p off ls jumps tot = Some (Some r) \<Longrightarrow> tot = length (spell ls) \<Longrightarrow>
   key_loop fuel p off (spell ls) jumps = Some (Some (spell r))"
proof (induction fuel arbitrary: off ls jumps tot)
  case (Suc fuel)
  have len: "nat (octet c) = length l" if "get_slice p (off + 1) (off + 1 + nat (octet c)) = Some l" for c l
    using get_slice_Some [OF that] by auto
  have step: "key_loop fuel p (off + 1 + nat (octet c)) (spell ls @ map lower_byte l @ [CHR ''.'']) jumps = Some (Some (spell r))"
    if "decode_loop fuel p (off + 1 + nat (octet c)) (ls @ [to_ascii_lowercase l]) jumps (tot + (nat (octet c) + 1)) = Some (Some r)"
      "get_slice p (off + 1) (off + 1 + nat (octet c)) = Some l" for c l
    using Suc.IH [OF that(1)] len [OF that(2)] Suc.prems(2) by (simp add: to_ascii_lowercase_def)
  obtain c where c: "get_byte p off = Some c" using Suc.prems(1) by (auto split: option.splits)
  show ?case
  proof (cases "octet c = 0 \<or> octet c AND 0xC0 = 0xC0")
    case True
    then show ?thesis using Suc by (auto simp: Let_def c split: option.splits if_splits)
  next
    case False
    then have small: "octet c AND 0xC0 = 0" using Suc.prems(1) by (auto simp: Let_def c split: if_splits)
    from False small Suc.prems(1) obtain l where
      l: "get_slice p (off + 1) (off + 1 + nat (octet c)) = Some l" "\<not> tot + (nat (octet c) + 1) > 255"
        "decode_loop fuel p (off + 1 + nat (octet c)) (ls @ [to_ascii_lowercase l]) jumps (tot + (nat (octet c) + 1)) = Some (Some r)"
      by (auto simp: Let_def c simp del: nat_of_char split: option.splits if_splits)
    from step [OF l(3,1)] l(1,2) len [OF l(1)] False small Suc.prems(2) show ?thesis
      by (simp add: Let_def c del: nat_of_char)
  qed
qed simp

lemma decode_nonempty:
  "decode_loop fuel p off ls jumps tot = Some (Some r) \<Longrightarrow> [] \<notin> set ls \<Longrightarrow> [] \<notin> set r"
proof (induction fuel arbitrary: off ls jumps tot)
  case (Suc fuel)
  have l: "is_learnable_label l \<Longrightarrow> [] \<noteq> to_ascii_lowercase l" for l by (auto simp: is_learnable_label_def to_ascii_lowercase_def)
  show ?case using Suc.prems l
    by (auto simp: Let_def split: option.splits if_splits intro: Suc.IH dest!: Suc.IH)
qed simp

lemma join_nonempty: "ls \<noteq> [] \<Longrightarrow> [] \<notin> set ls \<Longrightarrow> join_with c ls \<noteq> []"
  by (induction c ls rule: join_with.induct) auto

text \<open>What a parsed question says of the walks over its name.\<close>

lemma parse_question_walks:
  assumes "parse_question p = Some q"
  obtains e ls where "skip_encoded_name p 12 = Some e" "question_end q = e + 4" "e + 4 \<le> length p"
    "qtype q = of_int (be_value [p ! e, p ! (e + 1)])" "qname q = join_with (CHR ''.'') ls" "[] \<notin> set ls"
    "decode_loop NAME_FUEL p 12 [] 0 0 = Some (Some ls)"
proof (cases "parse_qname p 12")
  case None
  obtain name e where n: "decode_name p 12 = Some name" "skip_encoded_name p 12 = Some e" "e + 4 \<le> length p"
      "q = \<lparr>qname = name, qtype = of_int (be_value [p ! e, p ! (e + 1)]), question_end = e + 4\<rparr>"
    using assms None by (auto simp: parse_question_def DNS_HEADER_LEN_def get_byte_def bind_eq_Some_conv split: if_splits)
  from n(1) obtain ls where d: "decode_loop NAME_FUEL p 12 [] 0 0 = Some (Some ls)" "name = join_with (CHR ''.'') ls"
    by (auto simp: decode_name_def split: option.splits if_splits)
  show thesis using that [OF n(2) _ n(3)] d decode_nonempty [OF d(1)] n(4) by simp
next
  case (Some x)
  then have "parse_qname p 12 \<noteq> None" by simp
  from parse_question_Some [OF assms this] obtain h ls t0 t1 c0 c1 rest where
    p: "p = h @ wire ls @ [t0, t1, c0, c1] @ rest" "length h = 12" "clean_name ls"
      "q = \<lparr>qname = dotted ls, qtype = of_int (be_value [t0, t1]), question_end = 16 + length (wire ls)\<rparr>" by metis
  have c: "wire_labels ls" "\<forall>l \<in> set ls. is_learnable_label l" "name_len ls \<le> 255" using p(3) by (simp_all add: clean_name_def)
  have f: "length ls < NAME_FUEL" using wire_labels_length [OF c(1)] c(3) by (simp add: NAME_FUEL_def)
  have d: "decode_loop NAME_FUEL p 12 [] 0 0 = Some (Some (map to_ascii_lowercase ls))"
    using decode_wire [OF c(1,2), of 0 NAME_FUEL h "[t0, t1, c0, c1] @ rest" "[]" 0] c(3) f p(1,2) by simp
  show thesis
  proof (rule that [of "12 + length (wire ls)" "map to_ascii_lowercase ls"])
    show "skip_encoded_name p 12 = Some (12 + length (wire ls))"
      using skip_wire [OF c(1), of h "[t0, t1, c0, c1] @ rest"] p(1,2) by simp
    show "qtype q = of_int (be_value [p ! (12 + length (wire ls)), p ! (12 + length (wire ls) + 1)])"
      using p by (simp add: nth_append)
  qed (use p d decode_nonempty [OF d] in auto)
qed

lemma question_key_exact:
  assumes "parse_question p = Some q"
  shows "question_key p = Some (if qname q = [] then [] else qname q @ ''.'', qtype q, u16_at p (question_end q - 2))"
proof -
  have u: "\<not> length p < 12" "u16_at p 4 \<noteq> 0" using assms by (auto simp: parse_question_def DNS_HEADER_LEN_def split: if_splits)
  obtain e ls where e: "skip_encoded_name p 12 = Some e" "question_end q = e + 4" "e + 4 \<le> length p"
      "qtype q = of_int (be_value [p ! e, p ! (e + 1)])" "qname q = join_with (CHR ''.'') ls" "[] \<notin> set ls"
      "decode_loop NAME_FUEL p 12 [] 0 0 = Some (Some ls)"
    using parse_question_walks [OF assms] by metis
  have k: "key_loop NAME_FUEL p 12 [] 0 = Some (Some (if qname q = [] then [] else qname q @ ''.''))"
    using decode_key [OF e(7)] spell_join [of ls] join_nonempty [of ls] e(5,6) by auto
  have s: "get_slice p e (e + 4) = Some (take 4 (drop e p))" using e(3) by (simp add: get_slice_def)
  have "u16_at (take 4 (drop e p)) 0 = qtype q" "u16_at (take 4 (drop e p)) 2 = u16_at p (question_end q - 2)"
    using e(2,3,4) by (simp_all add: u16_at_def numeral_3_eq_3)
  then show ?thesis
    unfolding question_key_def DNS_HEADER_LEN_def k option.case e(1) bind.bind_lunit s using u by simp
qed

text \<open>
  C40. Where the parser reads a question, compressed or not, the comparison key of the same packet spells
  the same name and the same type, so a reply with the key of a query answers the question that was
  read from it.
\<close>

theorem question_key_agrees:
  assumes "parse_question p = Some q"
  shows "question_key p = Some (if qname q = [] then [] else qname q @ ''.'', qtype q, u16_at p (question_end q - 2))"
  using assms by (rule question_key_exact)

lemma encode_labels_Some:
  "encode_labels ls out = Some w \<Longrightarrow> wire_labels ls \<and> w @ [CHR 0x00] = out @ wire ls"
  by (induction ls arbitrary: out) (auto split: if_splits)

lemma encode_qname_Some:
  assumes "encode_qname name = Some w"
  shows "w = wire (labels (undotted name))" "wire_labels (labels (undotted name))" "name_len (labels (undotted name)) < 255"
proof -
  obtain out where o: "encode_labels (labels (undotted name)) [] = Some out" "w = out @ [CHR 0x00]" "length w \<le> 255"
    using assms by (auto simp: encode_qname_def undotted_def Let_def bind_eq_Some_conv split: if_splits option.splits)
  with encode_labels_Some [OF o(1)] show w: "w = wire (labels (undotted name))" "wire_labels (labels (undotted name))" by auto
  show "name_len (labels (undotted name)) < 255" using o(3) w(1) length_wire [of "labels (undotted name)"] by simp
qed

lemma be16_pair:
  obtains a b where "be16 w = [a, b]" "of_int (be_value [a, b]) = w"
proof -
  have "length (be16 w) = Suc (Suc 0)" by simp
  then obtain a b where "be16 w = [a, b]" by (metis length_0_conv length_Suc_conv)
  with that be16_value [of w] show thesis by simp
qed

text \<open>
  C19. A query the router builds for a name of learnable labels reads back: the parser finds the name in
  lower case without its trailing dot, the asked type and the end of the packet, the identifier is
  the first field, and the comparison key spells the same question in class IN.
\<close>

theorem query_roundtrip:
  assumes "build_address_query ident name rtype = Some p"
    and "list_all is_learnable_label (labels (undotted name))"
  shows "parse_question p = Some \<lparr>qname = to_ascii_lowercase (undotted name), qtype = rtype, question_end = length p\<rparr> \<and>
    u16_at p 0 = ident \<and> question_key p = Some (to_ascii_lowercase (undotted name) @ ''.'', rtype, CLASS_IN)"
proof -
  let ?ls = "labels (undotted name)"
  obtain w where w: "encode_qname name = Some w" "p = query_frame ident w rtype"
    using assms(1) by (auto simp: build_address_query_def bind_eq_Some_conv)
  note e = encode_qname_Some [OF w(1)]
  let ?h = "be16 ident @ [CHR 0x01, CHR 0x00, CHR 0x00, CHR 0x01] @ replicate 6 (CHR 0x00)"
  have h: "length ?h = 12" by simp
  obtain r0 r1 where r: "be16 rtype = [r0, r1]" "of_int (be_value [r0, r1]) = rtype" by (rule be16_pair)
  obtain i0 i1 where i: "be16 ident = [i0, i1]" "of_int (be_value [i0, i1]) = ident" by (rule be16_pair)
  have p: "p = ?h @ wire ?ls @ [r0, r1, CHR 0x00, CHR 0x01] @ []"
    by (simp add: w(2) e(1) query_frame_def r)
  have u: "u16_at p 4 = 1" "u16_at p 0 = ident" unfolding p using i
    by (simp_all add: u16_at_def be_value_def numeral_eq_Suc)
  have c: "clean_name ?ls" using e assms(2) by (simp add: clean_name_def list_all_iff)
  have d: "dotted ?ls = to_ascii_lowercase (undotted name)" by (simp flip: lower_dotted)
  have n: "undotted name \<noteq> []" using assms(2) by (auto simp: is_learnable_label_def)
  have "u16_at (?h @ wire ?ls @ [r0, r1, CHR 0x00, CHR 0x01] @ []) 4 \<noteq> 0" using u unfolding p by simp
  note q = parse_question_wire [OF c h this, folded p]
  have l: "16 + length (wire ?ls) = length p" unfolding p by simp
  have pq: "parse_question p = Some \<lparr>qname = to_ascii_lowercase (undotted name), qtype = rtype, question_end = length p\<rparr>"
    unfolding q d l r(2) by simp
  have "u16_at p (length p - 2) = CLASS_IN" unfolding p by (simp add: u16_at_def nth_append be_value_def CLASS_IN_def)
  with question_key_exact [OF pq] pq u n show ?thesis by (simp add: to_ascii_lowercase_def)
qed

section \<open>Answers read back\<close>

lemma flag_bits:
  "octet (char_of (0x80 OR (x AND 0x79))) AND 0x80 \<noteq> 0"
  "octet (char_of (0x80 OR (x AND 0x79))) AND 0x02 = 0"
  for x :: int
proof -
  have m: "y mod 256 = y AND 255" for y :: int
    using take_bit_eq_mod [of 8 y] take_bit_eq_mask [of 8 y] by (simp add: mask_eq_exp_minus_1)
  have "octet (char_of (0x80 OR (x AND 0x79))) AND k = (128 AND k) OR (x AND (0x79 AND k))" if "255 AND k = k" for k
    using that unfolding octet_char_of m by (simp only: and.assoc bit.conj_disj_distrib2)
  from this [of "0x80"] this [of "0x02"]
  show "octet (char_of (0x80 OR (x AND 0x79))) AND 0x80 \<noteq> 0" "octet (char_of (0x80 OR (x AND 0x79))) AND 0x02 = 0"
    by (simp_all del: octet_char_of)
qed

lemma be32_four:
  obtains a b c d where "be32 w = [a, b, c, d]"
proof -
  have "\<exists>a b c d. xs = [a, b, c, d]" if "length xs = 4" for xs :: bytes
    using that by (auto simp: numeral_eq_Suc length_Suc_conv)
  from this [OF length_be(2)] that show thesis by blast
qed

definition reply_header :: "bytes \<Rightarrow> int \<Rightarrow> u16 \<Rightarrow> bytes" where
  "reply_header h rcode ancount =
     [h ! 0, h ! 1, char_of (0x80 OR (octet (h ! 2) AND 0x79)), char_of (0x80 OR (rcode AND 0x0F)), h ! 4, h ! 5,
      be16 ancount ! 0, be16 ancount ! 1, CHR 0x00, CHR 0x00, CHR 0x00, CHR 0x00]"

lemma length_reply_header [simp]: "length (reply_header h rcode n) = 12"
  by (simp add: reply_header_def)

lemma response_prefix_wire:
  assumes "length h = 12"
  shows "response_prefix (h @ body @ rest) (12 + length body) rcode ancount = Some (reply_header h rcode ancount @ body)"
proof -
  obtain h0 h1 h2 h3 h4 h5 h6 h7 h8 h9 h10 h11 where "h = [h0, h1, h2, h3, h4, h5, h6, h7, h8, h9, h10, h11]"
    using assms by (auto simp: numeral_eq_Suc length_Suc_conv)
  then show ?thesis
    by (rule_tac be16_pair [of ancount]) (simp add: response_prefix_def put_at_def reply_header_def numeral_eq_Suc)
qed

lemma decode_pointer:
  assumes "clean_name ls" "ls \<noteq> []" "length h = 12" "p = h @ wire ls @ b"
    and "get_byte p off = Some (CHR 0xC0)" "get_byte p (off + 1) = Some (CHR 0x0C)"
  shows "decode_name p off = Some (dotted ls)"
proof -
  have "2 * length ls \<le> 255" using assms(1) wire_labels_length [of ls] by (simp add: clean_name_def)
  then have "decode_loop 159 p 12 [] 1 0 = Some (Some (map to_ascii_lowercase ls))"
    using assms(1,3,4) decode_wire [of ls 0 159 h b "[]" 1] by (simp add: clean_name_def)
  moreover have "12 < length p" using assms(3,4) length_wire [of ls] by simp
  moreover have "decode_loop (Suc 159) p off [] 0 0 = decode_loop 159 p 12 [] 1 0"
    unfolding decode_loop.simps assms(5,6) using \<open>12 < length p\<close> by (simp add: Let_def)
  ultimately show ?thesis using assms(2) by (simp add: decode_name_def NAME_FUEL_def)
qed

lemma skip_pointer:
  "get_byte p off = Some (CHR 0xC0) \<Longrightarrow> get_byte p (off + 1) = Some (CHR 0x0C) \<Longrightarrow> skip_encoded_name p off = Some (off + 2)"
  by (subst skip_encoded_name.simps) simp

definition answer_of :: "bytes \<Rightarrow> string \<Rightarrow> u16 \<Rightarrow> u32 \<Rightarrow> answer_rr \<Rightarrow> bytes \<Rightarrow> bool" where
  "answer_of p name rtype ttl rr r \<longleftrightarrow> rr_owner rr = Some name \<and> rr_rtype rr = rtype \<and> rr_rclass rr = CLASS_IN \<and>
     rr_ttl rr = ttl \<and> rr_rdlen rr = length r \<and> get_slice p (rr_rdata_start rr) (rr_rdata_start rr + length r) = Some r"

lemma read_answers:
  assumes "clean_name ls" "ls \<noteq> []" "length h = 12" "p = h @ wire ls @ b"
  shows "p = pre @ concat (map (put_answer rtype ttl) rs) \<Longrightarrow> \<forall>r \<in> set rs. length r < 65536 \<Longrightarrow>
    list_all2 (answer_of p (dotted ls) rtype ttl) (read_answer_records p (length pre) (length rs)) rs"
proof (induction rs arbitrary: pre)
  case (Cons r rs)
  let ?f = "be16 rtype @ [CHR 0x00, CHR 0x01] @ be32 ttl @ be16 (of_nat (length r))"
  let ?off = "length pre"
  have p: "p = pre @ [CHR 0xC0, CHR 0x0C] @ ?f @ r @ concat (map (put_answer rtype ttl) rs)"
    using Cons.prems(1) by (simp add: put_answer_def [of _ _ r])
  have g: "get_byte p ?off = Some (CHR 0xC0)" "get_byte p (?off + 1) = Some (CHR 0x0C)"
    unfolding p by (simp_all add: get_byte_def nth_append)
  note skip = skip_pointer [OF g] and own = decode_pointer [OF assms g]
  have f: "get_slice p (?off + 2) (?off + 2 + 10) = Some ?f"
    using get_slice_app [of "?off + 2" "pre @ [CHR 0xC0, CHR 0x0C]" "?off + 2 + 10" ?f "r @ concat (map (put_answer rtype ttl) rs)"]
    unfolding p by simp
  obtain a0 a1 where a: "be16 rtype = [a0, a1]" "of_int (be_value [a0, a1]) = rtype" by (rule be16_pair)
  obtain t0 t1 t2 t3 where t: "be32 ttl = [t0, t1, t2, t3]" by (rule be32_four)
  obtain l0 l1 where l: "be16 (of_nat (length r)) = [l0, l1]" by (rule be16_pair)
  have lv: "nat (be_value [l0, l1]) = length r"
  proof -
    have "uint (of_nat (length r) :: u16) = int (length r)" using Cons.prems(2) by (simp add: unsigned_of_nat take_bit_nat_eq_self)
    then show ?thesis using be_value_be_bytes [of "int (length r)" 2] Cons.prems(2) l by (simp add: be16_def)
  qed
  have r: "get_slice p (?off + 2 + 10) (?off + 2 + 10 + length r) = Some r"
    using get_slice_app [of "?off + 2 + 10" "pre @ [CHR 0xC0, CHR 0x0C] @ ?f" "?off + 2 + 10 + length r" r "concat (map (put_answer rtype ttl) rs)"]
    unfolding p by simp
  have ih: "list_all2 (answer_of p (dotted ls) rtype ttl)
      (read_answer_records p (length (pre @ put_answer rtype ttl r)) (length rs)) rs"
    using Cons.prems by (intro Cons.IH) simp_all
  have e: "length (pre @ put_answer rtype ttl r) = ?off + 2 + 10 + length r" by (simp add: put_answer_def)
  have w: "of_int (be_value [t0, t1, t2, t3]) = ttl" using be32_value [of ttl] t by simp
  have c: "(of_int (be_value [CHR 0x00, CHR 0x01]) :: u16) = CLASS_IN" by (simp add: be_value_def CLASS_IN_def)
  have hd: "answer_of p (dotted ls) rtype ttl \<lparr>rr_owner = Some (dotted ls), rr_rtype = rtype, rr_rclass = CLASS_IN,
      rr_ttl = ttl, rr_rdata_start = ?off + 2 + 10, rr_rdlen = length r\<rparr> r"
    using r by (simp add: answer_of_def)
  show ?case
    unfolding read_answer_records.simps length_Cons skip option.case f Let_def a(1) t l own
    using ih hd r lv w c a(2) unfolding e by (simp add: u16_at_def numeral_eq_Suc)
qed simp

section \<open>Which records answer\<close>

lemma alias_pass_sound:
  "fst (alias_pass as names grew) \<subseteq> (set as)\<^sup>* `` names"
proof (induction as names grew rule: alias_pass.induct)
  case (2 owner target as names grew)
  let ?A = "(set ((owner, target) # as))\<^sup>*"
  have sub: "(set as)\<^sup>* `` N \<subseteq> ?A `` N" for N by (intro Image_mono rtrancl_mono) auto
  have ext: "?A `` insert target names \<subseteq> ?A `` names" if "owner \<in> names"
    using that by (auto intro: converse_rtrancl_into_rtrancl)
  show ?case
  proof (cases "owner \<in> names \<and> target \<notin> names")
    case True
    then have "fst (alias_pass as (insert target names) True) \<subseteq> ?A `` names"
      using "2.IH"(1) [OF True] sub [of "insert target names"] ext by blast
    then show ?thesis using True by simp
  next
    case False
    then have "fst (alias_pass as names grew) \<subseteq> ?A `` names" using "2.IH"(2) [OF False] sub [of names] by blast
    then show ?thesis using False by auto
  qed
qed auto

lemma alias_pass_keeps: "names \<subseteq> fst (alias_pass as names grew)"
  by (induction as names grew rule: alias_pass.induct) auto

lemma alias_pass_step: "owner \<in> names \<Longrightarrow> (owner, target) \<in> set as \<Longrightarrow> target \<in> fst (alias_pass as names grew)"
proof (induction as names grew rule: alias_pass.induct)
  case (2 o' t' as names grew)
  then show ?case using alias_pass_keeps [of "insert t' names" as True] alias_pass_keeps [of names as grew] by auto
qed simp

lemma alias_pass_grew: "snd (alias_pass as names True)"
  by (induction as arbitrary: names) auto

lemma alias_pass_still: "\<not> snd (alias_pass as names False) \<Longrightarrow> fst (alias_pass as names False) = names"
  by (induction as arbitrary: names) (auto simp: alias_pass_grew split: if_splits)

lemma closure_sound: "closure_loop n as names \<subseteq> (set as)\<^sup>* `` names"
proof (induction n arbitrary: names)
  case (Suc n)
  obtain names' grew where p: "alias_pass as names False = (names', grew)" by fastforce
  then have s: "names' \<subseteq> (set as)\<^sup>* `` names" using alias_pass_sound [of as names False] by simp
  then have "(set as)\<^sup>* `` names' \<subseteq> (set as)\<^sup>* `` names" by (auto intro: rtrancl_trans)
  then show ?case using Suc [of names'] s p by auto
qed auto

lemma closure_keeps: "names \<subseteq> closure_loop n as names"
proof (induction n arbitrary: names)
  case (Suc n)
  obtain names' grew where p: "alias_pass as names False = (names', grew)" by fastforce
  then show ?case using Suc [of names'] alias_pass_keeps [of names as False] by auto
qed simp

lemma closure_complete: "owner \<in> names \<Longrightarrow> m \<le> n \<Longrightarrow> (owner, target) \<in> set as ^^ m \<Longrightarrow> target \<in> closure_loop n as names"
proof (induction n arbitrary: names owner m)
  case (Suc n)
  obtain names' grew where p: "alias_pass as names False = (names', grew)" by fastforce
  show ?case
  proof (cases m)
    case 0
    then have "target \<in> names" using Suc.prems by simp
    with closure_keeps [of names "Suc n" as] show ?thesis by (rule subsetD)
  next
    case (Suc k)
    then obtain o' where o: "(owner, o') \<in> set as" "(o', target) \<in> set as ^^ k" using Suc.prems(3) relpow_Suc_D2 by metis
    have o': "o' \<in> names'" using alias_pass_step [OF Suc.prems(1) o(1)] p by (metis fst_conv)
    show ?thesis
    proof (cases grew)
      case True
      then show ?thesis using Suc.IH [OF o' _ o(2)] Suc.prems(2) Suc p by simp
    next
      case False
      then have n: "names' = names" using alias_pass_still [of as names] p by simp
      have closed: "y \<in> names" if "x \<in> names" "(x, y) \<in> set as ^^ j" for x y j
        using that
      proof (induction j arbitrary: x)
        case (Suc j)
        then obtain z where "(x, z) \<in> set as" "(z, y) \<in> set as ^^ j" using relpow_Suc_D2 by metis
        moreover from this have "z \<in> names" using alias_pass_step [OF Suc.prems(1), of z as False] p n by simp
        ultimately show ?case using Suc.IH by blast
      qed simp
      show ?thesis using False closed [OF Suc.prems(1,3)] p n by simp
    qed
  qed
qed simp

definition addr_at :: "bytes \<Rightarrow> nat \<Rightarrow> answer_rr \<Rightarrow> ip_addr option" where
  "addr_at p n rr = Option.bind (get_slice p (rr_rdata_start rr) (rr_rdata_start rr + n)) address_from_rdata"

lemma collect_eq:
  "collect_addresses p owners n rrs acc m =
     (let good = filter (\<lambda>rr. owned owners rr \<and> addr_at p n rr \<noteq> None) rrs
      in (acc @ map (\<lambda>rr. the (addr_at p n rr)) good, fold (\<lambda>rr t. min t (rr_ttl rr)) good m))"
  by (induction rrs arbitrary: acc m) (auto simp: addr_at_def Let_def split: option.splits bind_splits)

lemma fold_min_le: "fold (\<lambda>rr t. min t (rr_ttl rr)) rrs m \<le> m"
proof (induction rrs arbitrary: m)
  case (Cons r rrs)
  from Cons [of "min m (rr_ttl r)"] show ?case by simp
qed simp

lemma fold_min: "rr \<in> set rrs \<Longrightarrow> fold (\<lambda>rr t. min t (rr_ttl rr)) rrs m \<le> rr_ttl rr"
proof (induction rrs arbitrary: m)
  case (Cons r rrs)
  then show ?case using fold_min_le [of rrs "min m (rr_ttl r)"] by (auto intro: order_trans)
qed simp

text \<open>A record that offers an address of the asked type under an owner name.\<close>

definition offers :: "bytes \<Rightarrow> parsed_question \<Rightarrow> u16 \<Rightarrow> answer_rr \<Rightarrow> string \<Rightarrow> ip_addr \<Rightarrow> bool" where
  "offers packet q rtype rr owner a \<longleftrightarrow>
     rr \<in> set (read_answer_records packet (question_end q) (unat (u16_at packet 6))) \<and>
     rr_rtype rr = rtype \<and> rr_rclass rr = CLASS_IN \<and> address_rdlen rtype = Some (rr_rdlen rr) \<and>
     rr_owner rr = Some owner \<and> addr_at packet (rr_rdlen rr) rr = Some a"

definition aliases_of :: "bytes \<Rightarrow> parsed_question \<Rightarrow> (string \<times> string) set" where
  "aliases_of packet q = set (alias_pairs packet (read_answer_records packet (question_end q) (unat (u16_at packet 6))))"

text \<open>
  C11. An accepted response is the response to the query that was sent: its identifier, name and type are
  the expected ones. Every address it yields is offered by a record of that type whose owner the
  question's name reaches through the CNAME records of the same response, every address offered
  under an owner at most sixteen aliases away is among them, and the answer's lifetime exceeds that of
  none of those records. An address filed under an unrelated name is never accepted.
\<close>

theorem answers_on_chain:
  assumes "parse_address_response ident name rtype packet = Answers addrs ttl"
  shows "\<exists>q. parse_question packet = Some q \<and> qname q = to_ascii_lowercase (undotted name) \<and> qtype q = rtype \<and>
    u16_at packet 0 = ident \<and>
    (\<forall>a \<in> set addrs. \<exists>rr owner. offers packet q rtype rr owner a \<and> (qname q, owner) \<in> (aliases_of packet q)\<^sup>*) \<and>
    (\<forall>rr owner a n. offers packet q rtype rr owner a \<longrightarrow> n \<le> MAX_CNAME_CHAIN \<longrightarrow>
       (qname q, owner) \<in> aliases_of packet q ^^ n \<longrightarrow> a \<in> set addrs \<and> ttl \<le> rr_ttl rr)"
proof -
  obtain q rdlen where q: "parse_question packet = Some q" "qname q = to_ascii_lowercase (undotted name)" "qtype q = rtype"
      "u16_at packet 0 = ident" "address_rdlen rtype = Some rdlen"
    using assms unfolding parse_address_response_def
    by (auto simp: Let_def undotted_def split: option.splits if_splits)
  let ?rrs = "read_answer_records packet (question_end q) (unat (u16_at packet 6))"
  let ?own = "answer_owner_closure packet ?rrs (qname q)"
  let ?fit = "filter (\<lambda>r. rr_rtype r = rtype \<and> rr_rclass r = CLASS_IN \<and> rr_rdlen r = rdlen) ?rrs"
  let ?good = "filter (\<lambda>rr. owned ?own rr \<and> addr_at packet rdlen rr \<noteq> None) ?fit"
  let ?min = "fold (\<lambda>rr t. min t (rr_ttl rr)) ?good (- 1)"
  have r: "addrs = map (\<lambda>rr. the (addr_at packet rdlen rr)) ?good" "ttl = (if ?min = - 1 then 0 else ?min)"
    using assms q unfolding parse_address_response_def
    by (auto simp: Let_def collect_eq undotted_def split: option.splits if_splits)
  have sound: "?own \<subseteq> (aliases_of packet q)\<^sup>* `` {qname q}"
    unfolding answer_owner_closure_def aliases_of_def by (rule closure_sound)
  have complete: "owner \<in> ?own" if "n \<le> MAX_CNAME_CHAIN" "(qname q, owner) \<in> aliases_of packet q ^^ n" for owner n
    using closure_complete [of "qname q" "{qname q}" n MAX_CNAME_CHAIN owner] that
    by (simp add: answer_owner_closure_def aliases_of_def)
  have a1: "\<exists>rr owner. offers packet q rtype rr owner a \<and> (qname q, owner) \<in> (aliases_of packet q)\<^sup>*" if "a \<in> set addrs" for a
  proof -
    from that obtain rr where rr: "rr \<in> set ?good" "addr_at packet rdlen rr = Some a" unfolding r(1) by auto
    then obtain owner where "rr_owner rr = Some owner" "owner \<in> ?own" by (auto simp: owned_def split: option.splits)
    then show ?thesis using rr q(5) sound by (intro exI [of _ rr] exI [of _ owner]) (auto simp: offers_def)
  qed
  have a2: "a \<in> set addrs \<and> ttl \<le> rr_ttl rr"
    if "offers packet q rtype rr owner a" "n \<le> MAX_CNAME_CHAIN" "(qname q, owner) \<in> aliases_of packet q ^^ n" for rr owner a n
  proof -
    have rr: "rr \<in> set ?good" "addr_at packet rdlen rr = Some a"
      using that(1) complete [OF that(2,3)] q(5) by (auto simp: offers_def owned_def)
    then show ?thesis using fold_min [OF rr(1), of "- 1"] unfolding r by force
  qed
  show ?thesis using q a1 a2 by blast
qed

lemma owned_answers:
  "list_all2 (answer_of p name rtype ttl) rrs rs \<Longrightarrow> name \<in> owners \<Longrightarrow>
   \<forall>r \<in> set rs. length r = n \<and> address_from_rdata r \<noteq> None \<Longrightarrow>
   collect_addresses p owners n rrs acc m =
     (acc @ map (\<lambda>r. the (address_from_rdata r)) rs, if rs = [] then m else min m ttl)"
  by (induction rrs rs arbitrary: acc m rule: list_all2_induct) (auto simp: answer_of_def owned_def)

lemma fitting_answers:
  "list_all2 (answer_of p name rtype ttl) rrs rs \<Longrightarrow> \<forall>r \<in> set rs. length r = n \<Longrightarrow>
   filter (\<lambda>r. rr_rtype r = rtype \<and> rr_rclass r = CLASS_IN \<and> rr_rdlen r = n) rrs = rrs"
  by (induction rrs rs rule: list_all2_induct) (auto simp: answer_of_def)

lemma learnable_no_dot: "is_learnable_label l \<Longrightarrow> CHR ''.'' \<notin> set l"
  by (auto simp: is_learnable_label_def list_all_iff ascii_alphanumeric_def ascii_alphabetic_def ascii_upper_def
      ascii_lower_def ascii_digit_def)

lemma clean_undotted:
  assumes "clean_name ls"
  shows "to_ascii_lowercase (undotted (dotted ls)) = dotted ls"
proof -
  have last: "last (join_with (CHR ''.'') xs) \<noteq> CHR ''.''" if "xs \<noteq> []" "\<forall>x \<in> set xs. x \<noteq> [] \<and> CHR ''.'' \<notin> set x" for xs
    using that by (induction "CHR ''.''" xs rule: join_with.induct) (auto simp: join_nonempty dest: last_in_set)
  have "to_ascii_lowercase l \<noteq> [] \<and> CHR ''.'' \<notin> set (to_ascii_lowercase l)" if "l \<in> set ls" for l
  proof -
    from that assms have "is_learnable_label l" by (simp add: clean_name_def)
    then show ?thesis using learnable_no_dot [of l]
      by (auto simp: to_ascii_lowercase_def is_learnable_label_def dest: lower_dot [THEN iffD1, OF sym])
  qed
  then have "dotted ls = [] \<or> last (dotted ls) \<noteq> CHR ''.''" using last [of "map to_ascii_lowercase ls"] by (cases "ls = []") auto
  then have "undotted (dotted ls) = dotted ls"
    by (auto simp: undotted_def dest!: strip_suffix_str_SomeD split: option.splits)
  then show ?thesis by (simp flip: lower_dotted)
qed

lemma reply_fields:
  assumes "length h = 12"
  shows "u16_at (reply_header h rcode an @ body) 0 = u16_at (h @ b) 0" "u16_at (reply_header h rcode an @ body) 4 = u16_at (h @ b) 4"
    "u16_at (reply_header h rcode an @ body) 6 = an"
    "(reply_header h rcode an @ body) ! 2 = char_of (0x80 OR (octet (h ! 2) AND 0x79))"
    "(reply_header h rcode an @ body) ! 3 = char_of (0x80 OR (rcode AND 0x0F))"
proof -
  obtain n0 n1 where n: "be16 an = [n0, n1]" "of_int (be_value [n0, n1]) = an" by (rule be16_pair)
  show "u16_at (reply_header h rcode an @ body) 6 = an" using n by (simp add: u16_at_def reply_header_def)
qed (use assms in \<open>simp_all add: u16_at_def reply_header_def nth_append\<close>)

lemma address_answer_reads_back:
  assumes "parse_question query = Some q" "parse_qname query DNS_HEADER_LEN \<noteq> None" "qname q \<noteq> []"
    and "address_rdlen (qtype q) = Some n" "rdata \<noteq> []" "\<forall>r \<in> set rdata. length r = n"
  shows "\<exists>resp. build_address_response query (qtype q) rdata ttl = Some (Some resp) \<and>
    parse_address_response (u16_at query 0) (qname q) (qtype q) resp =
      Answers (map (\<lambda>r. the (address_from_rdata r)) (take 65535 rdata)) (if ttl = - 1 then 0 else ttl)"
proof -
  obtain h ls t0 t1 c0 c1 rest where p: "query = h @ wire ls @ [t0, t1, c0, c1] @ rest" "length h = 12" "clean_name ls"
      "q = \<lparr>qname = dotted ls, qtype = of_int (be_value [t0, t1]), question_end = 16 + length (wire ls)\<rparr>" "u16_at query 4 \<noteq> 0"
    using parse_question_Some [OF assms(1)] assms(2) unfolding DNS_HEADER_LEN_def by metis
  have ls: "ls \<noteq> []" using assms(3) p(4) by auto
  define an where "an = (of_int (min (int (length rdata)) 65535) :: u16)"
  define rs where "rs = take 65535 rdata"
  have an: "unat an = length rs"
  proof -
    have "uint an = min (int (length rdata)) 65535" by (simp add: an_def unsigned_of_int take_bit_int_eq_self)
    then show ?thesis by (simp add: unat_eq_nat_uint rs_def min_def)
  qed
  have rs: "take (unat an) rdata = rs" unfolding an by (simp add: rs_def min_def)
  have ne: "rs \<noteq> []" using assms(5) by (simp add: rs_def)
  have small: "\<forall>r \<in> set rs. length r = n \<and> length r < 65536 \<and> address_from_rdata r \<noteq> None"
    using assms(4,6) by (auto simp: rs_def address_rdlen_def address_from_rdata_def split: if_splits dest: in_set_takeD)
  let ?body = "wire ls @ [t0, t1, c0, c1]"
  let ?H = "reply_header h 0 an"
  let ?A = "concat (map (put_answer (qtype q) ttl) rs)"
  let ?resp = "?H @ wire ls @ [t0, t1, c0, c1] @ ?A"
  have b: "build_address_response query (qtype q) rdata ttl = Some (Some ?resp)"
  proof -
    have "response_prefix query (question_end q) 0 an = Some (?H @ ?body)"
      using response_prefix_wire [OF p(2), of ?body rest 0 an] p(1,4) by simp
    then show ?thesis using assms(1,5) rs by (simp add: build_address_response_def an_def)
  qed
  note fields = reply_fields(1,2) [OF p(2), of 0 an "wire ls @ [t0, t1, c0, c1] @ ?A" "wire ls @ [t0, t1, c0, c1] @ rest", folded p(1)]
    reply_fields(3-5) [OF p(2), where body = "wire ls @ [t0, t1, c0, c1] @ ?A"]
  have q: "parse_question ?resp = Some q"
    using parse_question_wire [OF p(3), of ?H t0 t1 c0 c1 ?A] fields(2) p(4,5) by simp
  have lt: "\<forall>r \<in> set rs. length r < 65536" using small by blast
  have l: "length (?H @ ?body) = question_end q" using p(4) by simp
  have rr: "list_all2 (answer_of ?resp (dotted ls) (qtype q) ttl) (read_answer_records ?resp (question_end q) (length rs)) rs"
    using read_answers [OF p(3) ls length_reply_header [of h 0 an], of ?resp "[t0, t1, c0, c1] @ ?A" "?H @ ?body" "qtype q" ttl rs] lt
    unfolding l by simp
  let ?rrs = "read_answer_records ?resp (question_end q) (length rs)"
  let ?own = "answer_owner_closure ?resp ?rrs (qname q)"
  have own: "qname q \<in> ?own" using closure_keeps [of "{qname q}"] by (auto simp: answer_owner_closure_def)
  have fit: "filter (\<lambda>r. rr_rtype r = qtype q \<and> rr_rclass r = CLASS_IN \<and> rr_rdlen r = n) ?rrs = ?rrs"
    using fitting_answers [OF rr] small by simp
  have cnt: "unat (u16_at ?resp 6) = length rs" unfolding fields an ..
  have col: "collect_addresses ?resp ?own n ?rrs [] (- 1) = (map (\<lambda>r. the (address_from_rdata r)) rs, ttl)"
    using owned_answers [OF rr, of ?own n "[]" "- 1"] own small ne p(4) by (simp add: min_absorb2)
  have nm: "to_ascii_lowercase (undotted (qname q)) = qname q" using clean_undotted [OF p(3)] p(4) by simp
  have len: "\<not> length ?resp < DNS_HEADER_LEN" by (simp add: DNS_HEADER_LEN_def)
  have flags: "octet (?resp ! 2) AND 0x80 \<noteq> 0" "octet (?resp ! 2) AND 0x02 = 0" "octet (?resp ! 3) AND 0x0F = 0"
    unfolding fields by (rule flag_bits)+ simp
  have "parse_address_response (u16_at query 0) (qname q) (qtype q) ?resp =
      Answers (map (\<lambda>r. the (address_from_rdata r)) rs) (if ttl = - 1 then 0 else ttl)"
    unfolding parse_address_response_def undotted_def [symmetric] assms(4) option.case q nm fields(1) cnt fit col Let_def prod.case
    using len flags ne by (simp add: RCODE_NXDOMAIN_def)
  with b show ?thesis unfolding rs_def by blast
qed

lemma rdata_of_address:
  "address_from_rdata (be_bytes 4 (uint (ip4 :: u32))) = Some (V4 ip4)"
  "address_from_rdata (be_bytes 16 (uint (ip6 :: u128))) = Some (V6 ip6)"
  using uint_lt2p [of ip4] uint_lt2p [of ip6] by (simp_all add: address_from_rdata_def be_value_be_bytes)

text \<open>
  C17. What the router answers a client is what an address query of its own would accept. For a query
  with an uncompressed question for a name, building a response never panics, and reading that response
  with the query's identifier, name and type yields the addresses that were put in, up to the 65535
  records a message can count, with the given lifetime; the all-ones lifetime reads as zero.
\<close>

theorem answer_roundtrip:
  assumes "parse_question query = Some q" "parse_qname query DNS_HEADER_LEN \<noteq> None" "qname q \<noteq> []"
  shows "(qtype q = QTYPE_A \<longrightarrow> ips \<noteq> [] \<longrightarrow>
      (\<exists>resp. build_a_response query ips ttl = Some (Some resp) \<and>
         parse_address_response (u16_at query 0) (qname q) QTYPE_A resp =
           Answers (map V4 (take 65535 ips)) (if ttl = - 1 then 0 else ttl))) \<and>
    (qtype q = QTYPE_AAAA \<longrightarrow> ips6 \<noteq> [] \<longrightarrow>
      (\<exists>resp. build_aaaa_response query ips6 ttl = Some (Some resp) \<and>
         parse_address_response (u16_at query 0) (qname q) QTYPE_AAAA resp =
           Answers (map V6 (take 65535 ips6)) (if ttl = - 1 then 0 else ttl)))"
proof -
  have "\<exists>resp. build_a_response query ips ttl = Some (Some resp) \<and>
      parse_address_response (u16_at query 0) (qname q) QTYPE_A resp =
        Answers (map V4 (take 65535 ips)) (if ttl = - 1 then 0 else ttl)" if "qtype q = QTYPE_A" "ips \<noteq> []"
    using address_answer_reads_back [OF assms, of 4 "map (\<lambda>ip. be_bytes 4 (uint ip)) ips" ttl] that
    by (simp add: build_a_response_def address_rdlen_def take_map rdata_of_address comp_def split del: if_split)
  moreover have "\<exists>resp. build_aaaa_response query ips6 ttl = Some (Some resp) \<and>
      parse_address_response (u16_at query 0) (qname q) QTYPE_AAAA resp =
        Answers (map V6 (take 65535 ips6)) (if ttl = - 1 then 0 else ttl)" if "qtype q = QTYPE_AAAA" "ips6 \<noteq> []"
    using address_answer_reads_back [OF assms, of 16 "map (\<lambda>ip. be_bytes 16 (uint ip)) ips6" ttl] that
    by (simp add: build_aaaa_response_def address_rdlen_def QTYPE_A_def QTYPE_AAAA_def take_map rdata_of_address comp_def split del: if_split)
  ultimately show ?thesis by blast
qed

section \<open>Framing over TCP\<close>

text \<open>
  A framed message reads back: what the writer appends is read as the same message and leaves the
  bytes behind it, for every message of one byte up to the reader's limit; the writer refuses exactly
  the messages its length field cannot hold.
\<close>

theorem tcp_roundtrip:
  "(\<forall>e. write_tcp_message out message = Inl e \<longleftrightarrow> 65535 < int (length message) \<and> e = InvalidData) \<and>
   (message \<noteq> [] \<and> int (length message) \<le> min limit DNS_TCP_MAX_MESSAGE \<longrightarrow>
     (\<exists>framed. write_tcp_message out message = Inr (out @ framed) \<and>
        read_tcp_message (framed @ rest) limit = Inr (Some message, rest)))"
proof -
  have "\<exists>framed. write_tcp_message out message = Inr (out @ framed) \<and> read_tcp_message (framed @ rest) limit = Inr (Some message, rest)"
    if m: "message \<noteq> []" "int (length message) \<le> min limit 65535"
  proof -
    have "length (be_bytes 2 (int (length message))) = Suc (Suc 0)" by simp
    then obtain a b where ab: "be_bytes 2 (int (length message)) = [a, b]" by (metis length_0_conv length_Suc_conv)
    have v: "be_value [a, b] = int (length message)" using be_value_be_bytes [of "int (length message)" 2] m ab by simp
    show ?thesis
      using m v ab by (intro exI [of _ "a # b # message"]) (simp add: write_tcp_message_def read_tcp_message_def DNS_TCP_MAX_MESSAGE_def Let_def min_def split: if_splits)
  qed
  then show ?thesis by (auto simp: write_tcp_message_def DNS_TCP_MAX_MESSAGE_def)
qed

section \<open>Concrete packets\<close>

definition shop_query :: bytes where
  "shop_query = [CHR 0x00, CHR 0x07, CHR 0x01, CHR 0x00, CHR 0x00, CHR 0x01, CHR 0x00, CHR 0x00, CHR 0x00, CHR 0x00, CHR 0x00, CHR 0x00,
     CHR 0x04] @ ''Shop'' @ [CHR 0x02] @ ''io'' @ [CHR 0x00, CHR 0x00, CHR 0x01, CHR 0x00, CHR 0x01]"

lemma shop_query_built: "build_address_query 7 ''Shop.io.'' QTYPE_A = Some shop_query"
  by code_simp

lemma shop_learnable: "list_all is_learnable_label (labels (undotted ''Shop.io.''))"
  by code_simp

lemma shop_parsed:
  "parse_question shop_query = Some \<lparr>qname = ''shop.io'', qtype = QTYPE_A, question_end = 25\<rparr> \<and>
   parse_qname shop_query DNS_HEADER_LEN \<noteq> None"
  by code_simp

theorem query_roundtrip_witness:
  "parse_question shop_query = Some \<lparr>qname = to_ascii_lowercase (undotted ''Shop.io.''), qtype = QTYPE_A, question_end = length shop_query\<rparr>"
  using query_roundtrip [OF shop_query_built shop_learnable] by blast

theorem question_key_agrees_witness:
  "question_key shop_query = Some (''shop.io.'', QTYPE_A, u16_at shop_query 23)"
  using question_key_agrees [OF shop_parsed [THEN conjunct1]] by simp

theorem answer_roundtrip_witness:
  "\<exists>resp. build_a_response shop_query [0x0A000001, 0x0A000002] 300 = Some (Some resp) \<and>
     parse_address_response (u16_at shop_query 0) ''shop.io'' QTYPE_A resp = Answers [V4 0x0A000001, V4 0x0A000002] 300"
  using answer_roundtrip [OF shop_parsed [THEN conjunct1] shop_parsed [THEN conjunct2], of "[0x0A000001, 0x0A000002]" 300 "[]"]
  by simp

definition shop_reply :: bytes where
  "shop_reply = take 2 shop_query @ [CHR 0x81, CHR 0x80, CHR 0x00, CHR 0x01, CHR 0x00, CHR 0x02, CHR 0x00, CHR 0x00, CHR 0x00, CHR 0x00] @
     drop 12 shop_query @
     put_answer QTYPE_A 60 [CHR 0x0A, CHR 0x00, CHR 0x00, CHR 0x01] @
     [CHR 0x01, CHR ''x'', CHR 0x00] @ drop 2 (put_answer QTYPE_A 60 [CHR 0x0A, CHR 0x00, CHR 0x00, CHR 0x09])"

lemma shop_reply_parsed: "parse_address_response 7 ''Shop.io.'' QTYPE_A shop_reply = Answers [V4 0x0A000001] 60"
  by code_simp

theorem answers_on_chain_witness:
  "parse_address_response 7 ''Shop.io.'' QTYPE_A shop_reply = Answers [V4 0x0A000001] 60 \<and>
   (\<exists>q rr owner. offers shop_reply q QTYPE_A rr owner (V4 0x0A000001) \<and> (qname q, owner) \<in> (aliases_of shop_reply q)\<^sup>*)"
  using shop_reply_parsed answers_on_chain [OF shop_reply_parsed] by auto

theorem tcp_roundtrip_witness:
  "\<exists>framed. write_tcp_message [] ''ab'' = Inr ([] @ framed) \<and> read_tcp_message (framed @ ''c'') 512 = Inr (Some ''ab'', ''c'')"
  using tcp_roundtrip [of "[]" "''ab''" 512 "''c''"] by (simp add: DNS_TCP_MAX_MESSAGE_def)

text \<open>A label that holds a dot byte spells the key of two labels, so equal keys are not equal questions.\<close>

lemma question_key_collision:
  "let frame = \<lambda>name. query_frame 7 name QTYPE_A;
       one = frame (CHR 0x03 # ''a.b'' @ [CHR 0x00]); two = frame (CHR 0x01 # ''a'' @ CHR 0x01 # ''b'' @ [CHR 0x00])
   in question_key one = question_key two \<and> question_key one \<noteq> None \<and> parse_question one = None \<and> parse_question two \<noteq> None"
  by code_simp

end
