(* ===== verification/Network_Policy.thy ===== *)
theory Network_Policy
  imports Ip_Block
begin

text \<open>
  Address classes (\<open>src/core/domain/src/address_class.rs\<close>) and the widths and reserved tables of
  rule networks (\<open>src/core/domain/src/ip_network_policy.rs\<close>). The tables are the source's texts,
  read by the parser of blocks. The lemmas show what a blanket block may exempt on an attached
  segment, and that the two files agree on which addresses are reserved.
\<close>

section \<open>Address classes\<close>

datatype address_family = Ipv4Family | Ipv6Family

fun family_of :: "ip_addr \<Rightarrow> address_family" where
  "family_of (V4 _) = Ipv4Family"
| "family_of (V6 _) = Ipv6Family"

fun family_as_str :: "address_family \<Rightarrow> string" where
  "family_as_str Ipv4Family = ''ipv4''"
| "family_as_str Ipv6Family = ''ipv6''"

definition family_holds :: "address_family \<Rightarrow> ip_addr \<Rightarrow> bool" where
  "family_holds f ip \<longleftrightarrow> family_of ip = f"

definition family_from_str :: "string \<Rightarrow> address_family option" where
  "family_from_str s = (if s = ''ipv4'' then Some Ipv4Family else if s = ''ipv6'' then Some Ipv6Family else None)"

datatype address_class = Routable | Loopback | LinkLocal | Multicast | Broadcast | Unspecified | ThisNetwork

definition is_local_housekeeping :: "address_class \<Rightarrow> bool" where
  "is_local_housekeeping c \<longleftrightarrow> c \<noteq> Routable"

definition is_housekeeping_port :: "nat \<Rightarrow> bool" where
  "is_housekeeping_port port \<longleftrightarrow> port \<in> set [137, 138, 546, 547, 1900, 3702, 5353, 5355]"

text \<open>\<open>Ipv4Addr::is_private\<close> and its siblings, by octets.\<close>

definition v4_is_private :: "u32 \<Rightarrow> bool" where
  "v4_is_private ip = (case octets ip of
     a # b # _ \<Rightarrow> a = 10 \<or> a = 172 \<and> 16 \<le> b \<and> b \<le> 31 \<or> a = 192 \<and> b = 168 | _ \<Rightarrow> False)"

definition v4_is_loopback :: "u32 \<Rightarrow> bool" where
  "v4_is_loopback ip \<longleftrightarrow> octets ip ! 0 = 127"

definition v4_is_multicast :: "u32 \<Rightarrow> bool" where
  "v4_is_multicast ip \<longleftrightarrow> 224 \<le> octets ip ! 0 \<and> octets ip ! 0 \<le> 239"

definition v4_is_link_local :: "u32 \<Rightarrow> bool" where
  "v4_is_link_local ip \<longleftrightarrow> octets ip ! 0 = 169 \<and> octets ip ! 1 = 254"

definition and16 :: "int \<Rightarrow> int \<Rightarrow> int" where
  "and16 a b = a AND b"

fun class_is_private :: "ip_addr \<Rightarrow> bool" where
  "class_is_private (V4 v4) = v4_is_private v4"
| "class_is_private (V6 v6) = (and16 (segments v6 ! 0) 0xfe00 = 0xfc00)"

definition is_v6_link_local :: "u128 \<Rightarrow> bool" where
  "is_v6_link_local ip \<longleftrightarrow> and16 (segments ip ! 0) 0xffc0 = 0xfe80"

definition is_v6_link_local_multicast :: "u128 \<Rightarrow> bool" where
  "is_v6_link_local_multicast ip \<longleftrightarrow> segments ip ! 0 = 0xff02"

definition classify_v4 :: "u32 \<Rightarrow> address_class" where
  "classify_v4 ip =
     (if ip = 0 then Unspecified
      else if octets ip ! 0 = 0 then ThisNetwork
      else if v4_is_loopback ip then Loopback
      else if ip = - 1 then Broadcast
      else if v4_is_multicast ip then Multicast
      else if v4_is_link_local ip then LinkLocal
      else Routable)"

definition classify_v6 :: "u128 \<Rightarrow> address_class" where
  "classify_v6 ip =
     (if ip = 0 then Unspecified
      else if ip = 1 then Loopback
      else if and16 (segments ip ! 0) 0xff00 = 0xff00 then Multicast
      else if is_v6_link_local ip then LinkLocal
      else Routable)"

fun classify :: "ip_addr \<Rightarrow> address_class" where
  "classify (V4 v4) = classify_v4 v4"
| "classify (V6 v6) = classify_v6 v6"

definition is_local_housekeeping_endpoint :: "ip_addr \<Rightarrow> nat \<Rightarrow> bool" where
  "is_local_housekeeping_endpoint ip port \<longleftrightarrow>
     is_local_housekeeping (classify ip) \<or> (class_is_private ip \<and> is_housekeeping_port port)"

definition fixed_group_v4 :: "u32 \<Rightarrow> string option" where
  "fixed_group_v4 ip = map_of
     [([224, 0, 0, 1], ''all-nodes''), ([224, 0, 0, 2], ''all-routers''), ([224, 0, 0, 22], ''igmp''),
      ([224, 0, 0, 251], ''mdns''), ([224, 0, 0, 252], ''llmnr''), ([239, 255, 255, 250], ''ssdp'')] (octets ip)"

definition fixed_group_v6 :: "u128 \<Rightarrow> string option" where
  "fixed_group_v6 ip =
     (let seg = segments ip in
      if take 6 seg = [0xff02, 0, 0, 0, 0, 1] \<and> and16 (seg ! 6) 0xff00 = 0xff00 then Some ''ndp''
      else map_of
        [([0xff02, 0, 0, 0, 0, 0, 0, 1], ''all-nodes''), ([0xff02, 0, 0, 0, 0, 0, 0, 2], ''all-routers''),
         ([0xff02, 0, 0, 0, 0, 0, 0, 0xc], ''ssdp''), ([0xff02, 0, 0, 0, 0, 0, 0, 0x16], ''mld''),
         ([0xff02, 0, 0, 0, 0, 0, 0, 0xfb], ''mdns''), ([0xff05, 0, 0, 0, 0, 0, 0, 0xfb], ''mdns''),
         ([0xff02, 0, 0, 0, 0, 0, 1, 2], ''dhcpv6''), ([0xff05, 0, 0, 0, 0, 0, 1, 3], ''dhcpv6''),
         ([0xff02, 0, 0, 0, 0, 0, 1, 3], ''llmnr'')] seg)"

definition port_purpose :: "nat \<Rightarrow> string option" where
  "port_purpose port = map_of
     [(137, ''netbios''), (138, ''netbios''), (546, ''dhcpv6''), (547, ''dhcpv6''), (1900, ''ssdp''),
      (3702, ''ws-discovery''), (5353, ''mdns''), (5355, ''llmnr''), (6771, ''bittorrent-lpd'')] port"

definition well_known_purpose :: "ip_addr \<Rightarrow> nat \<Rightarrow> string option" where
  "well_known_purpose ip port =
     (let cls = classify ip;
          fixed = (case ip of V4 v4 \<Rightarrow> fixed_group_v4 v4 | V6 v6 \<Rightarrow> fixed_group_v6 v6);
          named_by_port = (cls = Multicast \<or> cls = Broadcast \<or> class_is_private ip)
      in or_opt (or_opt fixed (if named_by_port then port_purpose port else None))
           (case cls of Multicast \<Rightarrow> Some ''multicast'' | Broadcast \<Rightarrow> Some ''broadcast''
            | LinkLocal \<Rightarrow> Some ''link-local'' | _ \<Rightarrow> None))"

section \<open>Networks a rule may name\<close>

definition widest_rule_prefix :: "bool \<Rightarrow> nat" where
  "widest_rule_prefix v4 = (if v4 then 8 else 16)"

definition fail_closed_widest_prefix :: "bool \<Rightarrow> nat" where
  "fail_closed_widest_prefix v4 = (if v4 then 16 else 48)"

definition wider_than_rule_allows :: "ip_block \<Rightarrow> bool" where
  "wider_than_rule_allows b \<longleftrightarrow> prefix_len b < widest_rule_prefix (is_ipv4 (network b))"

datatype ip_value_kind = Address | Subnet | Range

definition ip_value_kind_of :: "string \<Rightarrow> ip_value_kind option" where
  "ip_value_kind_of text0 =
     (let text = trim text0 in
      if parse_ip_addr text \<noteq> None then Some Address
      else if block_parse text \<noteq> None then Some Subnet
      else if range_parse text \<noteq> None then Some Range
      else None)"

fun rule_type_slug :: "ip_value_kind \<Rightarrow> string" where
  "rule_type_slug Address = ''exact-ip''"
| "rule_type_slug Subnet = ''subnet''"
| "rule_type_slug Range = ''ip-range''"

definition prefix_of_width :: "bool \<Rightarrow> nat \<Rightarrow> nat" where
  "prefix_of_width v4 width = (let bits = (if v4 then 32 else 128) in bits - min width bits)"

definition RESERVED :: "(string \<times> address_class) list" where
  "RESERVED =
     [(''0.0.0.0/8'', ThisNetwork), (''127.0.0.0/8'', Loopback), (''224.0.0.0/4'', Multicast),
      (''255.255.255.255/32'', Broadcast), (''::/128'', Unspecified), (''::1/128'', Loopback), (''ff00::/8'', Multicast)]"

definition LINK_LOCAL :: "string list" where
  "LINK_LOCAL = [''169.254.0.0/16'', ''fe80::/10'']"

definition PRIVATE :: "string list" where
  "PRIVATE = [''10.0.0.0/8'', ''172.16.0.0/12'', ''192.168.0.0/16'', ''100.64.0.0/10'', ''fc00::/7'']"

definition networks :: "string list \<Rightarrow> ip_block list" where
  "networks texts = List.map_filter block_parse texts"

definition reserved_overlap :: "ip_block \<Rightarrow> address_class option" where
  "reserved_overlap block =
     map_option snd (find (\<lambda>(net, _). case block_parse net of Some n \<Rightarrow> block_overlaps n block | None \<Rightarrow> False) RESERVED)"

definition touches_link_local :: "ip_block \<Rightarrow> bool" where
  "touches_link_local block \<longleftrightarrow> list_ex (\<lambda>net. block_overlaps net block) (networks LINK_LOCAL)"

definition is_private :: "ip_block \<Rightarrow> bool" where
  "is_private block \<longleftrightarrow> list_ex (\<lambda>net. block_covers net block) (networks PRIVATE)"

definition is_private_address :: "ip_addr \<Rightarrow> bool" where
  "is_private_address ip \<longleftrightarrow> list_ex (\<lambda>net. block_contains net ip) (networks PRIVATE)"

definition private_networks :: "ip_block list" where
  "private_networks = networks PRIVATE"

definition wider_than_fail_closed :: "ip_block \<Rightarrow> bool" where
  "wider_than_fail_closed b \<longleftrightarrow> prefix_len b < fail_closed_widest_prefix (is_ipv4 (network b))"

datatype segment_exemption = Exempt "ip_block list" | TooWide | NotPrivate

definition local_segment_exemption :: "ip_block \<Rightarrow> segment_exemption" where
  "local_segment_exemption segment =
     (if wider_than_rule_allows segment then TooWide
      else
        let exempt = List.map_filter (\<lambda>net. if block_covers net segment then Some segment
              else if block_covers segment net then Some net else None)
            (filter (\<lambda>net. block_is_ipv4 net = block_is_ipv4 segment) (networks PRIVATE @ networks LINK_LOCAL))
        in if exempt = [] then NotPrivate else Exempt exempt)"

section \<open>Exempt segments\<close>

text \<open>Inside private, shared or link-local space.\<close>

definition local_address :: "ip_addr \<Rightarrow> bool" where
  "local_address a \<longleftrightarrow> is_private_address a \<or> list_ex (\<lambda>net. block_contains net a) (networks LINK_LOCAL)"

lemma networks_wf: "net \<in> set (networks ts) \<Longrightarrow> wf_block net"
  by (auto simp: networks_def map_filter_def dest: block_parse_wf)

lemma nest_or_disjoint:
  assumes "wf_block a" "wf_block b" "\<not> block_covers a b" "\<not> block_covers b a"
  shows "\<not> (block_contains a x \<and> block_contains b x)"
  using block_overlaps_iff [OF assms(1,2)] assms by (auto simp: block_overlaps_def block_contains_iff)

lemma covers_contains:
  "wf_block a \<Longrightarrow> wf_block b \<Longrightarrow> block_covers a b \<Longrightarrow> block_contains b x \<Longrightarrow> block_contains a x"
  using block_covers_iff [of a b] by (auto simp: block_contains_iff)

lemma exempt_pieces:
  assumes "wf_block segment" "\<forall>net \<in> set nets. wf_block net"
  shows "(\<exists>b \<in> set (List.map_filter (\<lambda>net. if block_covers net segment then Some segment
              else if block_covers segment net then Some net else None)
            (filter (\<lambda>net. block_is_ipv4 net = block_is_ipv4 segment) nets)). block_contains b a) \<longleftrightarrow>
    block_contains segment a \<and> (\<exists>net \<in> set nets. block_contains net a)"
  using assms(2)
proof (induction nets)
  case (Cons net nets)
  have fam: "block_contains segment a \<Longrightarrow> block_contains net a \<Longrightarrow> block_is_ipv4 net = block_is_ipv4 segment"
    by (simp add: block_contains_def)
  have w: "wf_block net" using Cons.prems by simp
  have IH: "(\<exists>b \<in> set (List.map_filter (\<lambda>net. if block_covers net segment then Some segment
              else if block_covers segment net then Some net else None)
            (filter (\<lambda>net. block_is_ipv4 net = block_is_ipv4 segment) nets)). block_contains b a) \<longleftrightarrow>
    block_contains segment a \<and> (\<exists>net \<in> set nets. block_contains net a)"
    using Cons by simp
  show ?case
  proof (cases "block_is_ipv4 net = block_is_ipv4 segment")
    case False
    then show ?thesis using IH fam by (auto simp: map_filter_simps)
  next
    case True
    consider "block_covers net segment" | "\<not> block_covers net segment" "block_covers segment net"
      | "\<not> block_covers net segment" "\<not> block_covers segment net" by blast
    then show ?thesis
    proof cases
      case 1
      then show ?thesis using IH True covers_contains [OF w assms(1) 1, of a] by (auto simp: map_filter_simps)
    next
      case 2
      then show ?thesis using IH True covers_contains [OF assms(1) w 2(2), of a] by (auto simp: map_filter_simps)
    next
      case 3
      then show ?thesis using IH True nest_or_disjoint [OF w assms(1) 3, of a] by (auto simp: map_filter_simps)
    qed
  qed
qed (simp add: map_filter_simps)

text \<open>
  C16. A blanket block exempts exactly the local part of an attached segment. For a segment no wider
  than a rule may be, an address is exempt if and only if it lies in the segment and in private,
  shared or link-local space, so no public address ever is; of a wider segment nothing is.
\<close>

theorem exemption_exact:
  assumes "wf_block segment"
  shows "case local_segment_exemption segment of
      TooWide \<Rightarrow> wider_than_rule_allows segment
    | NotPrivate \<Rightarrow> \<not> wider_than_rule_allows segment \<and> (\<forall>a. block_contains segment a \<longrightarrow> \<not> local_address a)
    | Exempt bs \<Rightarrow> \<not> wider_than_rule_allows segment \<and>
        (\<forall>a. (\<exists>b \<in> set bs. block_contains b a) \<longleftrightarrow> block_contains segment a \<and> local_address a)"
proof -
  have "(\<exists>b \<in> set (List.map_filter (\<lambda>net. if block_covers net segment then Some segment
              else if block_covers segment net then Some net else None)
            (filter (\<lambda>net. block_is_ipv4 net = block_is_ipv4 segment) (networks PRIVATE @ networks LINK_LOCAL))).
      block_contains b a) \<longleftrightarrow> block_contains segment a \<and> local_address a" for a
    using exempt_pieces [OF assms, of "networks PRIVATE @ networks LINK_LOCAL" a] networks_wf
    by (auto simp: local_address_def is_private_address_def list_ex_iff)
  then show ?thesis
    unfolding local_segment_exemption_def Let_def
    by (simp split: segment_exemption.split) (metis empty_iff list.set(1))
qed



lemma private_nets:
  "networks PRIVATE = [\<lparr>network = V4 0x0A000000, prefix_len = 8\<rparr>, \<lparr>network = V4 0xAC100000, prefix_len = 12\<rparr>,
     \<lparr>network = V4 0xC0A80000, prefix_len = 16\<rparr>, \<lparr>network = V4 0x64400000, prefix_len = 10\<rparr>,
     \<lparr>network = V6 (push_bit 112 0xfc00), prefix_len = 7\<rparr>]"
  by code_simp

lemma link_local_nets:
  "networks LINK_LOCAL = [\<lparr>network = V4 0xA9FE0000, prefix_len = 16\<rparr>, \<lparr>network = V6 (push_bit 112 0xfe80), prefix_len = 10\<rparr>]"
  by code_simp

theorem exemption_exact_witness:
  "local_segment_exemption \<lparr>network = V4 0xC0000000, prefix_len = 8\<rparr> = Exempt [\<lparr>network = V4 0xC0A80000, prefix_len = 16\<rparr>] \<and>
   (\<forall>a. block_contains \<lparr>network = V4 0xC0A80000, prefix_len = 16\<rparr> a \<longleftrightarrow>
     block_contains \<lparr>network = V4 0xC0000000, prefix_len = 8\<rparr> a \<and> local_address a)"
proof -
  have e: "local_segment_exemption \<lparr>network = V4 0xC0000000, prefix_len = 8\<rparr> = Exempt [\<lparr>network = V4 0xC0A80000, prefix_len = 16\<rparr>]"
    unfolding local_segment_exemption_def private_nets link_local_nets by code_simp
  have "block_new (V4 0xC0000000) 8 = Some \<lparr>network = V4 0xC0000000, prefix_len = 8\<rparr>" by code_simp
  from exemption_exact [OF block_new_wf(1) [OF this]] e show ?thesis by simp
qed

section \<open>Agreement of the two tables\<close>

definition host_block :: "ip_addr \<Rightarrow> ip_block" where
  "host_block a = \<lparr>network = a, prefix_len = family_bits a\<rparr>"

lemma host_block: "wf_block (host_block a)" "block_set (host_block a) = {a}"
  by (auto simp: host_block_def wf_block_def host_bits_def block_set_def addr_eq_iff)

lemma overlaps_host: "wf_block b \<Longrightarrow> block_overlaps b (host_block a) \<longleftrightarrow> a \<in> block_set b"
  by (simp add: block_overlaps_iff host_block)

lemma uint_drop_bit: "uint (drop_bit n w) = uint w div 2 ^ n" for w :: "'a::len word"
  using uint_lt2p [of w] by (subst unsigned_drop_bit_eq) (simp add: drop_bit_eq_div take_bit_int_eq_self)

lemma octet_int:
  "octets w ! 0 = uint w div 2 ^ 24" "octets w ! Suc 0 = uint w div 2 ^ 16 mod 256"
proof -
  have "uint w < 2 ^ 32" using uint_lt2p [of w] by simp
  then have "uint w div 2 ^ 24 < 256" "0 \<le> uint w div 2 ^ 24" by (simp_all add: pos_imp_zdiv_nonneg_iff)
  then show "octets w ! 0 = uint w div 2 ^ 24" by (simp add: octets_def uint_drop_bit mod_pos_pos_trivial)
  show "octets w ! Suc 0 = uint w div 2 ^ 16 mod 256" by (simp add: octets_def uint_drop_bit)
qed

lemma segment_int: "segments w ! 0 = uint w div 2 ^ 112" "uint w div 2 ^ 112 < 65536"
proof -
  have "uint w < 2 ^ 128" using uint_lt2p [of w] by simp
  then show "uint w div 2 ^ 112 < 65536" by simp
  moreover have "0 \<le> uint w div 2 ^ 112" by (simp add: pos_imp_zdiv_nonneg_iff)
  ultimately show "segments w ! 0 = uint w div 2 ^ 112" by (simp add: segments_def uint_drop_bit mod_pos_pos_trivial)
qed


lemma and16_high:
  assumes "0 \<le> s" "s < 65536"
  shows "and16 s 0xff00 = s div 256 * 256" "and16 s 0xffc0 = s div 64 * 64"
proof -
  have t: "take_bit 16 s = s" using assms by (simp add: take_bit_int_eq_self)
  have h: "s AND (mask 16 AND NOT (mask k)) = s div 2 ^ k * 2 ^ k" for k
  proof -
    have "s AND (mask 16 AND NOT (mask k)) = take_bit 16 s AND NOT (mask k)" by (simp add: take_bit_eq_mask and.assoc)
    also have "\<dots> = push_bit k (drop_bit k s)" unfolding t by (rule bit_eqI) (auto simp: bit_simps)
    finally show ?thesis by (simp add: push_bit_eq_mult drop_bit_eq_div)
  qed
  have m: "mask 16 AND NOT (mask 8) = (0xff00 :: int)" "mask 16 AND NOT (mask 6) = (0xffc0 :: int)" by code_simp+
  show "and16 s 0xff00 = s div 256 * 256" using h [of 8] unfolding m and16_def by simp
  show "and16 s 0xffc0 = s div 64 * 64" using h [of 6] unfolding m and16_def by simp
qed

lemma in_v4: "V4 x \<in> block_set \<lparr>network = V4 n, prefix_len = p\<rparr> \<longleftrightarrow> uint n \<le> uint x \<and> uint x < uint n + 2 ^ (32 - p)"
proof -
  have "V4 x \<in> block_set \<lparr>network = V4 n, prefix_len = p\<rparr> \<longleftrightarrow> int (unat n) \<le> int (unat x) \<and> int (unat x) < int (unat n + 2 ^ (32 - p))"
    by (simp only: of_nat_le_iff of_nat_less_iff) (simp add: block_set_def host_bits_def family_bits_def)
  then show ?thesis by simp
qed

lemma in_v6: "V6 x \<in> block_set \<lparr>network = V6 n, prefix_len = p\<rparr> \<longleftrightarrow> uint n \<le> uint x \<and> uint x < uint n + 2 ^ (128 - p)"
proof -
  have "V6 x \<in> block_set \<lparr>network = V6 n, prefix_len = p\<rparr> \<longleftrightarrow> int (unat n) \<le> int (unat x) \<and> int (unat x) < int (unat n + 2 ^ (128 - p))"
    by (simp only: of_nat_le_iff of_nat_less_iff) (simp add: block_set_def host_bits_def family_bits_def)
  then show ?thesis by simp
qed

lemma in_other_family:
  "V6 x \<notin> block_set \<lparr>network = V4 n, prefix_len = p\<rparr>" "V4 y \<notin> block_set \<lparr>network = V6 m, prefix_len = p\<rparr>"
  by (simp_all add: block_set_def)

lemma reserved_nets:
  "block_parse ''0.0.0.0/8'' = Some \<lparr>network = V4 0, prefix_len = 8\<rparr>"
  "block_parse ''127.0.0.0/8'' = Some \<lparr>network = V4 0x7F000000, prefix_len = 8\<rparr>"
  "block_parse ''224.0.0.0/4'' = Some \<lparr>network = V4 0xE0000000, prefix_len = 4\<rparr>"
  "block_parse ''255.255.255.255/32'' = Some \<lparr>network = V4 0xFFFFFFFF, prefix_len = 32\<rparr>"
  "block_parse ''::/128'' = Some \<lparr>network = V6 0, prefix_len = 128\<rparr>"
  "block_parse ''::1/128'' = Some \<lparr>network = V6 1, prefix_len = 128\<rparr>"
  "block_parse ''ff00::/8'' = Some \<lparr>network = V6 0xff000000000000000000000000000000, prefix_len = 8\<rparr>"
proof -
  have "block_parse ''0.0.0.0/8'' = Some \<lparr>network = V4 0, prefix_len = 8\<rparr> \<and>
    block_parse ''127.0.0.0/8'' = Some \<lparr>network = V4 0x7F000000, prefix_len = 8\<rparr> \<and>
    block_parse ''224.0.0.0/4'' = Some \<lparr>network = V4 0xE0000000, prefix_len = 4\<rparr> \<and>
    block_parse ''255.255.255.255/32'' = Some \<lparr>network = V4 0xFFFFFFFF, prefix_len = 32\<rparr> \<and>
    block_parse ''::/128'' = Some \<lparr>network = V6 0, prefix_len = 128\<rparr> \<and>
    block_parse ''::1/128'' = Some \<lparr>network = V6 1, prefix_len = 128\<rparr> \<and>
    block_parse ''ff00::/8'' = Some \<lparr>network = V6 0xff000000000000000000000000000000, prefix_len = 8\<rparr>"
    by code_simp
  then show "block_parse ''0.0.0.0/8'' = Some \<lparr>network = V4 0, prefix_len = 8\<rparr>"
    "block_parse ''127.0.0.0/8'' = Some \<lparr>network = V4 0x7F000000, prefix_len = 8\<rparr>"
    "block_parse ''224.0.0.0/4'' = Some \<lparr>network = V4 0xE0000000, prefix_len = 4\<rparr>"
    "block_parse ''255.255.255.255/32'' = Some \<lparr>network = V4 0xFFFFFFFF, prefix_len = 32\<rparr>"
    "block_parse ''::/128'' = Some \<lparr>network = V6 0, prefix_len = 128\<rparr>"
    "block_parse ''::1/128'' = Some \<lparr>network = V6 1, prefix_len = 128\<rparr>"
    "block_parse ''ff00::/8'' = Some \<lparr>network = V6 0xff000000000000000000000000000000, prefix_len = 8\<rparr>" by blast+
qed

lemma reserved_overlap_host:
  "reserved_overlap (host_block a) =
     (if a \<in> block_set \<lparr>network = V4 0, prefix_len = 8\<rparr> then Some ThisNetwork
      else if a \<in> block_set \<lparr>network = V4 0x7F000000, prefix_len = 8\<rparr> then Some Loopback
      else if a \<in> block_set \<lparr>network = V4 0xE0000000, prefix_len = 4\<rparr> then Some Multicast
      else if a \<in> block_set \<lparr>network = V4 0xFFFFFFFF, prefix_len = 32\<rparr> then Some Broadcast
      else if a \<in> block_set \<lparr>network = V6 0, prefix_len = 128\<rparr> then Some Unspecified
      else if a \<in> block_set \<lparr>network = V6 1, prefix_len = 128\<rparr> then Some Loopback
      else if a \<in> block_set \<lparr>network = V6 0xff000000000000000000000000000000, prefix_len = 8\<rparr> then Some Multicast
      else None)"
  unfolding reserved_overlap_def RESERVED_def
  using reserved_nets [THEN block_parse_wf] by (simp add: reserved_nets overlaps_host)


lemma link_local_host:
  "touches_link_local (host_block a) \<longleftrightarrow> a \<in> block_set \<lparr>network = V4 0xA9FE0000, prefix_len = 16\<rparr> \<or>
     a \<in> block_set \<lparr>network = V6 0xfe800000000000000000000000000000, prefix_len = 10\<rparr>"
proof -
  have e: "push_bit 112 0xfe80 = (0xfe800000000000000000000000000000 :: u128)" by simp
  have "wf_block \<lparr>network = V4 0xA9FE0000, prefix_len = 16\<rparr>" "wf_block \<lparr>network = V6 (push_bit 112 0xfe80), prefix_len = 10\<rparr>"
    using networks_wf [of _ LINK_LOCAL] unfolding link_local_nets by auto
  then show ?thesis unfolding touches_link_local_def link_local_nets by (simp add: overlaps_host e)
qed

lemma v4_intervals:
  fixes x :: u32
  defines "n \<equiv> uint x"
  shows "octets x ! 0 = 0 \<longleftrightarrow> n < 16777216"
    "v4_is_loopback x \<longleftrightarrow> 2130706432 \<le> n \<and> n < 2147483648"
    "v4_is_multicast x \<longleftrightarrow> 3758096384 \<le> n \<and> n < 4026531840"
    "v4_is_link_local x \<longleftrightarrow> 2851995648 \<le> n \<and> n < 2852061184"
    "x = 0 \<longleftrightarrow> n = 0" "x = - 1 \<longleftrightarrow> n = 4294967295"
proof -
  have k: "octets x ! 0 = n div 16777216" "octets x ! Suc 0 = n div 65536 mod 256"
    using octet_int [of x] by (simp_all add: n_def)
  have n: "0 \<le> n" by (simp add: n_def)
  show "octets x ! 0 = 0 \<longleftrightarrow> n < 16777216" using n unfolding k by auto
  show "v4_is_loopback x \<longleftrightarrow> 2130706432 \<le> n \<and> n < 2147483648" unfolding v4_is_loopback_def k by auto
  show "v4_is_multicast x \<longleftrightarrow> 3758096384 \<le> n \<and> n < 4026531840" unfolding v4_is_multicast_def k by auto
  have "n div 16777216 = n div 65536 div 256" by (simp add: zdiv_zmult2_eq [symmetric])
  moreover have "m div 256 = 169 \<and> m mod 256 = 254 \<longleftrightarrow> m = 43518" for m :: int by presburger
  moreover have "n div 65536 = 43518 \<longleftrightarrow> 2851995648 \<le> n \<and> n < 2852061184" by auto
  ultimately show "v4_is_link_local x \<longleftrightarrow> 2851995648 \<le> n \<and> n < 2852061184"
    by (simp only: v4_is_link_local_def k One_nat_def)
  have "uint (- 1 :: u32) = 4294967295" by code_simp
  then show "x = 0 \<longleftrightarrow> n = 0" "x = - 1 \<longleftrightarrow> n = 4294967295" by (simp_all add: n_def word_uint_eq_iff)
qed

lemma reserved_v4:
  "reserved_overlap (host_block (V4 x)) = (if x = 0 then Some ThisNetwork
     else case classify_v4 x of Routable \<Rightarrow> None | LinkLocal \<Rightarrow> None | c \<Rightarrow> Some c)"
  "touches_link_local (host_block (V4 x)) \<longleftrightarrow> classify_v4 x = LinkLocal"
proof -
  define n where "n = uint x"
  have n: "0 \<le> n" "n < 4294967296" using uint_lt2p [of x] by (simp_all add: n_def)
  show "reserved_overlap (host_block (V4 x)) = (if x = 0 then Some ThisNetwork
     else case classify_v4 x of Routable \<Rightarrow> None | LinkLocal \<Rightarrow> None | c \<Rightarrow> Some c)"
    unfolding reserved_overlap_host in_v4 classify_v4_def v4_intervals n_def [symmetric]
    using n by (simp add: in_other_family)
  show "touches_link_local (host_block (V4 x)) \<longleftrightarrow> classify_v4 x = LinkLocal"
    unfolding link_local_host in_v4 classify_v4_def v4_intervals n_def [symmetric]
    using n by (simp add: in_other_family)
qed

lemma reserved_v6:
  "reserved_overlap (host_block (V6 x)) = (case classify_v6 x of Routable \<Rightarrow> None | LinkLocal \<Rightarrow> None | c \<Rightarrow> Some c)"
  "touches_link_local (host_block (V6 x)) \<longleftrightarrow> classify_v6 x = LinkLocal"
proof -
  define n where "n = uint x"
  have n: "0 \<le> n" "n < 2 ^ 128" "x = 0 \<longleftrightarrow> n = 0" "x = 1 \<longleftrightarrow> n = 1"
    using uint_lt2p [of x] by (auto simp: n_def word_uint_eq_iff)
  define g where "g = n div 2 ^ 112"
  have g: "0 \<le> g" "g < 65536" "segments x ! 0 = g" using segment_int [of x] by (simp_all add: g_def n_def pos_imp_zdiv_nonneg_iff)
  have k: "and16 g 0xff00 = 0xff00 \<longleftrightarrow> 0xff00 \<le> g" "and16 g 0xffc0 = 0xfe80 \<longleftrightarrow> 0xfe80 \<le> g \<and> g < 0xfec0"
    using and16_high [OF g(1,2)] g(1,2) by auto
  show "reserved_overlap (host_block (V6 x)) = (case classify_v6 x of Routable \<Rightarrow> None | LinkLocal \<Rightarrow> None | c \<Rightarrow> Some c)"
    unfolding reserved_overlap_host in_v6 classify_v6_def is_v6_link_local_def g(3) k
    using n by (auto simp: in_other_family g_def n_def [symmetric])
  show "touches_link_local (host_block (V6 x)) \<longleftrightarrow> classify_v6 x = LinkLocal"
    unfolding link_local_host in_v6 classify_v6_def is_v6_link_local_def g(3) k
    using n by (auto simp: in_other_family g_def n_def [symmetric])
qed

text \<open>
  C38. The two tables of special addresses agree: a single address is reserved for rules exactly when
  the classifier calls it neither routable nor link-local, with the same class except that the
  policy names the address \<open>0.0.0.0\<close> by its network, and rules warn of it exactly when it is
  link-local.
\<close>

theorem classes_agree:
  "reserved_overlap (host_block a) = (if a = V4 0 then Some ThisNetwork
     else case classify a of Routable \<Rightarrow> None | LinkLocal \<Rightarrow> None | c \<Rightarrow> Some c) \<and>
   touches_link_local (host_block a) = (classify a = LinkLocal)"
  by (cases a) (simp_all add: reserved_v4 reserved_v6)

end
