(* ===== verification/Fake_Ip_Scope.thy ===== *)
theory Fake_Ip_Scope
  imports Fake_Ip_Allocator Host_Names
begin

text \<open>
  Which host names get a fake address: the scope of \<open>src/core/platform/api/src/fake_ip/scope.rs\<close>
  (feature switch, literals, local names, peer-to-peer names and groups, user exclusions) and the
  exclusions found at run time (\<open>RuntimeHostExclusions\<close> of
  \<open>src/core/services/service-runtime/src/fake_ip/self_heal.rs\<close>). The two exclusion tests are
  written differently in the code; both cover a name and everything below it.
\<close>

section \<open>Definitions\<close>

datatype app_group_kind = Hypervisor | KernelVirtualNet | AndroidEmulator | ConsoleEmulator
  | BitTorrent | P2pFileSharing | CryptoNode

definition suppresses_fcrdns_learning :: "app_group_kind \<Rightarrow> bool" where
  "suppresses_fcrdns_learning k \<longleftrightarrow> k \<in> set [BitTorrent, P2pFileSharing, CryptoNode]"

definition excluded_from_fake_ip :: "app_group_kind \<Rightarrow> bool" where
  "excluded_from_fake_ip k \<longleftrightarrow> k \<in> set [BitTorrent, P2pFileSharing, CryptoNode]"

definition is_route_assignable :: "app_group_kind \<Rightarrow> bool" where
  "is_route_assignable k \<longleftrightarrow> k \<noteq> KernelVirtualNet"

definition NON_ROUTABLE_SUFFIXES :: "string list" where
  "NON_ROUTABLE_SUFFIXES = [''localhost'', ''local'', ''localdomain'', ''home.arpa'', ''internal'',
     ''intranet'', ''lan'', ''onion'', ''in-addr.arpa'', ''ip6.arpa'']"

definition P2P_FIRST_LABELS :: "string list" where
  "P2P_FIRST_LABELS = [''tracker'', ''retracker'', ''announce'', ''bt'']"

definition P2P_SUFFIXES :: "string list" where
  "P2P_SUFFIXES = [''opentrackr.org'', ''openbittorrent.com'', ''stealth.si'', ''demonii.com'', ''desync.com'',
     ''torrent.eu.org'', ''explodie.org'', ''nanopool.org'', ''2miners.com'', ''f2pool.com'', ''ethermine.org'',
     ''nicehash.com'', ''minergate.com'', ''supportxmr.com'', ''hashvault.pro'', ''herominers.com'',
     ''moneroocean.stream'', ''unmineable.com'', ''viabtc.com'', ''antpool.com'']"

datatype real_ip_reason = FeatureDisabled | ExcludedAppGroup | ExcludedHost | LiteralAddress | NonRoutableName

datatype fake_ip_verdict = FakeIp | RealIp real_ip_reason

fun is_fake_ip :: "fake_ip_verdict \<Rightarrow> bool" where
  "is_fake_ip FakeIp = True"
| "is_fake_ip (RealIp _) = False"

fun verdict_reason :: "fake_ip_verdict \<Rightarrow> real_ip_reason option" where
  "verdict_reason FakeIp = None"
| "verdict_reason (RealIp reason) = Some reason"

record fake_ip_scope =
  fs_enabled :: bool
  fs_excluded_hosts :: "string list"

definition scope_disabled :: fake_ip_scope where
  "scope_disabled = \<lparr>fs_enabled = False, fs_excluded_hosts = []\<rparr>"

definition scope_enabled :: "string list \<Rightarrow> fake_ip_scope" where
  "scope_enabled excluded_hosts = \<lparr>fs_enabled = True,
     fs_excluded_hosts = remdups_adj (sort (filter (\<lambda>h. h \<noteq> []) (map normalize_hostname excluded_hosts)))\<rparr>"

definition host_matches :: "string \<Rightarrow> string \<Rightarrow> bool" where
  "host_matches pattern host =
     (if pattern = [] \<or> host = [] then False else host = pattern \<or> suffix (dot # pattern) host)"

definition is_non_routable_name :: "string \<Rightarrow> bool" where
  "is_non_routable_name host =
     (let key = normalize_hostname host in
      if key = [] then True
      else if list_ex (\<lambda>s. host_matches s key) NON_ROUTABLE_SUFFIXES then True
      else dot \<notin> set key)"

definition is_p2p_name :: "string \<Rightarrow> bool" where
  "is_p2p_name key =
     (let ls = labels key in
      if length ls \<ge> 3 \<and> rev (dropWhile ascii_digit (rev (hd ls))) \<in> set P2P_FIRST_LABELS then True
      else list_ex (\<lambda>s. host_matches s key) P2P_SUFFIXES)"

definition decide :: "fake_ip_scope \<Rightarrow> string \<Rightarrow> app_group_kind option \<Rightarrow> fake_ip_verdict" where
  "decide scope host app_group =
     (if \<not> fs_enabled scope then RealIp FeatureDisabled
      else if (case app_group of Some k \<Rightarrow> excluded_from_fake_ip k | None \<Rightarrow> False) then RealIp ExcludedAppGroup
      else
        let key = normalize_hostname host in
        if parse_ip_addr key \<noteq> None then RealIp LiteralAddress
        else if is_non_routable_name key then RealIp NonRoutableName
        else if is_p2p_name key then RealIp ExcludedAppGroup
        else if list_ex (\<lambda>pattern. host_matches pattern key) (fs_excluded_hosts scope) then RealIp ExcludedHost
        else FakeIp)"

text \<open>The hash set of excluded names is a list without duplicates.\<close>

definition rx_contains :: "string list \<Rightarrow> string \<Rightarrow> bool" where
  "rx_contains hosts host =
     (let key = normalize_hostname host in
      if key = [] then False
      else if key \<in> set hosts then True
      else list_ex (\<lambda>i. key ! i = dot \<and> drop (i + 1) key \<noteq> [] \<and> drop (i + 1) key \<in> set hosts) [0 ..< length key])"

definition rx_insert :: "string \<Rightarrow> string list \<Rightarrow> bool \<times> string list" where
  "rx_insert host hosts =
     (let key = normalize_hostname host in
      if key = [] then (False, hosts)
      else if key \<in> set hosts then (False, hosts) else (True, hosts @ [key]))"

section \<open>Covered names\<close>

lemma host_matches_iff: "host_matches p h \<longleftrightarrow> p \<noteq> [] \<and> h \<noteq> [] \<and> (h = p \<or> (\<exists>q. h = q @ dot # p))"
  by (auto simp: host_matches_def suffix_def)

lemma host_matches_labels:
  assumes "p \<noteq> []" "h \<noteq> []"
  shows "host_matches p h \<longleftrightarrow> suffix (labels p) (labels h)"
proof
  assume "host_matches p h"
  then show "suffix (labels p) (labels h)" by (auto simp: host_matches_iff labels_sep suffix_def)
next
  assume "suffix (labels p) (labels h)"
  then obtain ps where ps: "labels h = ps @ labels p" by (auto simp: suffix_def)
  show "host_matches p h"
  proof (cases "ps = []")
    case True
    then show ?thesis using ps assms by (simp add: host_matches_iff split_on_inject)
  next
    case False
    then have "h = join_with dot ps @ dot # p" using ps labels_eq_append [of h ps p] by simp
    then show ?thesis using assms by (auto simp: host_matches_iff)
  qed
qed

lemma dot_split_iff:
  "(\<exists>i < length k. k ! i = c \<and> drop (i + 1) k \<noteq> [] \<and> drop (i + 1) k \<in> S) \<longleftrightarrow> (\<exists>p \<in> S. p \<noteq> [] \<and> (\<exists>q. k = q @ c # p))"
proof
  assume "\<exists>i < length k. k ! i = c \<and> drop (i + 1) k \<noteq> [] \<and> drop (i + 1) k \<in> S"
  then obtain i where i: "i < length k" "k ! i = c" "drop (i + 1) k \<noteq> []" "drop (i + 1) k \<in> S" by blast
  have "k = take i k @ c # drop (i + 1) k" using id_take_nth_drop [OF i(1)] unfolding i(2) Suc_eq_plus1 .
  then show "\<exists>p \<in> S. p \<noteq> [] \<and> (\<exists>q. k = q @ c # p)" using i(3,4) by blast
next
  assume "\<exists>p \<in> S. p \<noteq> [] \<and> (\<exists>q. k = q @ c # p)"
  then obtain p q where p: "p \<in> S" "p \<noteq> []" "k = q @ c # p" by blast
  show "\<exists>i < length k. k ! i = c \<and> drop (i + 1) k \<noteq> [] \<and> drop (i + 1) k \<in> S"
    by (rule exI [of _ "length q"]) (simp add: p)
qed

lemma rx_contains_iff:
  assumes "[] \<notin> set hosts"
  shows "rx_contains hosts h \<longleftrightarrow> (\<exists>p \<in> set hosts. host_matches p (normalize_hostname h))"
proof -
  define k where "k = normalize_hostname h"
  have "rx_contains hosts h \<longleftrightarrow> k \<noteq> [] \<and> (k \<in> set hosts \<or>
      (\<exists>i < length k. k ! i = dot \<and> drop (i + 1) k \<noteq> [] \<and> drop (i + 1) k \<in> set hosts))"
    unfolding rx_contains_def Let_def list_ex_iff k_def [symmetric] set_upt atLeast0LessThan by (simp add: Bex_def)
  also have "\<dots> \<longleftrightarrow> (\<exists>p \<in> set hosts. host_matches p k)"
    using assms unfolding dot_split_iff host_matches_iff by blast
  finally show ?thesis by (simp add: k_def)
qed


text \<open>The names a scope and the run-time exclusions leave to the fake range.\<close>

lemma decide_fake:
  "decide scope host None = FakeIp \<longleftrightarrow> fs_enabled scope \<and> parse_ip_addr (normalize_hostname host) = None \<and>
     \<not> is_non_routable_name (normalize_hostname host) \<and> \<not> is_p2p_name (normalize_hostname host) \<and>
     (\<forall>p \<in> set (fs_excluded_hosts scope). \<not> host_matches p (normalize_hostname host))"
  by (auto simp: decide_def Let_def list_ex_iff)

lemma normalize_Nil [simp]: "normalize_hostname [] = []"
  by (simp add: normalize_hostname_def trim_end_dots_def to_ascii_lowercase_def)

lemma decide_fake_key: "decide scope host g = FakeIp \<Longrightarrow> normalize_hostname host \<noteq> []"
  by (auto simp: decide_def Let_def is_non_routable_name_def split: if_splits)

lemma scope_exclusions:
  "p \<in> set (fs_excluded_hosts (scope_enabled hs)) \<longleftrightarrow> p \<noteq> [] \<and> p \<in> normalize_hostname ` set hs"
  by (auto simp: scope_enabled_def)

lemma rx_insert_contains:
  assumes "[] \<notin> set hosts"
  shows "rx_contains (snd (rx_insert h hosts)) d \<longleftrightarrow>
    rx_contains hosts d \<or> host_matches (normalize_hostname h) (normalize_hostname d)"
proof -
  have "[] \<notin> set (snd (rx_insert h hosts))" using assms by (auto simp: rx_insert_def Let_def)
  then show ?thesis
    using rx_contains_iff [OF assms, of d] rx_contains_iff [of "snd (rx_insert h hosts)" d]
    by (auto simp: rx_insert_def Let_def host_matches_iff)
qed

end
