(* ===== verification/Foreign_Tunnels.thy ===== *)
theory Foreign_Tunnels
  imports Network_Policy Fake_Ip_Scope
begin

text \<open>
  What the corporate tunnels beside the router own
  (\<open>src/core/services/service-runtime/src/foreign_tunnels.rs\<close>), with the IPv4 networks of
  \<open>src/core/domain/src/ipv4_network.rs\<close>, the route rows they are read from
  (\<open>src/core/platform/api/src/route_signature.rs\<close>) and the choice of a tunnel's networks
  (\<open>src/core/services/service-runtime/src/route_codegen/network_routes.rs\<close>). Readers see merged
  address ranges searched by bisection and a sorted list of namespaces; the lemmas show that they
  answer as the plain lists of networks and claims would.
\<close>

section \<open>IPv4 networks\<close>

record ipv4_network =
  n4_network :: u32
  n4_prefix_len :: nat

definition n4_new :: "u32 \<Rightarrow> nat \<Rightarrow> ipv4_network option" where
  "n4_new address plen =
     (if plen > 32 then None
      else let m = (if plen = 0 then 0 else push_bit (32 - plen) (- 1))
           in Some \<lparr>n4_network = address AND m, n4_prefix_len = plen\<rparr>)"

text \<open>\<open>u8::from_str\<close>: an optional plus sign and at least one digit.\<close>

definition parse_u8 :: "string \<Rightarrow> nat option" where
  "parse_u8 s = (let d = (case s of c # r \<Rightarrow> if c = CHR ''+'' then r else s | [] \<Rightarrow> []) in
     if d = [] \<or> \<not> list_all ascii_digit d then None else parse_u8_digits d)"

definition n4_parse :: "string \<Rightarrow> ipv4_network option" where
  "n4_parse text =
     (case split_once (CHR ''/'') (trim text) of None \<Rightarrow> None
      | Some (address, plen) \<Rightarrow>
          (case parse_ipv4 (trim address) of None \<Rightarrow> None
           | Some a \<Rightarrow> (case parse_u8 (trim plen) of None \<Rightarrow> None | Some p \<Rightarrow> n4_new a p)))"

definition n4_contains :: "ipv4_network \<Rightarrow> u32 \<Rightarrow> bool" where
  "n4_contains net address \<longleftrightarrow> n4_new address (n4_prefix_len net) = Some net"

definition to_cidr_string :: "ipv4_network \<Rightarrow> string" where
  "to_cidr_string net = show_ipv4 (n4_network net) @ ''/'' @ dec (n4_prefix_len net)"

text \<open>The derived order: the address, then the length.\<close>

definition n4_key :: "ipv4_network \<Rightarrow> u32 \<times> nat" where
  "n4_key net = (n4_network net, n4_prefix_len net)"

section \<open>Route rows\<close>

datatype user_principal = Baseline | OsUser string

datatype route_table_ref = MainTable | PrincipalTable user_principal | Tagged u32

record route_entry =
  re_destination :: ip_addr
  re_prefix_length :: nat
  re_next_hop :: ip_addr
  re_interface_index :: u32
  re_metric :: u32
  re_is_ours :: bool
  re_table :: route_table_ref

definition HOST_PREFIX :: nat where "HOST_PREFIX = 32"

definition HOST_PREFIX_V6 :: nat where "HOST_PREFIX_V6 = 128"

definition SECONDARY_ROUTE_METRIC :: u32 where "SECONDARY_ROUTE_METRIC = 5"

definition NETWORK_ROUTE_METRIC :: u32 where "NETWORK_ROUTE_METRIC = 4"

definition TUNNEL_CATCH_ALL_MAX_PREFIX :: nat where "TUNNEL_CATCH_ALL_MAX_PREFIX = 12"

definition overlay_prefix :: "nat \<Rightarrow> bool" where
  "overlay_prefix p \<longleftrightarrow> 1 \<le> p \<and> p \<le> TUNNEL_CATCH_ALL_MAX_PREFIX + 1"

fun is_owned_shape :: "ip_addr \<Rightarrow> nat \<Rightarrow> bool" where
  "is_owned_shape (V4 _) p = (p = HOST_PREFIX \<or> overlay_prefix p)"
| "is_owned_shape (V6 _) p = (p = HOST_PREFIX_V6)"

definition is_network_shape :: "ip_addr \<Rightarrow> nat \<Rightarrow> bool" where
  "is_network_shape destination p \<longleftrightarrow>
     widest_rule_prefix (is_ipv4 destination) \<le> p \<and> p \<le> (if is_ipv4 destination then HOST_PREFIX else HOST_PREFIX_V6)"

definition is_owned_route :: "route_entry \<Rightarrow> bool" where
  "is_owned_route r \<longleftrightarrow> re_table r = MainTable \<and>
     (if re_metric r = SECONDARY_ROUTE_METRIC then is_owned_shape (re_destination r) (re_prefix_length r)
      else if re_metric r = NETWORK_ROUTE_METRIC then is_network_shape (re_destination r) (re_prefix_length r)
      else False)"

definition is_overlay_route :: "route_entry \<Rightarrow> bool" where
  "is_overlay_route r \<longleftrightarrow> re_metric r = SECONDARY_ROUTE_METRIC \<and> re_table r = MainTable \<and>
     is_ipv4 (re_destination r) \<and> overlay_prefix (re_prefix_length r)"

section \<open>The networks of a tunnel\<close>

definition FULL_TUNNEL_SHARE :: u128 where "FULL_TUNNEL_SHARE = 16"

definition LOCAL_ADDRESS_TABLE :: u32 where "LOCAL_ADDRESS_TABLE = 255"

definition is_foreign_any_table :: "route_entry \<Rightarrow> bool" where
  "is_foreign_any_table r \<longleftrightarrow> re_table r \<noteq> Tagged LOCAL_ADDRESS_TABLE \<and> \<not> re_is_ours r \<and> \<not> is_owned_route r"

definition SCOPES :: "string list" where
  "SCOPES = [''224.0.0.0/4'', ''169.254.0.0/16'', ''ff00::/8'', ''fe80::/10'']"

definition is_unicast :: "ip_block \<Rightarrow> bool" where
  "is_unicast block \<longleftrightarrow> \<not> list_ex (\<lambda>scope. block_covers scope block) (List.map_filter block_parse SCOPES)"

definition addresses_in_prefix :: "nat \<Rightarrow> bool \<Rightarrow> u128" where
  "addresses_in_prefix p v4 = (let sh = (if v4 then 32 else 128) - p in if sh \<ge> 128 then - 1 else push_bit sh 1)"

definition addresses_in :: "ip_block \<Rightarrow> u128" where
  "addresses_in b = addresses_in_prefix (prefix_len b) (is_ipv4 (network b))"

definition saturating_add :: "u128 \<Rightarrow> u128 \<Rightarrow> u128" where
  "saturating_add a b = (if uint a + uint b \<ge> 2 ^ 128 then - 1 else a + b)"

definition saturating_mul :: "u128 \<Rightarrow> u128 \<Rightarrow> u128" where
  "saturating_mul a b = (if uint a * uint b \<ge> 2 ^ 128 then - 1 else a * b)"

definition takes_the_internet :: "ip_block list \<Rightarrow> bool \<Rightarrow> bool" where
  "takes_the_internet blocks v4 =
     (let fam = filter (\<lambda>b. is_ipv4 (network b) = v4) blocks in
      if list_ex wider_than_rule_allows fam then True
      else
        let public = fold (\<lambda>b sum. saturating_add sum (addresses_in b)) (filter (\<lambda>b. \<not> is_private b) fam) 0;
            widest = addresses_in_prefix (widest_rule_prefix v4) v4
        in public \<ge> saturating_mul widest FULL_TUNNEL_SHARE)"

definition one_tunnels_networks :: "route_entry list \<Rightarrow> u32 \<Rightarrow> ip_block list" where
  "one_tunnels_networks routes idx =
     (let blocks = filter is_unicast (List.map_filter (\<lambda>r. block_new (re_destination r) (re_prefix_length r))
            (filter (\<lambda>r. re_interface_index r = idx \<and> is_foreign_any_table r) routes));
          full_v4 = takes_the_internet blocks True;
          full_v6 = takes_the_internet blocks False
      in filter (\<lambda>b. \<not> (if is_ipv4 (network b) then full_v4 else full_v6) \<or> is_private b)
           (filter (\<lambda>b. \<not> wider_than_rule_allows b) blocks))"

definition ip_block_key :: "ip_block \<Rightarrow> bool \<times> u128 \<times> nat" where
  "ip_block_key b = (\<not> is_ipv4 (network b), to_bits (network b), prefix_len b)"

definition foreign_tunnel_blocks :: "route_entry list \<Rightarrow> u32 list \<Rightarrow> ip_block list" where
  "foreign_tunnel_blocks routes foreign = remdups_adj (sort_key ip_block_key (concat (map (one_tunnels_networks routes) foreign)))"

definition networks_of :: "route_entry list \<Rightarrow> u32 list \<Rightarrow> ipv4_network list" where
  "networks_of routes foreign = List.map_filter (\<lambda>b. case network b of V4 net \<Rightarrow> n4_new net (prefix_len b) | V6 _ \<Rightarrow> None)
     (foreign_tunnel_blocks routes foreign)"

definition MAX_ENTRIES :: nat where "MAX_ENTRIES = 1024"

definition n4_sorted :: "ipv4_network list \<Rightarrow> ipv4_network list" where
  "n4_sorted nets = take MAX_ENTRIES (remdups_adj (sort_key n4_key nets))"

definition local_networks_inside :: "route_entry list \<Rightarrow> u32 list \<Rightarrow> ipv4_network list \<Rightarrow> ipv4_network list" where
  "local_networks_inside routes foreign tunnel =
     (if tunnel = [] then []
      else n4_sorted (filter (\<lambda>l. list_ex (\<lambda>t. n4_prefix_len t \<le> n4_prefix_len l \<and> n4_contains t (n4_network l)) tunnel)
        (List.map_filter (\<lambda>r. case re_destination r of V4 d \<Rightarrow> n4_new d (re_prefix_length r) | V6 _ \<Rightarrow> None)
          (filter (\<lambda>r. re_table r = MainTable \<and> re_interface_index r \<notin> set foreign) routes))))"

section \<open>Published facts\<close>

record foreign_tunnel_facts =
  ff_ranges :: "(u32 \<times> u32) list"
  ff_namespaces :: "string list"

definition span_of :: "ipv4_network \<Rightarrow> u32 \<times> u32" where
  "span_of net = (n4_network net,
     n4_network net OR (if n4_prefix_len net \<ge> 32 then 0 else drop_bit (n4_prefix_len net) (- 1)))"

definition push_span :: "u32 \<times> u32 \<Rightarrow> (u32 \<times> u32) list \<Rightarrow> (u32 \<times> u32) list" where
  "push_span s ranges =
     (if ranges \<noteq> [] \<and> fst s \<le> saturating_inc (snd (last ranges))
      then butlast ranges @ [(fst (last ranges), max (snd (last ranges)) (snd s))]
      else ranges @ [s])"

definition ff_new :: "ipv4_network list \<Rightarrow> string list \<Rightarrow> foreign_tunnel_facts" where
  "ff_new nets namespaces =
     \<lparr>ff_ranges = fold push_span (sort (map span_of nets)) [], ff_namespaces = namespaces\<rparr>"

definition ff_is_empty :: "foreign_tunnel_facts \<Rightarrow> bool" where
  "ff_is_empty f \<longleftrightarrow> ff_ranges f = [] \<and> ff_namespaces f = []"

text \<open>\<open>partition_point\<close> and \<open>binary_search_by\<close> of slices.\<close>

function pp_loop :: "('a \<Rightarrow> bool) \<Rightarrow> 'a list \<Rightarrow> nat \<Rightarrow> nat \<Rightarrow> nat" where
  "pp_loop p xs lo hi =
     (if lo < hi then let mid = (lo + hi) div 2 in
        if p (xs ! mid) then pp_loop p xs (mid + 1) hi else pp_loop p xs lo mid
      else lo)"
  by pat_completeness auto

termination
  by (relation "measure (\<lambda>(p, xs, lo, hi). hi - lo)") (auto simp: Let_def)

definition partition_point :: "('a \<Rightarrow> bool) \<Rightarrow> 'a list \<Rightarrow> nat" where
  "partition_point p xs = pp_loop p xs 0 (length xs)"

datatype ordering = Less | Equal | Greater

function bs_loop :: "('a \<Rightarrow> ordering) \<Rightarrow> 'a list \<Rightarrow> nat \<Rightarrow> nat \<Rightarrow> nat option" where
  "bs_loop f xs lo hi =
     (if lo < hi then let mid = (lo + hi) div 2 in
        case f (xs ! mid) of Less \<Rightarrow> bs_loop f xs (mid + 1) hi | Greater \<Rightarrow> bs_loop f xs lo mid | Equal \<Rightarrow> Some mid
      else None)"
  by pat_completeness auto

termination
  by (relation "measure (\<lambda>(f, xs, lo, hi). hi - lo)") (auto simp: Let_def)

definition binary_search_by :: "('a \<Rightarrow> ordering) \<Rightarrow> 'a list \<Rightarrow> nat option" where
  "binary_search_by f xs = bs_loop f xs 0 (length xs)"

definition ff_carries :: "foreign_tunnel_facts \<Rightarrow> u32 \<Rightarrow> bool" where
  "ff_carries f ip =
     (let after = partition_point (\<lambda>r. fst r \<le> ip) (ff_ranges f) in
      if after = 0 then False else snd (ff_ranges f ! (after - 1)) \<ge> ip)"

definition ff_carries_any :: "foreign_tunnel_facts \<Rightarrow> u32 list \<Rightarrow> bool" where
  "ff_carries_any f ips \<longleftrightarrow> ff_ranges f \<noteq> [] \<and> list_ex (ff_carries f) ips"

definition cmp_lowered :: "string \<Rightarrow> string \<Rightarrow> ordering" where
  "cmp_lowered namespace tail =
     (let t = map lower_byte tail in if namespace < t then Less else if namespace = t then Equal else Greater)"

function claims_loop :: "string list \<Rightarrow> string \<Rightarrow> bool" where
  "claims_loop namespaces tail =
     (if binary_search_by (\<lambda>ns. cmp_lowered ns tail) namespaces \<noteq> None then True
      else case split_once dot tail of Some (_, rest) \<Rightarrow> claims_loop namespaces rest | None \<Rightarrow> False)"
  by pat_completeness auto

termination
  by (relation "measure (\<lambda>(ns, t). length t)") (auto dest: split_once_SomeD)

definition ff_claims_name :: "foreign_tunnel_facts \<Rightarrow> string \<Rightarrow> bool" where
  "ff_claims_name f hostname =
     (if ff_namespaces f = [] then False else claims_loop (ff_namespaces f) (trim_end_dots (trim hostname)))"

record foreign_tunnel_cell =
  ft_facts :: foreign_tunnel_facts
  ft_networks :: "ipv4_network list"
  ft_tunnels :: "(u32 \<times> string) list option"
  ft_claims :: "(string \<times> string) list"
  ft_own_links :: "u32 list"
  ft_local_networks :: "ipv4_network list"
  ft_any :: bool

definition ft_new :: foreign_tunnel_cell where
  "ft_new = \<lparr>ft_facts = \<lparr>ff_ranges = [], ff_namespaces = []\<rparr>, ft_networks = [], ft_tunnels = None, ft_claims = [],
     ft_own_links = [], ft_local_networks = [], ft_any = False\<rparr>"

definition claimed_namespaces :: "foreign_tunnel_cell \<Rightarrow> string list" where
  "claimed_namespaces c = take MAX_ENTRIES (remdups_adj (sort (map snd (filter (\<lambda>(adapter, _).
     list_ex (\<lambda>(_, name). eq_ignore_ascii_case name adapter) (case ft_tunnels c of Some t \<Rightarrow> t | None \<Rightarrow> [])) (ft_claims c)))))"

definition ft_refresh :: "foreign_tunnel_cell \<Rightarrow> foreign_tunnel_cell" where
  "ft_refresh c = (let facts = ff_new (ft_networks c) (claimed_namespaces c)
     in c\<lparr>ft_facts := facts, ft_any := \<not> ff_is_empty facts\<rparr>)"

text \<open>The adapters of the system, as far as their index and name.\<close>

record adapter_info =
  ad_index :: u32
  ad_adapter_name :: string

text \<open>Each publication also says whether the namespace guard has to read the links again.\<close>

definition publish_tunnels :: "route_entry list \<Rightarrow> adapter_info list \<Rightarrow> u32 list \<Rightarrow> foreign_tunnel_cell \<Rightarrow> bool \<times> foreign_tunnel_cell" where
  "publish_tunnels routes adapters foreign c =
     (let nets = take MAX_ENTRIES (networks_of routes foreign);
          locals = local_networks_inside routes foreign nets;
          tunnels = map (\<lambda>i. (i, case find (\<lambda>a. ad_index a = i) adapters of Some a \<Rightarrow> ad_adapter_name a | None \<Rightarrow> [])) foreign;
          names = (\<lambda>t. sort (map (\<lambda>x. to_ascii_lowercase (snd x)) t));
          renamed = (map_option names (ft_tunnels c) \<noteq> Some (names tunnels))
      in (renamed, ft_refresh (c\<lparr>ft_networks := nets, ft_local_networks := locals, ft_tunnels := Some tunnels\<rparr>)))"

definition publish_own_links :: "u32 list \<Rightarrow> foreign_tunnel_cell \<Rightarrow> bool \<times> foreign_tunnel_cell" where
  "publish_own_links links c =
     (let ls = take MAX_ENTRIES (remdups_adj (sort links)) in
      if ft_own_links c \<noteq> ls then (True, c\<lparr>ft_own_links := ls\<rparr>) else (False, c))"

definition publish_served ::
  "route_entry list option \<Rightarrow> adapter_info list \<Rightarrow> u32 list list \<Rightarrow> u32 list \<Rightarrow> foreign_tunnel_cell \<Rightarrow> bool \<times> foreign_tunnel_cell" where
  "publish_served table adapters per_user own c =
     (let (k, c1) = publish_own_links own c in
      case table of
        None \<Rightarrow> (let (k', c2) = publish_tunnels [] [] [] c1 in (k \<or> k', c2))
      | Some routes \<Rightarrow>
          (let common = (case per_user of [] \<Rightarrow> [] | f # others \<Rightarrow> filter (\<lambda>i. list_all (\<lambda>u. i \<in> set u) others) f);
               (k', c2) = publish_tunnels routes adapters common c1
           in (k \<or> k', c2)))"

definition names_adapter :: "foreign_tunnel_cell \<Rightarrow> string \<Rightarrow> bool" where
  "names_adapter c adapter_id = (case ft_tunnels c of None \<Rightarrow> False
     | Some t \<Rightarrow> list_ex (\<lambda>(_, name). name \<noteq> [] \<and> eq_ignore_ascii_case name adapter_id) t)"

definition publish_networks :: "ipv4_network list \<Rightarrow> foreign_tunnel_cell \<Rightarrow> foreign_tunnel_cell" where
  "publish_networks nets c = ft_refresh (c\<lparr>ft_networks := n4_sorted nets\<rparr>)"

definition publish_claims :: "(string \<times> string) list \<Rightarrow> foreign_tunnel_cell \<Rightarrow> foreign_tunnel_cell" where
  "publish_claims claims c = ft_refresh (c\<lparr>ft_claims := take MAX_ENTRIES (remdups_adj (sort
     (map (\<lambda>(a, s). (a, to_ascii_lowercase s)) (filter (\<lambda>(_, s). s \<noteq> []) claims))))\<rparr>)"

definition ft_snapshot :: "foreign_tunnel_cell \<Rightarrow> foreign_tunnel_facts option" where
  "ft_snapshot c = (if ft_any c then Some (ft_facts c) else None)"

definition ft_interfaces :: "foreign_tunnel_cell \<Rightarrow> u32 list option" where
  "ft_interfaces c = map_option (map fst) (ft_tunnels c)"

definition ft_carries :: "foreign_tunnel_cell \<Rightarrow> u32 \<Rightarrow> bool" where
  "ft_carries c ip = (case ft_snapshot c of Some f \<Rightarrow> ff_carries f ip | None \<Rightarrow> False)"

definition ft_carries_any :: "foreign_tunnel_cell \<Rightarrow> u32 list \<Rightarrow> bool" where
  "ft_carries_any c ips = (case ft_snapshot c of Some f \<Rightarrow> ff_carries_any f ips | None \<Rightarrow> False)"

definition ft_claims_name :: "foreign_tunnel_cell \<Rightarrow> string \<Rightarrow> bool" where
  "ft_claims_name c hostname = (case ft_snapshot c of Some f \<Rightarrow> ff_claims_name f hostname | None \<Rightarrow> False)"

definition longest :: "ipv4_network list \<Rightarrow> u32 \<Rightarrow> nat option" where
  "longest nets ip = (case map n4_prefix_len (filter (\<lambda>net. n4_contains net ip) nets) of
     [] \<Rightarrow> None | p # ps \<Rightarrow> Some (fold max ps p))"

definition routes_through_tunnel :: "foreign_tunnel_cell \<Rightarrow> u32 \<Rightarrow> bool" where
  "routes_through_tunnel c ip =
     (if \<not> ft_carries c ip then False
      else case (longest (ft_networks c) ip, longest (ft_local_networks c) ip) of
          (Some tunnel, Some l) \<Rightarrow> tunnel > l
        | (Some _, None) \<Rightarrow> True
        | (None, _) \<Rightarrow> False)"

section \<open>Bisection\<close>

declare pp_loop.simps [simp del] bs_loop.simps [simp del] claims_loop.simps [simp del]

lemma pp_loop_eq:
  assumes "\<forall>i < length xs. p (xs ! i) \<longleftrightarrow> i < k" "lo \<le> k" "k \<le> hi" "hi \<le> length xs"
  shows "pp_loop p xs lo hi = k"
  using assms
proof (induction p xs lo hi rule: pp_loop.induct)
  case (1 p xs lo hi)
  show ?case
  proof (cases "lo < hi")
    case True
    define mid where "mid = (lo + hi) div 2"
    have m: "lo \<le> mid" "mid < hi" "mid < length xs" using True "1.prems"(4) by (auto simp: mid_def)
    have "pp_loop p xs lo hi = (if p (xs ! mid) then pp_loop p xs (mid + 1) hi else pp_loop p xs lo mid)"
      using True by (subst pp_loop.simps) (simp add: mid_def)
    moreover have "p (xs ! mid) \<longleftrightarrow> mid < k" using "1.prems"(1) m(3) by blast
    ultimately show ?thesis
      using "1.IH"(1) [OF True mid_def] "1.IH"(2) [OF True mid_def] "1.prems" m by auto
  next
    case False
    then show ?thesis using "1.prems" by (subst pp_loop.simps) simp
  qed
qed

lemma partition_point_eq:
  "\<forall>i < length xs. p (xs ! i) \<longleftrightarrow> i < k \<Longrightarrow> k \<le> length xs \<Longrightarrow> partition_point p xs = k"
  unfolding partition_point_def by (rule pp_loop_eq) auto

lemma bs_loop_iff:
  assumes "\<forall>i j. i < j \<longrightarrow> j < length xs \<longrightarrow> (f (xs ! j) = Less \<longrightarrow> f (xs ! i) = Less) \<and> (f (xs ! i) = Greater \<longrightarrow> f (xs ! j) = Greater)"
    "hi \<le> length xs"
  shows "bs_loop f xs lo hi \<noteq> None \<longleftrightarrow> (\<exists>i. lo \<le> i \<and> i < hi \<and> f (xs ! i) = Equal)"
  using assms
proof (induction f xs lo hi rule: bs_loop.induct)
  case (1 f xs lo hi)
  show ?case
  proof (cases "lo < hi")
    case True
    define mid where "mid = (lo + hi) div 2"
    have m: "lo \<le> mid" "mid < hi" "mid < length xs" using True "1.prems"(2) by (auto simp: mid_def)
    have u: "bs_loop f xs lo hi = (case f (xs ! mid) of Less \<Rightarrow> bs_loop f xs (mid + 1) hi
        | Greater \<Rightarrow> bs_loop f xs lo mid | Equal \<Rightarrow> Some mid)"
      using True unfolding mid_def by (subst bs_loop.simps) (simp add: Let_def)
    show ?thesis
    proof (cases "f (xs ! mid)")
      case Less
      have no: "f (xs ! i) \<noteq> Equal" if "i \<le> mid" for i
      proof (cases "i = mid")
        case False
        then have "f (xs ! i) = Less" using "1.prems"(1) m(3) Less that by (meson le_neq_implies_less)
        then show ?thesis by simp
      qed (simp add: Less)
      have "(\<exists>i. lo \<le> i \<and> i < hi \<and> f (xs ! i) = Equal) \<longleftrightarrow> (\<exists>i. mid + 1 \<le> i \<and> i < hi \<and> f (xs ! i) = Equal)"
      proof
        assume "\<exists>i. lo \<le> i \<and> i < hi \<and> f (xs ! i) = Equal"
        then obtain i where i: "i < hi" "f (xs ! i) = Equal" by blast
        moreover have "mid + 1 \<le> i" using no [of i] i(2) by fastforce
        ultimately show "\<exists>i. mid + 1 \<le> i \<and> i < hi \<and> f (xs ! i) = Equal" by blast
      next
        assume "\<exists>i. mid + 1 \<le> i \<and> i < hi \<and> f (xs ! i) = Equal"
        then obtain i where "mid + 1 \<le> i" "i < hi" "f (xs ! i) = Equal" by blast
        then show "\<exists>i. lo \<le> i \<and> i < hi \<and> f (xs ! i) = Equal" using m(1) by (intro exI [of _ i]) simp
      qed
      then show ?thesis using "1.IH"(1) [OF True mid_def Less "1.prems"] unfolding u Less ordering.case by simp
    next
      case Equal
      then show ?thesis using u m by auto
    next
      case Greater
      have no: "f (xs ! i) \<noteq> Equal" if "mid \<le> i" "i < hi" for i
      proof (cases "i = mid")
        case False
        then have "mid < i" "i < length xs" using that "1.prems"(2) by simp_all
        then have "f (xs ! i) = Greater" using "1.prems"(1) Greater by blast
        then show ?thesis by simp
      qed (simp add: Greater)
      have "(\<exists>i. lo \<le> i \<and> i < hi \<and> f (xs ! i) = Equal) \<longleftrightarrow> (\<exists>i. lo \<le> i \<and> i < mid \<and> f (xs ! i) = Equal)"
      proof
        assume "\<exists>i. lo \<le> i \<and> i < hi \<and> f (xs ! i) = Equal"
        then obtain i where i: "lo \<le> i" "i < hi" "f (xs ! i) = Equal" by blast
        moreover have "i < mid" using no [of i] i(2,3) by fastforce
        ultimately show "\<exists>i. lo \<le> i \<and> i < mid \<and> f (xs ! i) = Equal" by blast
      next
        assume "\<exists>i. lo \<le> i \<and> i < mid \<and> f (xs ! i) = Equal"
        then obtain i where "lo \<le> i" "i < mid" "f (xs ! i) = Equal" by blast
        then show "\<exists>i. lo \<le> i \<and> i < hi \<and> f (xs ! i) = Equal" using m(2) by (intro exI [of _ i]) simp
      qed
      moreover have "mid \<le> length xs" using m(3) by simp
      ultimately show ?thesis using "1.IH"(2) [OF True mid_def Greater "1.prems"(1)] unfolding u Greater ordering.case by simp
    qed
  next
    case False
    then show ?thesis by (subst bs_loop.simps) auto
  qed
qed

lemma cmp_lowered_Equal: "cmp_lowered ns t = Equal \<longleftrightarrow> ns = map lower_byte t"
  by (simp add: cmp_lowered_def Let_def)

lemma search_namespaces:
  assumes "sorted namespaces"
  shows "binary_search_by (\<lambda>ns. cmp_lowered ns t) namespaces \<noteq> None \<longleftrightarrow> map lower_byte t \<in> set namespaces"
proof -
  have "\<forall>i j. i < j \<longrightarrow> j < length namespaces \<longrightarrow>
      (cmp_lowered (namespaces ! j) t = Less \<longrightarrow> cmp_lowered (namespaces ! i) t = Less) \<and>
      (cmp_lowered (namespaces ! i) t = Greater \<longrightarrow> cmp_lowered (namespaces ! j) t = Greater)"
  proof (intro allI impI)
    fix i j :: nat assume "i < j" "j < length namespaces"
    then have "namespaces ! i \<le> namespaces ! j" using assms by (simp add: sorted_iff_nth_mono)
    then show "(cmp_lowered (namespaces ! j) t = Less \<longrightarrow> cmp_lowered (namespaces ! i) t = Less) \<and>
      (cmp_lowered (namespaces ! i) t = Greater \<longrightarrow> cmp_lowered (namespaces ! j) t = Greater)"
      by (auto simp: cmp_lowered_def Let_def)
  qed
  from bs_loop_iff [OF this order_refl, of 0] show ?thesis
    unfolding binary_search_by_def by (auto simp: cmp_lowered_Equal in_set_conv_nth)
qed

lemma dot_lower: "dot \<in> set (map lower_byte t) \<longleftrightarrow> dot \<in> set t"
  by (metis (no_types, lifting) imageE image_eqI list.set_map lower_dot)

lemma first_sep_tail:
  assumes "c \<notin> set a"
  shows "(\<exists>q. a @ c # b = q @ c # n) \<longleftrightarrow> b = n \<or> (\<exists>q. b = q @ c # n)"
proof
  assume "\<exists>q. a @ c # b = q @ c # n"
  then obtain q where "a @ c # b = q @ c # n" by blast
  then obtain us where "a = q @ us \<and> us @ c # b = c # n \<or> a @ us = q \<and> c # b = us @ c # n"
    unfolding append_eq_append_conv2 by blast
  then show "b = n \<or> (\<exists>q. b = q @ c # n)" using assms by (cases us) auto
next
  assume "b = n \<or> (\<exists>q. b = q @ c # n)"
  then obtain q where "b = n \<or> b = q @ c # n" by blast
  then have "a @ c # b = a @ c # n \<or> a @ c # b = (a @ c # q) @ c # n" by auto
  then show "\<exists>q. a @ c # b = q @ c # n" by blast
qed

lemma claims_loop_iff:
  assumes "sorted namespaces"
  shows "claims_loop namespaces t \<longleftrightarrow> (\<exists>n \<in> set namespaces. map lower_byte t = n \<or> (\<exists>q. map lower_byte t = q @ dot # n))"
  using assms
proof (induction namespaces t rule: claims_loop.induct)
  case (1 namespaces t)
  note s = search_namespaces [OF "1.prems"]
  show ?case
  proof (cases "map lower_byte t \<in> set namespaces")
    case True
    then show ?thesis using s by (subst claims_loop.simps) auto
  next
    case out: False
    show ?thesis
    proof (cases "split_once dot t")
      case None
      then have "dot \<notin> set (map lower_byte t)" unfolding dot_lower by simp
      then have "\<nexists>q n. map lower_byte t = q @ dot # n" by (metis in_set_conv_decomp)
      moreover have "\<not> claims_loop namespaces t"
        unfolding claims_loop.simps [of namespaces t] None using out s [of t] by simp
      ultimately show ?thesis using out by blast
    next
      case (Some ab)
      obtain a b where ab: "split_once dot t = Some (a, b)" using Some by (cases ab) simp
      have t: "t = a @ dot # b" "dot \<notin> set a" using split_once_SomeD [OF ab] by auto
      have none: "binary_search_by (\<lambda>ns. cmp_lowered ns t) namespaces = None" using out s [of t] by blast
      have "claims_loop namespaces t = claims_loop namespaces b"
        unfolding claims_loop.simps [of namespaces t] none ab by simp
      also have "\<dots> \<longleftrightarrow> (\<exists>n \<in> set namespaces. map lower_byte b = n \<or> (\<exists>q. map lower_byte b = q @ dot # n))"
        using "1.IH" [of "(a, b)" a b] "1.prems" none ab by simp
      also have "\<dots> \<longleftrightarrow> (\<exists>n \<in> set namespaces. map lower_byte t = n \<or> (\<exists>q. map lower_byte t = q @ dot # n))"
      proof -
        have d: "dot \<notin> set (map lower_byte a)" using t(2) unfolding dot_lower .
        have m: "map lower_byte t = map lower_byte a @ dot # map lower_byte b" using t(1) lower_dot [of dot] by simp
        have "(\<exists>q. map lower_byte t = q @ dot # n) \<longleftrightarrow> map lower_byte b = n \<or> (\<exists>q. map lower_byte b = q @ dot # n)" for n
          unfolding m by (rule first_sep_tail [OF d])
        then show ?thesis using out by blast
      qed
      finally show ?thesis .
    qed
  qed
qed


section \<open>Merged ranges\<close>

definition in_span :: "u32 \<Rightarrow> u32 \<times> u32 \<Rightarrow> bool" where
  "in_span ip s \<longleftrightarrow> fst s \<le> ip \<and> ip \<le> snd s"

definition ranges_ok :: "(u32 \<times> u32) list \<Rightarrow> bool" where
  "ranges_ok rs \<longleftrightarrow> sorted_wrt (\<lambda>a b. snd a < fst b) rs \<and> (\<forall>r \<in> set rs. fst r \<le> snd r)"

lemma saturating_inc_least: "y < x \<Longrightarrow> saturating_inc y \<le> x" for x y :: "'a::len word"
proof (cases "y = - 1")
  case False
  assume "y < x"
  moreover have "unat (saturating_inc y) = unat y + 1" using unat_succ [OF False] False by (simp add: saturating_inc_def)
  ultimately show ?thesis by (simp add: word_le_nat_alt word_less_nat_alt)
qed (simp add: saturating_inc_def)

lemma touching_spans:
  fixes a b f l ip :: u32
  assumes "a \<le> b" "a \<le> f" "f \<le> saturating_inc b" "f \<le> l"
  shows "a \<le> ip \<and> ip \<le> max b l \<longleftrightarrow> a \<le> ip \<and> ip \<le> b \<or> f \<le> ip \<and> ip \<le> l"
proof (cases "ip \<le> b")
  case True
  then show ?thesis using assms by (auto simp: max_def)
next
  case False
  then have "f \<le> ip" using saturating_inc_least [of b ip] assms(3) by (meson not_le order.trans)
  then show ?thesis using False assms by (auto simp: max_def)
qed

lemma push_span_ok:
  assumes "ranges_ok rs" "fst s \<le> snd s" "\<forall>r \<in> set rs. fst r \<le> fst s"
  shows "ranges_ok (push_span s rs)" "\<forall>r \<in> set (push_span s rs). fst r \<le> fst s"
    "(\<exists>r \<in> set (push_span s rs). in_span ip r) \<longleftrightarrow> (\<exists>r \<in> set rs. in_span ip r) \<or> in_span ip s"
proof -
  have "ranges_ok (push_span s rs) \<and> (\<forall>r \<in> set (push_span s rs). fst r \<le> fst s) \<and>
    ((\<exists>r \<in> set (push_span s rs). in_span ip r) \<longleftrightarrow> (\<exists>r \<in> set rs. in_span ip r) \<or> in_span ip s)"
  proof (cases "rs = []")
    case True
    then show ?thesis using assms(2) by (simp add: push_span_def ranges_ok_def)
  next
    case False
    then obtain qs a b where rs: "rs = qs @ [(a, b)]" by (metis append_butlast_last_id surj_pair)
    have ab: "a \<le> b" "a \<le> fst s" "\<forall>q \<in> set qs. snd q < a" "sorted_wrt (\<lambda>a b. snd a < fst b) qs"
      "\<forall>q \<in> set qs. fst q \<le> snd q \<and> fst q \<le> fst s"
      using assms(1,3) by (auto simp: ranges_ok_def rs sorted_wrt_append)
    show ?thesis
    proof (cases "fst s \<le> saturating_inc b")
      case True
      have p: "push_span s rs = qs @ [(a, max b (snd s))]" using True by (simp add: push_span_def rs)
      have "in_span ip (a, max b (snd s)) \<longleftrightarrow> in_span ip (a, b) \<or> in_span ip s"
        using touching_spans [OF ab(1,2) True assms(2), of ip] by (simp add: in_span_def)
      moreover have "a \<le> max b (snd s)" using ab(1) by (simp add: le_max_iff_disj)
      ultimately show ?thesis unfolding p unfolding rs using ab by (auto simp: ranges_ok_def sorted_wrt_append)
    next
      case False
      have p: "push_span s rs = rs @ [s]" using False by (simp add: push_span_def rs)
      have "b < fst s" using False saturating_inc_ge [of b] by (meson not_le order.trans)
      then have "\<forall>r \<in> set rs. snd r < fst s" using ab(1,3) unfolding rs by (auto intro: order.strict_trans)
      then show ?thesis unfolding p using assms by (auto simp: ranges_ok_def sorted_wrt_append)
    qed
  qed
  then show "ranges_ok (push_span s rs)" "\<forall>r \<in> set (push_span s rs). fst r \<le> fst s"
    "(\<exists>r \<in> set (push_span s rs). in_span ip r) \<longleftrightarrow> (\<exists>r \<in> set rs. in_span ip r) \<or> in_span ip s" by blast+
qed

lemma fold_push_span:
  assumes "ranges_ok rs" "sorted spans" "\<forall>s \<in> set spans. fst s \<le> snd s" "\<forall>s \<in> set spans. \<forall>r \<in> set rs. fst r \<le> fst s"
  shows "ranges_ok (fold push_span spans rs) \<and>
    ((\<exists>r \<in> set (fold push_span spans rs). in_span ip r) \<longleftrightarrow> (\<exists>r \<in> set rs. in_span ip r) \<or> (\<exists>s \<in> set spans. in_span ip s))"
  using assms
proof (induction spans arbitrary: rs)
  case (Cons s spans)
  note p = push_span_ok [of rs s]
  have le: "\<forall>t \<in> set spans. fst s \<le> fst t"
    using Cons.prems(2) by (auto simp: less_eq_prod_def dest: order.strict_implies_order)
  have "\<forall>t \<in> set spans. \<forall>r \<in> set (push_span s rs). fst r \<le> fst t"
    using p(2) Cons.prems le by (meson list.set_intros(1) order.trans)
  then have IH: "ranges_ok (fold push_span spans (push_span s rs)) \<and>
      ((\<exists>r \<in> set (fold push_span spans (push_span s rs)). in_span ip r) \<longleftrightarrow>
        (\<exists>r \<in> set (push_span s rs). in_span ip r) \<or> (\<exists>s \<in> set spans. in_span ip s))"
    using p(1) Cons.prems by (intro Cons.IH) auto
  then show ?case using p(3) [of ip] Cons.prems by auto
qed simp

lemma carries_ranges:
  assumes "ranges_ok rs" "ff_ranges f = rs"
  shows "ff_carries f ip \<longleftrightarrow> (\<exists>r \<in> set rs. in_span ip r)"
proof -
  define k where "k = length (takeWhile (\<lambda>r. fst r \<le> ip) rs)"
  have srt: "i < j \<Longrightarrow> j < length rs \<Longrightarrow> snd (rs ! i) < fst (rs ! j)" for i j
    using assms(1) by (auto simp: ranges_ok_def sorted_wrt_iff_nth_less)
  have ne: "i < length rs \<Longrightarrow> fst (rs ! i) \<le> snd (rs ! i)" for i using assms(1) by (auto simp: ranges_ok_def)
  have k: "k \<le> length rs" by (simp add: k_def length_takeWhile_le)
  have low: "fst (rs ! i) \<le> ip" if "i < k" for i
    using that by (metis k_def nth_mem set_takeWhileD takeWhile_nth)
  have high: "\<not> fst (rs ! i) \<le> ip" if "k \<le> i" "i < length rs" for i
  proof -
    have kl: "k < length rs" using that by simp
    then have nk: "\<not> fst (rs ! k) \<le> ip" unfolding k_def by (rule nth_length_takeWhile)
    show ?thesis
    proof (cases "i = k")
      case False
      then have "fst (rs ! k) < fst (rs ! i)" using srt [of k i] ne [OF kl] that by simp
      then show ?thesis using nk by simp
    qed (use nk in simp)
  qed
  have pp: "partition_point (\<lambda>r. fst r \<le> ip) rs = k"
    by (rule partition_point_eq) (use low high k in \<open>auto simp: not_less [symmetric]\<close>)
  show ?thesis
  proof
    assume "ff_carries f ip"
    then have "0 < k" "ip \<le> snd (rs ! (k - 1))" using pp assms(2) by (auto simp: ff_carries_def Let_def split: if_splits)
    then show "\<exists>r \<in> set rs. in_span ip r" using low [of "k - 1"] k by (intro bexI [of _ "rs ! (k - 1)"]) (auto simp: in_span_def)
  next
    assume "\<exists>r \<in> set rs. in_span ip r"
    then obtain i where i: "i < length rs" "fst (rs ! i) \<le> ip" "ip \<le> snd (rs ! i)" by (auto simp: in_span_def in_set_conv_nth)
    have "i < k" using high [of i] i by (meson not_le)
    moreover have "\<not> i < k - 1" 
    proof
      assume "i < k - 1"
      then have "snd (rs ! i) < fst (rs ! (k - 1))" "fst (rs ! (k - 1)) \<le> ip" using srt [of i "k - 1"] low [of "k - 1"] k by auto
      then show False using i(3) by simp
    qed
    ultimately have "i = k - 1" "0 < k" by auto
    then show "ff_carries f ip" using pp i(3) assms(2) by (simp add: ff_carries_def)
  qed
qed


section \<open>Networks as spans\<close>

definition n4_ok :: "ipv4_network \<Rightarrow> bool" where
  "n4_ok net \<longleftrightarrow> n4_prefix_len net \<le> 32 \<and> n4_network net AND mask (32 - n4_prefix_len net) = 0"

lemma n4_new_eq: "p \<le> 32 \<Longrightarrow> n4_new a p = Some \<lparr>n4_network = a AND NOT (mask (32 - p)), n4_prefix_len = p\<rparr>"
proof -
  assume p: "p \<le> 32"
  have "(if p = 0 then 0 else push_bit (32 - p) (- 1)) = (NOT (mask (32 - p)) :: u32)"
    using p by (auto intro!: bit_word_eqI simp: bit_simps)
  then show ?thesis using p by (simp add: n4_new_def)
qed

lemma n4_new_ok: "n4_new a p = Some net \<Longrightarrow> n4_ok net"
proof -
  assume n: "n4_new a p = Some net"
  then have p: "p \<le> 32" by (auto simp: n4_new_def split: if_splits)
  have "(a AND NOT (mask (32 - p))) AND mask (32 - p) = 0" by (rule bit_word_eqI) (simp add: bit_simps)
  then show ?thesis using n p by (auto simp: n4_new_eq n4_ok_def)
qed

lemma masked_interval:
  fixes a n :: "'a::len word"
  assumes "n AND mask k = 0"
  shows "a AND NOT (mask k) = n \<longleftrightarrow> n \<le> a \<and> a \<le> n OR mask k"
proof
  assume n: "a AND NOT (mask k) = n"
  have "a = (n OR mask k) AND a" unfolding n [symmetric] by (rule bit_word_eqI) (auto simp: bit_simps)
  then have "a \<le> n OR mask k" by (metis word_and_le2 word_and_le1)
  moreover have "n \<le> a" unfolding n [symmetric] by (rule word_and_le2)
  ultimately show "n \<le> a \<and> a \<le> n OR mask k" by simp
next
  assume n: "n \<le> a \<and> a \<le> n OR mask k"
  have mono: "drop_bit k x \<le> drop_bit k y" if "x \<le> y" for x y :: "'a word"
  proof -
    have "unat (drop_bit k z) = unat z div 2 ^ k" for z :: "'a word"
      using unat_word_less [of z] by (subst unsigned_drop_bit_eq) (simp add: drop_bit_eq_div take_bit_nat_eq_self)
    then show ?thesis using that by (simp only: word_le_nat_alt div_le_mono)
  qed
  have "drop_bit k (n OR mask k) = drop_bit k n" by (rule bit_word_eqI) (auto simp: bit_simps)
  then have "drop_bit k a = drop_bit k n" using mono [of n a] mono [of a "n OR mask k"] n by (metis order_antisym)
  then have "bit a (k + i) = bit n (k + i)" for i by (metis bit_drop_bit_eq comp_apply)
  then have hi: "bit a j = bit n j" if "k \<le> j" for j using that by (metis le_iff_add)
  have lo: "\<not> bit n j" if "j < k" for j
  proof
    assume "bit n j"
    then have "bit (n AND mask k) j" using that bit_imp_le_length [of n j] by (simp add: bit_simps)
    then show False using assms by simp
  qed
  show "a AND NOT (mask k) = n"
  proof (rule bit_word_eqI)
    fix j assume j: "j < LENGTH('a)"
    show "bit (a AND NOT (mask k)) j \<longleftrightarrow> bit n j"
      using hi [of j] lo [of j] j by (cases "j < k") (simp_all add: bit_simps)
  qed
qed

lemma span_contains:
  assumes "n4_ok net"
  shows "n4_contains net ip \<longleftrightarrow> in_span ip (span_of net)" "fst (span_of net) \<le> snd (span_of net)"
proof -
  let ?p = "n4_prefix_len net" and ?n = "n4_network net"
  have p: "?p \<le> 32" "?n AND mask (32 - ?p) = 0" using assms by (auto simp: n4_ok_def)
  have "(if ?p \<ge> 32 then 0 else drop_bit ?p (- 1)) = (mask (32 - ?p) :: u32)"
    using p(1) by (auto intro!: bit_word_eqI simp: bit_simps)
  then have s: "span_of net = (?n, ?n OR mask (32 - ?p))" by (simp add: span_of_def)
  have "n4_contains net ip \<longleftrightarrow> ip AND NOT (mask (32 - ?p)) = ?n"
    using p(1) by (cases net) (simp add: n4_contains_def n4_new_eq)
  then show "n4_contains net ip \<longleftrightarrow> in_span ip (span_of net)"
    unfolding masked_interval [OF p(2)] s in_span_def by simp
  show "fst (span_of net) \<le> snd (span_of net)" unfolding s using masked_interval [OF p(2), of ?n] p(2)
    by (simp add: le_word_or2)
qed


lemma new_carries:
  assumes "\<forall>net \<in> set nets. n4_ok net"
  shows "ff_carries (ff_new nets ns) ip \<longleftrightarrow> (\<exists>net \<in> set nets. n4_contains net ip)"
proof -
  let ?s = "sort (map span_of nets)"
  have f: "ranges_ok (fold push_span ?s []) \<and> ((\<exists>r \<in> set (fold push_span ?s []). in_span ip r) \<longleftrightarrow>
      (\<exists>r \<in> set []. in_span ip r) \<or> (\<exists>s \<in> set ?s. in_span ip s))"
    by (rule fold_push_span) (use assms span_contains(2) in \<open>auto simp: ranges_ok_def\<close>)
  then have "ff_carries (ff_new nets ns) ip \<longleftrightarrow> (\<exists>s \<in> set ?s. in_span ip s)"
    using carries_ranges [of "fold push_span ?s []" "ff_new nets ns" ip] by (simp add: ff_new_def)
  then show ?thesis using assms span_contains(1) by auto
qed

section \<open>The published cell\<close>

text \<open>The publications a cell can have received. Networks come from \<open>Ipv4Network::new\<close>.\<close>

inductive ft_run :: "foreign_tunnel_cell \<Rightarrow> bool" where
  start: "ft_run ft_new"
| tunnels: "ft_run c \<Longrightarrow> ft_run (snd (publish_tunnels routes adapters foreign c))"
| served: "ft_run c \<Longrightarrow> ft_run (snd (publish_served table adapters per_user own c))"
| own_links: "ft_run c \<Longrightarrow> ft_run (snd (publish_own_links links c))"
| networks: "ft_run c \<Longrightarrow> \<forall>net \<in> set nets. n4_ok net \<Longrightarrow> ft_run (publish_networks nets c)"
| claims: "ft_run c \<Longrightarrow> ft_run (publish_claims claims c)"

definition ft_ok :: "foreign_tunnel_cell \<Rightarrow> bool" where
  "ft_ok c \<longleftrightarrow> (\<forall>net \<in> set (ft_networks c). n4_ok net) \<and> (\<forall>(a, s) \<in> set (ft_claims c). s \<noteq> [] \<and> to_ascii_lowercase s = s) \<and>
     length (ft_claims c) \<le> MAX_ENTRIES \<and> ft_facts c = ff_new (ft_networks c) (claimed_namespaces c) \<and>
     ft_any c = (\<not> ff_is_empty (ft_facts c))"

lemma refresh_ok:
  assumes "\<forall>net \<in> set (ft_networks c). n4_ok net" "\<forall>(a, s) \<in> set (ft_claims c). s \<noteq> [] \<and> to_ascii_lowercase s = s"
    "length (ft_claims c) \<le> MAX_ENTRIES"
  shows "ft_ok (ft_refresh c)"
  using assms by (simp add: ft_ok_def ft_refresh_def Let_def claimed_namespaces_def)

lemma networks_of_ok: "net \<in> set (networks_of routes foreign) \<Longrightarrow> n4_ok net"
proof -
  assume "net \<in> set (networks_of routes foreign)"
  then obtain b :: ip_block where "(case network b of V4 n \<Rightarrow> n4_new n (prefix_len b) | V6 _ \<Rightarrow> None) = Some net"
    by (auto simp: networks_of_def map_filter_def)
  then show ?thesis by (cases "network b") (simp_all add: n4_new_ok)
qed

lemma tunnels_ok: "ft_ok c \<Longrightarrow> ft_ok (snd (publish_tunnels routes adapters foreign c))"
  unfolding publish_tunnels_def Let_def snd_conv
  by (intro refresh_ok) (auto simp: ft_ok_def dest: in_set_takeD networks_of_ok)

lemma own_links_ok: "ft_ok c \<Longrightarrow> ft_ok (snd (publish_own_links links c))"
  by (simp add: publish_own_links_def Let_def ft_ok_def claimed_namespaces_def)

lemma run_ok: "ft_run c \<Longrightarrow> ft_ok c"
proof (induction rule: ft_run.induct)
  case start
  then show ?case by (simp add: ft_ok_def ft_new_def claimed_namespaces_def ff_new_def ff_is_empty_def)
next
  case (tunnels c routes adapters foreign)
  then show ?case by (simp add: tunnels_ok)
next
  case (served c table adapters per_user own)
  then have "ft_ok (snd (publish_own_links own c))" by (simp add: own_links_ok)
  then have "ft_ok (snd (publish_tunnels rs ads fs (snd (publish_own_links own c))))" for rs ads fs by (rule tunnels_ok)
  then show ?case by (simp add: publish_served_def Let_def case_prod_unfold split: option.split)
next
  case (own_links c links)
  then show ?case by (simp add: own_links_ok)
next
  case (networks c nets)
  then show ?case unfolding publish_networks_def n4_sorted_def
    by (intro refresh_ok) (auto simp: ft_ok_def dest: in_set_takeD)
next
  case (claims c cs)
  then show ?case unfolding publish_claims_def
    by (intro refresh_ok) (auto simp: ft_ok_def to_ascii_lowercase_def dest!: in_set_takeD)
qed


lemma claimed_iff:
  assumes "ft_ok c"
  shows "n \<in> set (claimed_namespaces c) \<longleftrightarrow> (\<exists>a. (a, n) \<in> set (ft_claims c) \<and>
    (\<exists>ts i name. ft_tunnels c = Some ts \<and> (i, name) \<in> set ts \<and> eq_ignore_ascii_case name a))"
proof -
  let ?cs = "filter (\<lambda>(adapter, _).
     list_ex (\<lambda>(_, name). eq_ignore_ascii_case name adapter) (case ft_tunnels c of Some t \<Rightarrow> t | None \<Rightarrow> [])) (ft_claims c)"
  have "length (remdups_adj (sort (map snd ?cs))) \<le> length ?cs"
    using remdups_adj_length [of "sort (map snd ?cs)"] by simp
  also have "\<dots> \<le> MAX_ENTRIES" using length_filter_le [of _ "ft_claims c"] assms unfolding ft_ok_def by (meson order_trans)
  finally have "set (claimed_namespaces c) = snd ` set ?cs" by (simp add: claimed_namespaces_def)
  then show ?thesis
  proof (cases "ft_tunnels c")
    case None
    then show ?thesis by (simp add: claimed_namespaces_def)
  next
    case (Some ts)
    then have "n \<in> set (claimed_namespaces c) \<longleftrightarrow> (\<exists>a. (a, n) \<in> set (ft_claims c) \<and> (\<exists>x \<in> set ts. eq_ignore_ascii_case (snd x) a))"
      using \<open>set (claimed_namespaces c) = snd ` set ?cs\<close> by (simp add: list_ex_iff case_prod_unfold image_iff Bex_def)
    moreover have "(\<exists>x \<in> set ts. eq_ignore_ascii_case (snd x) a) \<longleftrightarrow> (\<exists>i name. (i, name) \<in> set ts \<and> eq_ignore_ascii_case name a)" for a
      by force
    ultimately show ?thesis using Some by simp
  qed
qed

lemma facts_claims:
  assumes "ft_ok c"
  shows "ff_claims_name (ft_facts c) h \<longleftrightarrow> (\<exists>n \<in> set (claimed_namespaces c). host_matches n (normalize_hostname h))"
proof -
  have ns: "ff_namespaces (ft_facts c) = claimed_namespaces c" using assms by (simp add: ft_ok_def ff_new_def)
  have srt: "sorted (claimed_namespaces c)" unfolding claimed_namespaces_def by (intro sorted_wrt_take) simp
  have ne: "n \<noteq> []" if "n \<in> set (claimed_namespaces c)" for n
    using that claimed_iff [OF assms] assms by (auto simp: ft_ok_def)
  have k: "map lower_byte (trim_end_dots (trim h)) = normalize_hostname h"
    by (simp add: normalize_hostname_def to_ascii_lowercase_def)
  show ?thesis
  proof (cases "claimed_namespaces c = []")
    case False
    then show ?thesis unfolding ff_claims_name_def ns claims_loop_iff [OF srt] k
      using ne by (auto simp: host_matches_iff)
  qed (simp add: ff_claims_name_def ns)
qed

text \<open>
  C14. Readers of the published facts are exact. After any sequence of publications, the merged and
  bisected ranges carry an address exactly when one of the published networks contains it, and the
  sorted namespaces claim a name exactly when the claim of a link now named a foreign tunnel covers
  it on a label boundary; the atomic shortcut hides nothing.
\<close>

theorem tunnel_facts_exact:
  assumes "ft_run c"
  shows "(ft_carries c ip \<longleftrightarrow> (\<exists>net \<in> set (ft_networks c). n4_contains net ip)) \<and>
    (ft_claims_name c h \<longleftrightarrow> (\<exists>a s. (a, s) \<in> set (ft_claims c) \<and> host_matches s (normalize_hostname h) \<and>
       (\<exists>ts i name. ft_tunnels c = Some ts \<and> (i, name) \<in> set ts \<and> eq_ignore_ascii_case name a)))"
proof -
  have ok: "ft_ok c" by (rule run_ok [OF assms])
  have fc: "ff_carries (ft_facts c) ip \<longleftrightarrow> (\<exists>net \<in> set (ft_networks c). n4_contains net ip)"
    using ok new_carries by (simp add: ft_ok_def)
  have fn: "ff_claims_name (ft_facts c) h \<longleftrightarrow> (\<exists>a s. (a, s) \<in> set (ft_claims c) \<and> host_matches s (normalize_hostname h) \<and>
       (\<exists>ts i name. ft_tunnels c = Some ts \<and> (i, name) \<in> set ts \<and> eq_ignore_ascii_case name a))"
    unfolding facts_claims [OF ok] using claimed_iff [OF ok] by blast
  have e: "ff_is_empty f \<Longrightarrow> \<not> ff_carries f ip \<and> \<not> ff_claims_name f h" for f
    by (simp add: ff_is_empty_def ff_carries_def ff_claims_name_def partition_point_def pp_loop.simps)
  have any: "ft_any c \<longleftrightarrow> \<not> ff_is_empty (ft_facts c)" using ok by (simp add: ft_ok_def)
  have "ft_carries c ip = ff_carries (ft_facts c) ip" "ft_claims_name c h = ff_claims_name (ft_facts c) h"
    using e [of "ft_facts c"] any by (simp_all add: ft_carries_def ft_claims_name_def ft_snapshot_def)
  then show ?thesis using fc fn by blast
qed


definition corp_cell :: foreign_tunnel_cell where
  "corp_cell = \<lparr>ft_facts = \<lparr>ff_ranges = [(0x0A080000, 0x0A08FFFF)], ff_namespaces = [''corp.example'']\<rparr>,
     ft_networks = [\<lparr>n4_network = 0x0A080000, n4_prefix_len = 16\<rparr>], ft_tunnels = Some [(7, ''vpn0'')],
     ft_claims = [(''VPN0'', ''corp.example'')], ft_own_links = [], ft_local_networks = [], ft_any = True\<rparr>"

lemma corp_cell:
  "corp_cell = publish_claims [(''VPN0'', ''Corp.Example'')] (publish_networks [\<lparr>n4_network = 0x0A080000, n4_prefix_len = 16\<rparr>]
     (snd (publish_tunnels [] [\<lparr>ad_index = 7, ad_adapter_name = ''vpn0''\<rparr>] [7] ft_new)))"
proof -
  have t: "take MAX_ENTRIES [x] = [x]" "take MAX_ENTRIES [] = []" for x by (simp_all add: MAX_ENTRIES_def)
  have l: "to_ascii_lowercase ''Corp.Example'' = ''corp.example''" "eq_ignore_ascii_case ''vpn0'' ''VPN0''" by code_simp+
  have s: "span_of \<lparr>n4_network = 0x0A080000, n4_prefix_len = 16\<rparr> = (0x0A080000, 0x0A08FFFF)" by code_simp
  show ?thesis
    by (simp add: corp_cell_def publish_claims_def publish_networks_def publish_tunnels_def ft_new_def Let_def ft_refresh_def
        claimed_namespaces_def ff_new_def n4_sorted_def networks_of_def foreign_tunnel_blocks_def local_networks_inside_def
        one_tunnels_networks_def map_filter_simps t l s push_span_def ff_is_empty_def)
qed

theorem tunnel_facts_exact_witness:
  "ft_carries corp_cell 0x0A080102 \<and> ft_claims_name corp_cell ''Mail.corp.example.'' \<and>
   (\<exists>net \<in> set (ft_networks corp_cell). n4_contains net 0x0A080102)"
proof -
  have "n4_ok \<lparr>n4_network = 0x0A080000, n4_prefix_len = 16\<rparr>" by code_simp
  then have "ft_run corp_cell" unfolding corp_cell by (intro ft_run.intros) simp
  moreover have "ft_carries corp_cell 0x0A080102" "ft_claims_name corp_cell ''Mail.corp.example.''" by code_simp+
  ultimately show ?thesis using tunnel_facts_exact [of corp_cell] by blast
qed

end
