(* ===== verification/Fake_Ip_Answer.thy ===== *)
theory Fake_Ip_Answer
  imports Foreign_Tunnels
begin

text \<open>
  The answerers that put a virtual address in place of the real ones
  (\<open>src/core/services/service-runtime/src/dns_resolver.rs\<close>): \<open>ScopedFakeIpAnswerer\<close> joins the
  scope, the run-time exclusions, the foreign tunnels and the allocator, \<open>GatedFakeIpAnswerer\<close>
  wraps it, and the rule-host branch of \<open>dns_resolver/query.rs\<close> calls the wrapper. The readings
  of the live closures (the subnets of the additional route, the gate) are arguments of the state or
  of the call.
\<close>

section \<open>Definitions\<close>

record scoped_answerer =
  sa_scope :: fake_ip_scope
  sa_allocator :: fake_ip_allocator
  sa_runtime_exclusions :: "string list"
  sa_answers :: u64
  sa_secondary_subnets :: "ipv4_network list option"
  sa_foreign_tunnels :: foreign_tunnel_cell

definition sa_new :: "fake_ip_scope \<Rightarrow> fake_ip_allocator \<Rightarrow> scoped_answerer" where
  "sa_new scope allocator = \<lparr>sa_scope = scope, sa_allocator = allocator, sa_runtime_exclusions = [], sa_answers = 0,
     sa_secondary_subnets = None, sa_foreign_tunnels = ft_new\<rparr>"

definition scoped_may_substitute :: "scoped_answerer \<Rightarrow> u32 list \<Rightarrow> bool" where
  "scoped_may_substitute an real =
     (if ft_carries_any (sa_foreign_tunnels an) real then False
      else case sa_secondary_subnets an of None \<Rightarrow> True
        | Some subnets \<Rightarrow> \<not> list_ex (\<lambda>ip. list_ex (\<lambda>net. n4_contains net ip) subnets) real)"

definition carries_on_v4 :: "scoped_answerer \<Rightarrow> string \<Rightarrow> bool" where
  "carries_on_v4 an hostname \<longleftrightarrow> is_fake_ip (decide (sa_scope an) hostname None) \<and>
     \<not> rx_contains (sa_runtime_exclusions an) hostname \<and> \<not> ft_claims_name (sa_foreign_tunnels an) hostname"

definition fake_answer :: "nat \<Rightarrow> string \<Rightarrow> scoped_answerer \<Rightarrow> u32 list option \<times> scoped_answerer" where
  "fake_answer now hostname an =
     (if \<not> is_fake_ip (decide (sa_scope an) hostname None) then (None, an)
      else if ft_claims_name (sa_foreign_tunnels an) hostname then (None, an)
      else if rx_contains (sa_runtime_exclusions an) hostname then (None, an)
      else case allocate now hostname (sa_allocator an) of
          (Inr binding, a) \<Rightarrow> (Some [fb_v4 binding], an\<lparr>sa_allocator := a, sa_answers := sa_answers an + 1\<rparr>)
        | (Inl _, a) \<Rightarrow> (None, an\<lparr>sa_allocator := a\<rparr>))"

text \<open>The wrapper: it answers while its gate is open, and keeps the default of \<open>may_substitute\<close>.\<close>

definition gated_fake_answer :: "bool \<Rightarrow> nat \<Rightarrow> string \<Rightarrow> scoped_answerer \<Rightarrow> u32 list option \<times> scoped_answerer" where
  "gated_fake_answer gate now hostname an = (if \<not> gate then (None, an) else fake_answer now hostname an)"

definition gated_carries_on_v4 :: "bool \<Rightarrow> scoped_answerer \<Rightarrow> string \<Rightarrow> bool" where
  "gated_carries_on_v4 gate an hostname \<longleftrightarrow> gate \<and> carries_on_v4 an hostname"

definition default_may_substitute :: "u32 list \<Rightarrow> bool" where
  "default_may_substitute real = True"

text \<open>The choice of the rule-host branch: a virtual address, or the real ones.\<close>

definition rule_host_fake :: "bool \<Rightarrow> nat \<Rightarrow> string \<Rightarrow> u32 list \<Rightarrow> scoped_answerer \<Rightarrow> u32 list option \<times> scoped_answerer" where
  "rule_host_fake gate now hostname answered an =
     (if \<not> default_may_substitute answered then (None, an) else gated_fake_answer gate now hostname an)"

section \<open>Answers\<close>

lemma is_fake_ip_iff: "is_fake_ip v \<longleftrightarrow> v = FakeIp"
  by (cases v) simp_all

lemma fake_answer_carries:
  "fake_answer now h an = (if carries_on_v4 an h then case allocate now h (sa_allocator an) of
       (Inr b, a) \<Rightarrow> (Some [fb_v4 b], an\<lparr>sa_allocator := a, sa_answers := sa_answers an + 1\<rparr>)
     | (Inl _, a) \<Rightarrow> (None, an\<lparr>sa_allocator := a\<rparr>) else (None, an))"
  by (simp add: fake_answer_def carries_on_v4_def)

text \<open>
  C15. A virtual address is handed out only where it may be, and leads back to its name. When the
  answerer answers, the scope is on, the name is no literal and lies under no excluded, local or
  foreign namespace, and the address is a host of the pool that the allocator now maps to exactly
  this name. When it stays silent about a name it would carry, the pool is exhausted.
\<close>

theorem fake_answer_safe:
  assumes "pool_ok c" "fa_run c now (sa_allocator an)" "fake_answer now h an = (r, an')"
    and "[] \<notin> set (sa_runtime_exclusions an)"
  shows "case r of
      Some vs \<Rightarrow> (\<exists>v. vs = [v] \<and> pool_holds_host c (V4 v) \<and>
          peek_domain_for_ip (sa_allocator an') (V4 v) = Some (normalize_hostname h)) \<and>
        fs_enabled (sa_scope an) \<and> parse_ip_addr (normalize_hostname h) = None \<and>
        \<not> is_non_routable_name (normalize_hostname h) \<and> \<not> ft_claims_name (sa_foreign_tunnels an) h \<and>
        (\<forall>p \<in> set (fs_excluded_hosts (sa_scope an)) \<union> set (sa_runtime_exclusions an). \<not> host_matches p (normalize_hostname h))
    | None \<Rightarrow> carries_on_v4 an h \<longrightarrow> fa_len (sa_allocator an) = unat (capacity c)"
proof (cases r)
  case None
  have "fa_len (sa_allocator an) = unat (capacity c)" if "carries_on_v4 an h"
  proof -
    have k: "normalize_hostname h \<noteq> []"
      using that decide_fake_key [of "sa_scope an" h None] by (simp add: carries_on_v4_def is_fake_ip_iff)
    have "\<exists>e. fst (allocate now h (sa_allocator an)) = Inl e"
      using assms(3) None that by (auto simp: fake_answer_carries split: prod.splits sum.splits)
    then show ?thesis using allocate_exhausted [OF assms(1,2) k] by blast
  qed
  then show ?thesis using None by simp
next
  case (Some vs)
  have cv: "carries_on_v4 an h" using assms(3) Some by (auto simp: fake_answer_carries split: if_splits)
  obtain b a where al: "allocate now h (sa_allocator an) = (Inr b, a)" "vs = [fb_v4 b]" "sa_allocator an' = a"
    using assms(3) Some cv by (auto simp: fake_answer_carries split: prod.splits sum.splits)
  note s = allocate_leads_back [OF assms(1,2) al(1)]
  have d: "decide (sa_scope an) h None = FakeIp" "\<not> rx_contains (sa_runtime_exclusions an) h"
    "\<not> ft_claims_name (sa_foreign_tunnels an) h"
    using cv by (simp_all add: carries_on_v4_def is_fake_ip_iff)
  show ?thesis
    using s d(3) d(1) [unfolded decide_fake] d(2) [unfolded rx_contains_iff [OF assms(4)]]
    unfolding Some option.case al(2,3) by blast
qed


text \<open>
  C39. The wrapper drops the protection of tunnel addresses. \<open>GatedFakeIpAnswerer\<close> does not forward
  \<open>may_substitute\<close>, so while its gate is open and the pool has room the rule-host branch answers
  a carried name with a virtual address whatever its real addresses are, those included for which the
  answerer inside says that no virtual address may stand in for them.
\<close>

theorem gated_substitutes_tunnel_address:
  assumes "pool_ok c" "fa_run c now (sa_allocator an)" "fa_len (sa_allocator an) < unat (capacity c)"
    and "carries_on_v4 an h" "\<not> scoped_may_substitute an answered"
  shows "\<exists>v an'. rule_host_fake True now h answered an = (Some [v], an')"
proof -
  have k: "normalize_hostname h \<noteq> []"
    using assms(4) decide_fake_key [of "sa_scope an" h None] by (simp add: carries_on_v4_def is_fake_ip_iff)
  obtain b a where "allocate now h (sa_allocator an) = (Inr b, a)"
    using allocate_exhausted [OF assms(1,2) k] assms(3)
    by (cases "allocate now h (sa_allocator an)"; cases "fst (allocate now h (sa_allocator an))") auto
  then show ?thesis
    using assms(4) by (simp add: rule_host_fake_def default_may_substitute_def gated_fake_answer_def fake_answer_carries)
qed

section \<open>A concrete answerer\<close>

definition corp_answerer :: scoped_answerer where
  "corp_answerer = (sa_new (scope_enabled [''bank.example'']) tiny_start)\<lparr>sa_foreign_tunnels := corp_cell\<rparr>"

lemma corp_carries: "carries_on_v4 corp_answerer ''www.site.org''"
  by code_simp

theorem fake_answer_safe_witness:
  "\<exists>v. fst (fake_answer 0 ''www.site.org'' corp_answerer) = Some [v] \<and> pool_holds_host tiny_pool (V4 v)"
proof -
  have r: "fa_run tiny_pool 0 (sa_allocator corp_answerer)" using tiny_run by (simp add: corp_answerer_def sa_new_def)
  have x: "[] \<notin> set (sa_runtime_exclusions corp_answerer)" by (simp add: corp_answerer_def sa_new_def)
  have n: "fa_len (sa_allocator corp_answerer) \<noteq> unat (capacity tiny_pool)" by code_simp
  obtain q an' where e: "fake_answer 0 ''www.site.org'' corp_answerer = (q, an')" by fastforce
  from fake_answer_safe [OF tiny_ok r e x] corp_carries n show ?thesis unfolding e by (cases q) auto
qed

theorem gated_substitutes_tunnel_address_witness:
  "\<not> scoped_may_substitute corp_answerer [0x0A080102] \<and>
   (\<exists>v an'. rule_host_fake True 0 ''www.site.org'' [0x0A080102] corp_answerer = (Some [v], an'))"
proof -
  have r: "fa_run tiny_pool 0 (sa_allocator corp_answerer)" using tiny_run by (simp add: corp_answerer_def sa_new_def)
  have n: "fa_len (sa_allocator corp_answerer) < unat (capacity tiny_pool)" by code_simp
  have s: "\<not> scoped_may_substitute corp_answerer [0x0A080102]" by code_simp
  show ?thesis using gated_substitutes_tunnel_address [OF tiny_ok r n corp_carries s] s by blast
qed

end
