(* ===== verification/Glob.thy ===== *)
theory Glob
  imports NRR_Prelude
begin

text \<open>
  The wildcard matcher for application patterns, \<open>src/shared/contracts/src/glob.rs\<close>. The loop
  works on byte indexes and keeps one resume point; it runs here with fuel, and the lemmas show
  that \<open>(|pattern| + 2) * (|text| + 2)\<close> iterations are always enough and that the answer is
  the one of the textbook recursive matcher on characters. The per-character lowercase table
  of the standard library (\<open>char::to_lowercase\<close>) is a parameter \<open>clow\<close>.
\<close>

section \<open>Definitions\<close>

abbreviation star_byte :: nat where "star_byte \<equiv> 42"

text \<open>\<open>u8::leading_ones\<close>.\<close>

definition leading_ones :: "nat \<Rightarrow> nat" where
  "leading_ones b = length (takeWhile (\<lambda>i. odd (b div 2 ^ i)) [7, 6, 5, 4, 3, 2, 1, 0])"

definition char_width :: "nat \<Rightarrow> nat" where
  "char_width lead = max (leading_ones lead) 1"

definition sigma :: "nat \<Rightarrow> nat" where
  "sigma c = (if c = 0x3c2 then 0x3c3 else c)"

definition fold_eq :: "(nat \<Rightarrow> nat list) \<Rightarrow> nat \<Rightarrow> nat \<Rightarrow> bool" where
  "fold_eq clow a b \<longleftrightarrow> a = b \<or> map sigma (clow a) = map sigma (clow b)"

definition fold_str :: "(nat \<Rightarrow> nat list) \<Rightarrow> string \<Rightarrow> string" where
  "fold_str clow text = utf8 (map sigma (concat (map clow (chars_of text))))"

record glob_state =
  gp :: nat
  gt :: nat
  gstar :: "(nat \<times> nat) option"

definition byte_eq :: "nat \<Rightarrow> nat \<Rightarrow> bool" where
  "byte_eq a b \<longleftrightarrow> lower_byte (char_of a) = lower_byte (char_of b)"

text \<open>How far the two indexes move when the characters under them fold alike.\<close>

definition glob_advance ::
  "(nat \<Rightarrow> nat list) \<Rightarrow> nat list \<Rightarrow> nat list \<Rightarrow> nat \<Rightarrow> nat \<Rightarrow> (nat \<times> nat) option" where
  "glob_advance clow pat txt p t =
     (if p < length pat \<and> t < length txt then
        if pat ! p < 128 \<and> txt ! t < 128 then
          (if byte_eq (pat ! p) (txt ! t) then Some (1, 1) else None)
        else
          (case (next_char_bytes (drop p pat), next_char_bytes (drop t txt)) of
             (Some (pch, pw), Some (tch, tw)) \<Rightarrow> if fold_eq clow pch tch then Some (pw, tw) else None
           | _ \<Rightarrow> None)
      else None)"

text \<open>
  One iteration of the loop: the next state, or the value returned. \<open>pat\<close> and \<open>txt\<close> are the
  byte slices of the two strings.
\<close>

definition glob_step ::
  "(nat \<Rightarrow> nat list) \<Rightarrow> nat list \<Rightarrow> nat list \<Rightarrow> glob_state \<Rightarrow> glob_state + bool" where
  "glob_step clow pat txt s =
     (let p = gp s; t = gt s in
      if p < length pat \<and> pat ! p = star_byte then
        (let p' = p + length (takeWhile (\<lambda>b. b = star_byte) (drop p pat)) in
         if p' = length pat then Inr True
         else Inl (s\<lparr>gp := p', gstar := Some (p', t)\<rparr>))
      else
        (case glob_advance clow pat txt p t of
              Some (dp, dt) \<Rightarrow> Inl (s\<lparr>gp := p + dp, gt := t + dt\<rparr>)
            | None \<Rightarrow>
                if p = length pat \<and> t = length txt then Inr True
                else
                  (case gstar s of
                     Some (resume_p, resume_t) \<Rightarrow>
                       if resume_t < length txt then
                         (let t' = resume_t + char_width (txt ! resume_t) in
                          Inl \<lparr>gp = resume_p, gt = t', gstar = Some (resume_p, t')\<rparr>)
                       else Inr False
                   | None \<Rightarrow> Inr False)))"

fun glob_loop ::
  "(nat \<Rightarrow> nat list) \<Rightarrow> nat list \<Rightarrow> nat list \<Rightarrow> nat \<Rightarrow> glob_state \<Rightarrow> bool option" where
  "glob_loop clow pat txt 0 s = None"
| "glob_loop clow pat txt (Suc fuel) s =
     (case glob_step clow pat txt s of Inr b \<Rightarrow> Some b | Inl s' \<Rightarrow> glob_loop clow pat txt fuel s')"

definition glob_fuel :: "string \<Rightarrow> string \<Rightarrow> nat" where
  "glob_fuel pattern text = (length pattern + 2) * (length text + 2)"

definition glob_run :: "(nat \<Rightarrow> nat list) \<Rightarrow> string \<Rightarrow> string \<Rightarrow> bool option" where
  "glob_run clow pattern text =
     glob_loop clow (map byte_of pattern) (map byte_of text) (glob_fuel pattern text)
       \<lparr>gp = 0, gt = 0, gstar = None\<rparr>"

definition glob_match :: "(nat \<Rightarrow> nat list) \<Rightarrow> string \<Rightarrow> string \<Rightarrow> bool" where
  "glob_match clow pattern text \<longleftrightarrow> glob_run clow pattern text = Some True"

section \<open>The reference matcher\<close>

text \<open>\<open>*\<close> stands for any run of characters, every other pattern character for one that folds alike.\<close>

fun glob_ref :: "(nat \<Rightarrow> nat list) \<Rightarrow> nat list \<Rightarrow> nat list \<Rightarrow> bool" where
  "glob_ref clow [] ts = (ts = [])"
| "glob_ref clow (c # ps) [] = (c = star_byte \<and> glob_ref clow ps [])"
| "glob_ref clow (c # ps) (t # ts) =
     (if c = star_byte then glob_ref clow ps (t # ts) \<or> glob_ref clow (c # ps) ts
      else fold_eq clow c t \<and> glob_ref clow ps ts)"

lemma glob_ref_star: "glob_ref clow (star_byte # ps) ts \<longleftrightarrow> (\<exists>n \<le> length ts. glob_ref clow ps (drop n ts))"
proof (induction ts)
  case (Cons t ts)
  have "(\<exists>n \<le> length (t # ts). glob_ref clow ps (drop n (t # ts))) \<longleftrightarrow>
     glob_ref clow ps (t # ts) \<or> (\<exists>n \<le> length ts. glob_ref clow ps (drop n ts))"
    by (metis Suc_le_mono drop0 drop_Suc_Cons le0 length_Cons not0_implies_Suc)
  with Cons show ?case by simp
qed simp

lemma glob_ref_star_mono:
  assumes "glob_ref clow (star_byte # ps) (drop n ts)"
  shows "glob_ref clow (star_byte # ps) ts"
proof -
  obtain m where "glob_ref clow ps (drop m (drop n ts))" using assms unfolding glob_ref_star by blast
  moreover have "drop m (drop n ts) = drop (min (m + n) (length ts)) ts" by (simp add: min_def)
  ultimately show ?thesis unfolding glob_ref_star by (metis min.cobounded2)
qed

lemma glob_ref_star_star: "glob_ref clow (star_byte # star_byte # ps) ts = glob_ref clow (star_byte # ps) ts"
  using glob_ref_star [of clow "star_byte # ps" ts] glob_ref_star_mono [of clow ps _ ts]
  by (metis drop0 le0)

lemma glob_ref_skip:
  "glob_ref clow (star_byte # ps) ts = glob_ref clow (star_byte # dropWhile (\<lambda>c. c = star_byte) ps) ts"
  by (induction ps) (auto simp: glob_ref_star_star)

lemma glob_ref_star_only: "glob_ref clow [star_byte] ts"
  by (induction ts) auto

text \<open>A literal stretch of pattern matches a stretch of text of the same length, character by character.\<close>

lemma glob_ref_literal:
  assumes "star_byte \<notin> set L"
  shows "glob_ref clow (L @ P) ts \<longleftrightarrow>
    length L \<le> length ts \<and> list_all2 (fold_eq clow) L (take (length L) ts) \<and>
    glob_ref clow P (drop (length L) ts)"
  using assms
proof (induction L arbitrary: ts)
  case (Cons c L)
  then show ?case by (cases ts) auto
qed simp

text \<open>
  Leftmost is enough: once a literal stretch after a \<open>*\<close> has matched, only what follows
  the next \<open>*\<close> needs to be tried again.
\<close>

lemma glob_ref_leftmost:
  assumes "star_byte \<notin> set L" "list_all2 (fold_eq clow) L M"
  shows "glob_ref clow (star_byte # L @ star_byte # Q) (M @ T) = glob_ref clow (star_byte # Q) T"
proof
  have len: "length L = length M" using assms(2) by (rule list_all2_lengthD)
  {
    assume "glob_ref clow (star_byte # L @ star_byte # Q) (M @ T)"
    then obtain n where "glob_ref clow (L @ star_byte # Q) (drop n (M @ T))"
      unfolding glob_ref_star by blast
    then have "glob_ref clow (star_byte # Q) (drop (length L) (drop n (M @ T)))"
      by (simp add: glob_ref_literal [OF assms(1)])
    moreover have "drop (length L) (drop n (M @ T)) = drop n (drop (length L) (M @ T))"
      by (simp only: drop_drop add.commute)
    then have "drop (length L) (drop n (M @ T)) = drop n T" using len by simp
    ultimately show "glob_ref clow (star_byte # Q) T" using glob_ref_star_mono by metis
  }
  assume "glob_ref clow (star_byte # Q) T"
  then have "glob_ref clow (L @ star_byte # Q) (M @ T)"
    using assms len by (simp add: glob_ref_literal [OF assms(1)])
  then show "glob_ref clow (star_byte # L @ star_byte # Q) (M @ T)"
    unfolding glob_ref_star by (metis drop0 le0)
qed

section \<open>The loop on characters\<close>

type_synonym cstate = "nat list \<times> nat list \<times> (nat list \<times> nat list) option"

text \<open>The same iteration on the characters still to be read.\<close>

fun cstep :: "(nat \<Rightarrow> nat list) \<Rightarrow> cstate \<Rightarrow> cstate + bool" where
  "cstep clow (P, T, st) =
     (if P \<noteq> [] \<and> hd P = star_byte then
        (let P' = dropWhile (\<lambda>c. c = star_byte) P in
         if P' = [] then Inr True else Inl (P', T, Some (P', T)))
      else if P \<noteq> [] \<and> T \<noteq> [] \<and> fold_eq clow (hd P) (hd T) then Inl (tl P, tl T, st)
      else if P = [] \<and> T = [] then Inr True
      else (case st of Some (RP, RT) \<Rightarrow>
              if RT \<noteq> [] then Inl (RP, tl RT, Some (RP, tl RT)) else Inr False
            | None \<Rightarrow> Inr False))"

fun cloop :: "(nat \<Rightarrow> nat list) \<Rightarrow> nat \<Rightarrow> cstate \<Rightarrow> bool option" where
  "cloop clow 0 s = None"
| "cloop clow (Suc fuel) s =
     (case cstep clow s of Inr b \<Rightarrow> Some b | Inl s' \<Rightarrow> cloop clow fuel s')"

text \<open>What a state still has to decide, and the shape every reachable state has.\<close>

fun goal :: "(nat \<Rightarrow> nat list) \<Rightarrow> cstate \<Rightarrow> bool" where
  "goal clow (P, T, None) = glob_ref clow P T"
| "goal clow (P, T, Some (RP, RT)) = glob_ref clow (star_byte # RP) RT"

fun cinv :: "(nat \<Rightarrow> nat list) \<Rightarrow> nat \<Rightarrow> nat \<Rightarrow> cstate \<Rightarrow> bool" where
  "cinv clow n k (P, T, None) \<longleftrightarrow> length P \<le> n \<and> length T \<le> k"
| "cinv clow n k (P, T, Some (RP, RT)) \<longleftrightarrow>
     length RP \<le> n \<and> length RT \<le> k \<and>
     (\<exists>L M. star_byte \<notin> set L \<and> list_all2 (fold_eq clow) L M \<and> RP = L @ P \<and> RT = M @ T)"

fun cmeasure :: "nat \<Rightarrow> nat \<Rightarrow> cstate \<Rightarrow> nat" where
  "cmeasure n k (P, T, st) =
     (case st of None \<Rightarrow> k + 1 | Some (RP, RT) \<Rightarrow> length RT) * (n + 1) + length P"

lemma dropWhile_star_length: "P \<noteq> [] \<Longrightarrow> hd P = star_byte \<Longrightarrow>
    length (dropWhile (\<lambda>c. c = star_byte) P) < length P"
  by (cases P) (auto simp: le_imp_less_Suc length_dropWhile_le)

lemma goal_star:
  assumes "cinv clow n k (star_byte # P, T, st)"
  shows "goal clow (star_byte # P, T, st) = glob_ref clow (star_byte # P) T"
proof (cases st)
  case (Some rp)
  obtain RP RT where rp: "rp = (RP, RT)" by (cases rp)
  then obtain L M where "star_byte \<notin> set L" "list_all2 (fold_eq clow) L M"
    "RP = L @ star_byte # P" "RT = M @ T" using assms Some by auto
  then show ?thesis using glob_ref_leftmost Some rp by simp
qed simp

lemma glob_ref_mismatch:
  assumes "\<not> (P \<noteq> [] \<and> hd P = star_byte)" "\<not> (P \<noteq> [] \<and> T \<noteq> [] \<and> fold_eq clow (hd P) (hd T))"
    "\<not> (P = [] \<and> T = [])"
  shows "\<not> glob_ref clow P T"
  using assms by (cases P; cases T) auto

lemma goal_backtrack:
  assumes "cinv clow n k (P, T, Some (RP, RT))" "\<not> glob_ref clow P T"
  shows "goal clow (P, T, Some (RP, RT)) \<longleftrightarrow> RT \<noteq> [] \<and> glob_ref clow (star_byte # RP) (tl RT)"
proof -
  obtain L M where LM: "star_byte \<notin> set L" "list_all2 (fold_eq clow) L M" "RP = L @ P" "RT = M @ T"
    using assms(1) by auto
  then have "\<not> glob_ref clow RP RT"
    using assms(2) list_all2_lengthD [OF LM(2)] by (simp add: glob_ref_literal)
  then show ?thesis by (cases RT) auto
qed

lemma cstep_Inr:
  assumes "cinv clow n k s" "cstep clow s = Inr b"
  shows "goal clow s = b"
proof -
  obtain P T st where s: "s = (P, T, st)" by (cases s)
  show ?thesis
  proof (cases "P \<noteq> [] \<and> hd P = star_byte")
    case True
    then obtain P1 where P: "P = star_byte # P1" by (cases P) auto
    have d: "dropWhile (\<lambda>c. c = star_byte) P1 = []" and b
      using assms(2) s P by (simp_all add: Let_def split: if_splits)
    have "glob_ref clow (star_byte # P1) T"
      unfolding glob_ref_skip [of clow P1 T] d by (rule glob_ref_star_only)
    then show ?thesis using goal_star assms(1) s P \<open>b\<close> by simp
  next
    case F: False
    show ?thesis
    proof (cases "P = [] \<and> T = []")
      case True
      then have b using assms(2) s by simp
      show ?thesis
      proof (cases st)
        case (Some rp)
        then obtain L M RP RT where "star_byte \<notin> set L" "list_all2 (fold_eq clow) L M" "rp = (RP, RT)"
          "RP = L" "RT = M" using assms(1) s True by (cases rp) auto
        then have "glob_ref clow RP RT"
          using glob_ref_literal [of L clow "[]" M] list_all2_lengthD by fastforce
        then have "glob_ref clow (star_byte # RP) RT" unfolding glob_ref_star by (metis drop0 le0)
        then show ?thesis using s Some \<open>rp = _\<close> \<open>b\<close> by simp
      qed (use True s \<open>b\<close> in simp)
    next
      case E: False
      have M: "\<not> (P \<noteq> [] \<and> T \<noteq> [] \<and> fold_eq clow (hd P) (hd T))" and "\<not> b"
        using assms(2) s F E by (auto split: if_splits option.splits)
      have ng: "\<not> glob_ref clow P T" using F M E by (rule glob_ref_mismatch)
      show ?thesis
      proof (cases st)
        case None
        then show ?thesis using ng s \<open>\<not> b\<close> by simp
      next
        case (Some rp)
        obtain RP RT where rp: "rp = (RP, RT)" by (cases rp)
        have "RT = []" using assms(2) s Some rp F M E by (auto split: if_splits)
        then show ?thesis using goal_backtrack [of clow n k P T RP RT] assms(1) ng s Some rp \<open>\<not> b\<close> by simp
      qed
    qed
  qed
qed

lemma cinv_lengths:
  "cinv clow n k (P, T, st) \<Longrightarrow> length P \<le> n \<and> length T \<le> (case st of None \<Rightarrow> k | Some (RP, RT) \<Rightarrow> length RT)
    \<and> (case st of None \<Rightarrow> True | Some (RP, RT) \<Rightarrow> length RT \<le> k \<and> length RP \<le> n)"
  by (cases st) auto

lemma measure_drop:
  fixes a b n p q :: nat
  assumes "a < b" "p \<le> n"
  shows "a * (n + 1) + p < b * (n + 1) + q"
proof -
  have "(a + 1) * (n + 1) \<le> b * (n + 1)" using assms(1) by (intro mult_right_mono) auto
  then show ?thesis using assms(2) by simp
qed

lemma cstep_star:
  assumes "cinv clow n k (star_byte # P, T, st)"
  defines "P' \<equiv> dropWhile (\<lambda>c. c = star_byte) P"
  shows "cinv clow n k (P', T, Some (P', T))"
    "goal clow (P', T, Some (P', T)) = goal clow (star_byte # P, T, st)"
    "cmeasure n k (P', T, Some (P', T)) < cmeasure n k (star_byte # P, T, st)"
proof -
  note l = cinv_lengths [OF assms(1)]
  have P': "length P' \<le> length P" by (simp add: P'_def length_dropWhile_le)
  show "cinv clow n k (P', T, Some (P', T))"
    using l P' by (auto split: option.splits)
  show "goal clow (P', T, Some (P', T)) = goal clow (star_byte # P, T, st)"
    using goal_star [OF assms(1)] glob_ref_skip [of clow P T] by (simp add: P'_def)
  show "cmeasure n k (P', T, Some (P', T)) < cmeasure n k (star_byte # P, T, st)"
  proof (cases st)
    case None
    then have "length T < k + 1" "length P' \<le> n" using l P' by auto
    from measure_drop [OF this, of "length (star_byte # P)"] show ?thesis
      unfolding None cmeasure.simps option.case prod.case .
  next
    case (Some rp)
    obtain RP RT where rp: "rp = (RP, RT)" by (cases rp)
    have "length T * (n + 1) \<le> length RT * (n + 1)"
      using l Some rp by (intro mult_right_mono) auto
    then show ?thesis using Some rp P' by simp
  qed
qed

lemma cstep_match:
  assumes "cinv clow n k (c # P, t # T, st)" "c \<noteq> star_byte" "fold_eq clow c t"
  shows "cinv clow n k (P, T, st)" "goal clow (P, T, st) = goal clow (c # P, t # T, st)"
    "cmeasure n k (P, T, st) < cmeasure n k (c # P, t # T, st)"
proof -
  show "cinv clow n k (P, T, st)"
  proof (cases st)
    case (Some rp)
    obtain RP RT where rp: "rp = (RP, RT)" by (cases rp)
    then obtain L M where LM: "star_byte \<notin> set L" "list_all2 (fold_eq clow) L M"
      "RP = L @ c # P" "RT = M @ t # T" using assms Some by auto
    then have "star_byte \<notin> set (L @ [c])" "list_all2 (fold_eq clow) (L @ [c]) (M @ [t])"
      "RP = (L @ [c]) @ P" "RT = (M @ [t]) @ T"
      using assms by (auto intro: list_all2_appendI)
    moreover have "length RP \<le> n" "length RT \<le> k" using assms(1) Some rp by auto
    ultimately show ?thesis unfolding Some rp cinv.simps by blast
  qed (use assms in simp)
  show "goal clow (P, T, st) = goal clow (c # P, t # T, st)"
    using assms by (cases st) auto
qed simp

lemma cstep_back:
  assumes "cinv clow n k (P, T, Some (RP, RT))" "\<not> glob_ref clow P T" "RT \<noteq> []"
  shows "cinv clow n k (RP, tl RT, Some (RP, tl RT))"
    "goal clow (RP, tl RT, Some (RP, tl RT)) = goal clow (P, T, Some (RP, RT))"
    "cmeasure n k (RP, tl RT, Some (RP, tl RT)) < cmeasure n k (P, T, Some (RP, RT))"
proof -
  show "cinv clow n k (RP, tl RT, Some (RP, tl RT))" using assms(1) by auto
  show "goal clow (RP, tl RT, Some (RP, tl RT)) = goal clow (P, T, Some (RP, RT))"
    using goal_backtrack [OF assms(1,2)] assms(3) by simp
  have "length (tl RT) < length RT" using assms(3) by simp
  then show "cmeasure n k (RP, tl RT, Some (RP, tl RT)) < cmeasure n k (P, T, Some (RP, RT))"
    using measure_drop [of "length (tl RT)" "length RT" "length RP" n] assms(1) by simp
qed

lemma cstep_Inl:
  assumes "cinv clow n k s" "cstep clow s = Inl s'"
  shows "cinv clow n k s' \<and> goal clow s' = goal clow s \<and> cmeasure n k s' < cmeasure n k s"
proof -
  obtain P T st where s: "s = (P, T, st)" by (cases s)
  show ?thesis
  proof (cases "P \<noteq> [] \<and> hd P = star_byte")
    case True
    then obtain P1 where P: "P = star_byte # P1" by (cases P) auto
    then have "s' = (dropWhile (\<lambda>c. c = star_byte) P1, T, Some (dropWhile (\<lambda>c. c = star_byte) P1, T))"
      using assms(2) s by (auto simp: Let_def split: if_splits)
    then show ?thesis using cstep_star [of clow n k P1 T st] assms(1) s P by blast
  next
    case F: False
    show ?thesis
    proof (cases "P \<noteq> [] \<and> T \<noteq> [] \<and> fold_eq clow (hd P) (hd T)")
      case True
      then obtain c P1 t T1 where PT: "P = c # P1" "T = t # T1" by (cases P; cases T) auto
      then have "s' = (P1, T1, st)" using assms(2) s F True by auto
      then show ?thesis using cstep_match [of clow n k c P1 t T1 st] assms(1) s F True PT by auto
    next
      case M: False
      then obtain RP RT where R: "st = Some (RP, RT)" "RT \<noteq> []" "s' = (RP, tl RT, Some (RP, tl RT))"
        "\<not> (P = [] \<and> T = [])"
        using assms(2) s F by (auto split: if_splits option.splits)
      have "\<not> glob_ref clow P T" using F M R(4) by (rule glob_ref_mismatch)
      then show ?thesis using cstep_back [of clow n k P T RP RT] assms(1) s R by blast
    qed
  qed
qed

lemma cloop_correct:
  assumes "cinv clow n k s" "cmeasure n k s < fuel"
  shows "cloop clow fuel s = Some (goal clow s)"
  using assms
proof (induction fuel arbitrary: s)
  case (Suc fuel)
  show ?case
  proof (cases "cstep clow s")
    case (Inl s')
    then show ?thesis using cstep_Inl [OF Suc.prems(1) Inl] Suc by auto
  next
    case (Inr b)
    then show ?thesis using cstep_Inr [OF Suc.prems(1) Inr] by simp
  qed
qed simp
section \<open>Bytes and characters\<close>

abbreviation enc :: "nat list \<Rightarrow> nat list" where
  "enc us \<equiv> concat (map utf8_char us)"

lemma bytes_utf8: "\<forall>u \<in> set us. scalar u \<Longrightarrow> map byte_of (utf8 us) = enc us"
proof (induction us)
  case (Cons u us)
  have "map byte_of (map char_of (utf8_char u) :: string) = utf8_char u"
    using utf8_char_bytes [of u] Cons.prems by (auto simp: of_char_of intro!: map_idI)
  with Cons show ?case by (simp add: utf8_Cons)
qed simp

lemma utf8_char_ascii: "u < 128 \<Longrightarrow> utf8_char u = [u]"
  by (simp add: utf8_char_def)

lemma utf8_char_lead: "128 \<le> u \<Longrightarrow> 192 \<le> hd (utf8_char u)"
  by (simp add: utf8_char_def)

lemma enc_Cons_nth: "P \<noteq> [] \<Longrightarrow> (enc A @ enc P) ! length (enc A) = hd (utf8_char (hd P))"
  by (cases P; cases "utf8_char (hd P)") (auto simp: nth_append)

lemma enc_eq_Nil [simp]: "enc P = [] \<longleftrightarrow> P = []"
  by (cases P) auto

lemma hd_star_iff: "P \<noteq> [] \<Longrightarrow> hd (utf8_char (hd P)) = star_byte \<longleftrightarrow> hd P = star_byte"
  using utf8_char_lead [of "hd P"] utf8_char_ascii [of "hd P"] by (cases "hd P < 128") auto

lemma hd_ascii_iff: "hd (utf8_char u) < 128 \<longleftrightarrow> u < 128"
  using utf8_char_lead [of u] utf8_char_ascii [of u] by (cases "u < 128") auto

lemma takeWhile_star_enc:
  "takeWhile (\<lambda>b. b = star_byte) (enc P) = takeWhile (\<lambda>c. c = star_byte) P"
proof (induction P)
  case (Cons c P)
  show ?case
  proof (cases "c = star_byte")
    case True
    with Cons show ?thesis by (simp add: utf8_char_ascii)
  next
    case False
    then have "hd (utf8_char c) \<noteq> star_byte" using hd_star_iff [of "[c]"] by simp
    with False show ?thesis by (cases "utf8_char c") auto
  qed
qed simp

lemma enc_stars: "\<forall>c \<in> set S. c = star_byte \<Longrightarrow> enc S = S"
  by (induction S) (auto simp: utf8_char_ascii)

lemma leading_ones_ranges:
  "b < 128 \<Longrightarrow> leading_ones b = 0"
  "192 \<le> b \<Longrightarrow> b < 224 \<Longrightarrow> leading_ones b = 2"
  "224 \<le> b \<Longrightarrow> b < 240 \<Longrightarrow> leading_ones b = 3"
  "240 \<le> b \<Longrightarrow> b < 248 \<Longrightarrow> leading_ones b = 4"
proof -
  have d: "q * k \<le> b \<Longrightarrow> b < q * k + k \<Longrightarrow> b div k = q" for q k :: nat
    by (intro div_nat_eqI) (auto simp: algebra_simps)
  show "leading_ones b = 0" if "b < 128" using that by (simp add: leading_ones_def)
  show "leading_ones b = 2" if "192 \<le> b" "b < 224"
    using that d [of 1 128] d [of 3 64] d [of 6 32] by (simp add: leading_ones_def)
  show "leading_ones b = 3" if "224 \<le> b" "b < 240"
    using that d [of 1 128] d [of 3 64] d [of 7 32] d [of 14 16] by (simp add: leading_ones_def)
  show "leading_ones b = 4" if "240 \<le> b" "b < 248"
    using that d [of 1 128] d [of 3 64] d [of 7 32] d [of 15 16] d [of 30 8]
    by (simp add: leading_ones_def)
qed

lemma leading_ones_width:
  assumes "scalar u"
  shows "char_width (hd (utf8_char u)) = length (utf8_char u)"
proof -
  have "u < 1114112" using assms by (auto simp: scalar_def)
  then have "u div 262144 < 8" "u < 65536 \<Longrightarrow> u div 4096 < 16" "u < 2048 \<Longrightarrow> u div 64 < 32" by auto
  then show ?thesis
    by (auto simp: utf8_char_def char_width_def leading_ones_ranges)
qed

text \<open>Lowercasing an ASCII character is the ASCII rule, on every table.\<close>

definition ascii_law :: "(nat \<Rightarrow> nat list) \<Rightarrow> bool" where
  "ascii_law clow \<longleftrightarrow> (\<forall>c < 128. clow c = [if 65 \<le> c \<and> c \<le> 90 then c + 32 else c])"

lemma byte_eq_fold:
  assumes "ascii_law clow" "a < 128" "b < 128"
  shows "byte_eq a b \<longleftrightarrow> fold_eq clow a b"
proof -
  let ?l = "\<lambda>x. if 65 \<le> x \<and> x \<le> 90 then x + 32 else x :: nat"
  have l: "byte_of (lower_byte (char_of x)) = ?l x" if "x < 128" for x
    using that by (simp add: byte_of_lower ascii_upper_def)
  have "byte_eq a b \<longleftrightarrow> byte_of (lower_byte (char_of a)) = byte_of (lower_byte (char_of b))"
    by (simp add: byte_eq_def)
  then have "byte_eq a b \<longleftrightarrow> ?l a = ?l b" unfolding l [OF assms(2)] l [OF assms(3)] .
  moreover have m: "map sigma (clow x) = [?l x]" if "x < 128" for x
    using assms(1) that by (simp add: ascii_law_def sigma_def)
  have "fold_eq clow a b \<longleftrightarrow> a = b \<or> ?l a = ?l b"
    unfolding fold_eq_def m [OF assms(2)] m [OF assms(3)] list.inject by blast
  ultimately show ?thesis by auto
qed

section \<open>The loop on bytes follows the loop on characters\<close>

definition at :: "nat list \<Rightarrow> nat \<Rightarrow> nat list \<Rightarrow> bool" where
  "at us i R \<longleftrightarrow> (\<exists>A. us = A @ R \<and> i = length (enc A))"

fun rep :: "nat list \<Rightarrow> nat list \<Rightarrow> glob_state \<Rightarrow> cstate \<Rightarrow> bool" where
  "rep ps ts s (P, T, st) \<longleftrightarrow> at ps (gp s) P \<and> at ts (gt s) T \<and>
     (case (gstar s, st) of (None, None) \<Rightarrow> True
      | (Some (rp, rt), Some (RP, RT)) \<Rightarrow> at ps rp RP \<and> at ts rt RT
      | _ \<Rightarrow> False)"

lemma atD:
  assumes "at us i R"
  shows "drop i (enc us) = enc R" "i < length (enc us) \<longleftrightarrow> R \<noteq> []" "i = length (enc us) \<longleftrightarrow> R = []"
    "R \<noteq> [] \<Longrightarrow> enc us ! i = hd (utf8_char (hd R))" "set R \<subseteq> set us"
proof -
  obtain A where A: "us = A @ R" "i = length (enc A)" using assms by (auto simp: at_def)
  show "drop i (enc us) = enc R" "i < length (enc us) \<longleftrightarrow> R \<noteq> []" "i = length (enc us) \<longleftrightarrow> R = []"
    "set R \<subseteq> set us" unfolding A by simp_all
  show "enc us ! i = hd (utf8_char (hd R))" if "R \<noteq> []"
    unfolding A using enc_Cons_nth [OF that] by simp
qed

lemma at_advance: "at us i (L @ R) \<Longrightarrow> at us (i + length (enc L)) R"
proof -
  assume "at us i (L @ R)"
  then obtain A where "us = A @ L @ R" "i = length (enc A)" by (auto simp: at_def)
  then have "us = (A @ L) @ R \<and> i + length (enc L) = length (enc (A @ L))" by simp
  then show ?thesis unfolding at_def by blast
qed

lemma at_tl: "at us i R \<Longrightarrow> R \<noteq> [] \<Longrightarrow> at us (i + length (utf8_char (hd R))) (tl R)"
  using at_advance [of us i "[hd R]" "tl R"] by simp

lemma advance_rep:
  assumes "at ps p P" "at ts t T" "ascii_law clow" "\<forall>u \<in> set ps. scalar u" "\<forall>u \<in> set ts. scalar u"
  shows "glob_advance clow (enc ps) (enc ts) p t =
    (if P \<noteq> [] \<and> T \<noteq> [] \<and> fold_eq clow (hd P) (hd T)
     then Some (length (utf8_char (hd P)), length (utf8_char (hd T))) else None)"
proof (cases "P \<noteq> [] \<and> T \<noteq> []")
  case True
  note a = atD [OF assms(1)] and b = atD [OF assms(2)]
  obtain u P1 v T1 where PT: "P = u # P1" "T = v # T1" using True by (cases P; cases T) auto
  have "scalar u" "scalar v" using a(5) b(5) assms(4,5) PT by auto
  then have n: "next_char_bytes (enc P) = Some (u, length (utf8_char u))"
    "next_char_bytes (enc T) = Some (v, length (utf8_char v))"
    using PT by (simp_all add: next_char_bytes_utf8)
  have bytes: "enc ps ! p = hd (utf8_char u)" "enc ts ! t = hd (utf8_char v)"
    using a(4) b(4) PT by auto
  have inr: "p < length (enc ps) \<and> t < length (enc ts)" using a(2) b(2) True by simp
  show ?thesis
  proof (cases "u < 128 \<and> v < 128")
    case A: True
    then show ?thesis
      using inr PT byte_eq_fold [OF assms(3), of u v]
      by (simp add: glob_advance_def bytes utf8_char_ascii)
  next
    case False
    then have "\<not> (hd (utf8_char u) < 128 \<and> hd (utf8_char v) < 128)" by (simp add: hd_ascii_iff)
    then show ?thesis
      unfolding glob_advance_def a(1) b(1) n bytes using inr PT by auto
  qed
next
  case False
  then show ?thesis using atD(2) [OF assms(1)] atD(2) [OF assms(2)] by (auto simp: glob_advance_def)
qed

lemma step_rep_star:
  assumes "rep ps ts s (P, T, st)" "P \<noteq> [] \<and> hd P = star_byte"
  shows "case cstep clow (P, T, st) of Inr b \<Rightarrow> glob_step clow (enc ps) (enc ts) s = Inr b
    | Inl c' \<Rightarrow> \<exists>s'. glob_step clow (enc ps) (enc ts) s = Inl s' \<and> rep ps ts s' c'"
proof -
  have r: "at ps (gp s) P" "at ts (gt s) T" using assms(1) by auto
  note a = atD [OF r(1)]
  let ?S = "takeWhile (\<lambda>c. c = star_byte) P" and ?R = "dropWhile (\<lambda>c. c = star_byte) P"
  have "enc ?S = ?S" by (rule enc_stars) (auto dest: set_takeWhileD)
  then have p': "at ps (gp s + length ?S) ?R" using at_advance [of ps "gp s" ?S ?R] r(1) by simp
  have g: "gp s < length (enc ps) \<and> enc ps ! gp s = star_byte"
    using a(2,4) assms(2) hd_star_iff [of P] by auto
  have tw: "length (takeWhile (\<lambda>b. b = star_byte) (drop (gp s) (enc ps))) = length ?S"
    unfolding a(1) takeWhile_star_enc ..
  have "glob_step clow (enc ps) (enc ts) s =
    (if ?R = [] then Inr True
     else Inl (s\<lparr>gp := gp s + length ?S, gstar := Some (gp s + length ?S, gt s)\<rparr>))"
    unfolding glob_step_def Let_def tw using g atD(3) [OF p'] by simp
  then show ?thesis using assms(2) p' r by (simp add: Let_def)
qed

lemma step_rep_other:
  assumes "rep ps ts s (P, T, st)" "\<not> (P \<noteq> [] \<and> hd P = star_byte)" "ascii_law clow"
    "\<forall>u \<in> set ps. scalar u" "\<forall>u \<in> set ts. scalar u"
  shows "case cstep clow (P, T, st) of Inr b \<Rightarrow> glob_step clow (enc ps) (enc ts) s = Inr b
    | Inl c' \<Rightarrow> \<exists>s'. glob_step clow (enc ps) (enc ts) s = Inl s' \<and> rep ps ts s' c'"
proof -
  have r: "at ps (gp s) P" "at ts (gt s) T" using assms(1) by auto
  note a = atD [OF r(1)] and b = atD [OF r(2)]
  have g: "\<not> (gp s < length (enc ps) \<and> enc ps ! gp s = star_byte)"
    using a(2,4) assms(2) hd_star_iff [of P] by auto
  note adv = advance_rep [OF r assms(3,4,5)]
  have step: "glob_step clow (enc ps) (enc ts) s =
    (if P \<noteq> [] \<and> T \<noteq> [] \<and> fold_eq clow (hd P) (hd T) then
       Inl (s\<lparr>gp := gp s + length (utf8_char (hd P)), gt := gt s + length (utf8_char (hd T))\<rparr>)
     else if P = [] \<and> T = [] then Inr True
     else (case gstar s of Some (rp, rt) \<Rightarrow>
         if rt < length (enc ts) then
           (let t' = rt + char_width (enc ts ! rt) in Inl \<lparr>gp = rp, gt = t', gstar = Some (rp, t')\<rparr>)
         else Inr False | None \<Rightarrow> Inr False))"
    unfolding glob_step_def Let_def adv if_not_P [OF g] using a(3) b(3) by auto
  show ?thesis
  proof (cases "P \<noteq> [] \<and> T \<noteq> [] \<and> fold_eq clow (hd P) (hd T)")
    case True
    then show ?thesis
      using assms(1,2) step at_tl [OF r(1)] at_tl [OF r(2)] by (simp add: Let_def)
  next
    case F: False
    show ?thesis
    proof (cases "P = [] \<and> T = [] \<or> st = None")
      case True
      then show ?thesis using F assms(1,2) step by (auto split: option.splits)
    next
      case False
      then obtain RP RT rp rt where st: "st = Some (RP, RT)" "gstar s = Some (rp, rt)"
        "at ps rp RP" "at ts rt RT"
        using assms(1) by (auto split: option.splits)
      note c = atD [OF st(4)]
      have w: "RT \<noteq> [] \<Longrightarrow> char_width (enc ts ! rt) = length (utf8_char (hd RT))"
        using c(4,5) assms(5) leading_ones_width by (metis hd_in_set subsetD)
      show ?thesis
      proof (cases "RT = []")
        case True
        then have "\<not> rt < length (enc ts)" using c(2) by blast
        then have "glob_step clow (enc ps) (enc ts) s = Inr False"
          unfolding step using F False st(2) by auto
        moreover have "cstep clow (P, T, st) = Inr False" using F False assms(2) st(1) True by auto
        ultimately show ?thesis by simp
      next
        case RT: False
        let ?t = "rt + length (utf8_char (hd RT))"
        have "rt < length (enc ts)" using c(2) RT by blast
        then have "glob_step clow (enc ps) (enc ts) s = Inl \<lparr>gp = rp, gt = ?t, gstar = Some (rp, ?t)\<rparr>"
          unfolding step using F False st(2) w [OF RT] by (auto simp: Let_def)
        moreover have "cstep clow (P, T, st) = Inl (RP, tl RT, Some (RP, tl RT))"
          using F False assms(2) st(1) RT by auto
        ultimately show ?thesis using at_tl [OF st(4) RT] st(3) by simp
      qed
    qed
  qed
qed

lemma loop_rep:
  assumes "rep ps ts s c" "ascii_law clow" "\<forall>u \<in> set ps. scalar u" "\<forall>u \<in> set ts. scalar u"
  shows "glob_loop clow (enc ps) (enc ts) fuel s = cloop clow fuel c"
  using assms(1)
proof (induction fuel arbitrary: s c)
  case (Suc fuel)
  obtain P T st where c: "c = (P, T, st)" by (cases c)
  have "case cstep clow c of Inr b \<Rightarrow> glob_step clow (enc ps) (enc ts) s = Inr b
    | Inl c' \<Rightarrow> \<exists>s'. glob_step clow (enc ps) (enc ts) s = Inl s' \<and> rep ps ts s' c'"
    using step_rep_star step_rep_other assms(2-4) Suc.prems unfolding c by blast
  then show ?case using Suc.IH by (cases "cstep clow c") auto
qed simp

lemma length_enc: "length us \<le> length (enc us)"
proof (induction us)
  case (Cons u us)
  then show ?case by (cases "utf8_char u") auto
qed simp

lemma length_utf8: "length (utf8 us) = length (enc us)"
  by (simp add: utf8_def)

lemma glob_run_ref:
  assumes "ascii_law clow" "\<forall>u \<in> set ps. scalar u" "\<forall>u \<in> set ts. scalar u"
  shows "glob_run clow (utf8 ps) (utf8 ts) = Some (glob_ref clow ps ts)"
proof -
  let ?c = "(ps, ts, None) :: cstate" and ?n = "length ps" and ?k = "length ts"
  let ?s = "\<lparr>gp = 0, gt = 0, gstar = None\<rparr>"
  have "at us 0 us" for us by (auto simp: at_def)
  then have "rep ps ts ?s ?c" by simp
  then have "glob_run clow (utf8 ps) (utf8 ts) = cloop clow (glob_fuel (utf8 ps) (utf8 ts)) ?c"
    unfolding glob_run_def bytes_utf8 [OF assms(2)] bytes_utf8 [OF assms(3)]
    by (rule loop_rep [OF _ assms])
  moreover have "(?n + 2) * (?k + 2) \<le> glob_fuel (utf8 ps) (utf8 ts)"
    unfolding glob_fuel_def length_utf8 using length_enc by (intro mult_mono) auto
  then have "cmeasure ?n ?k ?c < glob_fuel (utf8 ps) (utf8 ts)"
    by (simp add: algebra_simps)
  then have "cloop clow (glob_fuel (utf8 ps) (utf8 ts)) ?c = Some (goal clow ?c)"
    by (intro cloop_correct) auto
  ultimately show ?thesis by simp
qed
section \<open>Properties\<close>

text \<open>
  C10. The matcher agrees with the recursive reference matcher on every pattern and text, and it
  answers within \<open>(|pattern| + 2) * (|text| + 2)\<close> iterations, the bound its documentation gives:
  no pattern makes it run longer. Patterns and texts are UTF-8 encodings of Unicode scalar values;
  of the lowercase table only its value on ASCII is used.
\<close>

theorem glob_match_reference:
  assumes "ascii_law clow" "\<forall>u \<in> set ps. scalar u" "\<forall>u \<in> set ts. scalar u"
  shows "glob_run clow (utf8 ps) (utf8 ts) \<noteq> None \<and>
    glob_match clow (utf8 ps) (utf8 ts) = glob_ref clow ps ts"
  using glob_run_ref [OF assms] by (simp add: glob_match_def)

text \<open>The lowercase table restricted to ASCII, for concrete runs.\<close>

definition ascii_clow :: "nat \<Rightarrow> nat list" where
  "ascii_clow c = [if 65 \<le> c \<and> c \<le> 90 then c + 32 else c]"

lemma ascii_law_clow: "ascii_law ascii_clow"
  by (simp add: ascii_law_def ascii_clow_def)

theorem glob_match_reference_witness:
  "glob_run ascii_clow (utf8 [42, 97, 42, 0x43f]) (utf8 [120, 65, 0x43e, 0x43f]) \<noteq> None \<and>
   glob_match ascii_clow (utf8 [42, 97, 42, 0x43f]) (utf8 [120, 65, 0x43e, 0x43f]) =
     glob_ref ascii_clow [42, 97, 42, 0x43f] [120, 65, 0x43e, 0x43f]"
  by (rule glob_match_reference [OF ascii_law_clow]) (simp_all add: scalar_def)

end
