(* ===== verification/Rule_Matching.thy ===== *)
theory Rule_Matching
  imports Decision_Input Rule_Book Glob App_Identity
begin

text \<open>
  Rule matching: \<open>src/core/domain/src/decision_rules_matching.rs\<close>, the types of
  \<open>decision_matching.rs\<close> it works on, and the probe entry point \<open>match_sample\<close> of
  \<open>decision_engine_input.rs\<close>. The early returns of \<open>match_rules\<close> are the first stage that
  selects a winner; \<open>sort_by\<close> is the stable sort on the key its comparator compares.
  Unicode lowercasing is the pair of parameters \<open>lc\<close> (strings) and \<open>clow\<close> (characters).
\<close>

section \<open>Candidates\<close>

datatype match_class =
  McExactFqdn | McSuffixDomain | McExactIp | McSubnet | McZone | McApplication | McDefault

type_synonym specificity_score = u32

definition label_count :: "string \<Rightarrow> specificity_score" where
  "label_count label = (if label = [] then 0 else of_nat (length (labels label)))"

definition SINGLE :: specificity_score where "SINGLE = 1"

definition APP_FILE :: specificity_score where "APP_FILE = 1001"

definition APP_EXACT :: specificity_score where "APP_EXACT = 1000"

definition APP_GLOB :: specificity_score where "APP_GLOB = 1"

definition DEFAULT :: specificity_score where "DEFAULT = 0"

definition app_folder :: "nat \<Rightarrow> bool \<Rightarrow> specificity_score" where
  "app_folder depth with_subfolders =
     (let d = min (int depth) MAX_PATH_SEGMENTS;
          depth32 = (word_of_int d :: u32)
      in 2 + 2 * depth32 + (if with_subfolders then 0 else 1))"

datatype app_filter_result = NoFilter | Matched | NotMatched

definition is_eligible :: "app_filter_result \<Rightarrow> bool" where
  "is_eligible a \<longleftrightarrow> a \<noteq> NotMatched"

datatype conflict_marker = NoConflict | Detected

record rule_match_candidate =
  mc_rule_id :: string
  mc_route_role :: route_role
  mc_match_class :: match_class
  mc_specificity :: specificity_score
  mc_app_filter_result :: app_filter_result
  mc_conflict :: conflict_marker
  mc_action :: rule_action

record zone_priority_policy =
  zp_prefer_ip :: bool

definition default_zone_policy :: zone_priority_policy where
  "default_zone_policy = \<lparr>zp_prefer_ip = True\<rparr>"

definition tier3_order :: "zone_priority_policy \<Rightarrow> match_class list" where
  "tier3_order p = (if zp_prefer_ip p then [McExactIp, McSubnet, McZone] else [McZone, McExactIp, McSubnet])"

datatype no_match_reason = AllClassesBlocked | EmptyRuleBook | NoMatchFound

datatype requested_route_decision =
  MatchedRoute rule_match_candidate | DefaultRoute no_match_reason route_behavior_mode

fun matched_route_role :: "requested_route_decision \<Rightarrow> route_role option" where
  "matched_route_role (MatchedRoute c) = Some (mc_route_role c)"
| "matched_route_role (DefaultRoute _ _) = None"

fun is_rule_matched :: "requested_route_decision \<Rightarrow> bool" where
  "is_rule_matched (MatchedRoute _) = True"
| "is_rule_matched (DefaultRoute _ _) = False"

section \<open>Collecting candidates\<close>

definition make_candidate ::
  "string \<Rightarrow> route_role \<Rightarrow> match_class \<Rightarrow> specificity_score \<Rightarrow> app_filter_result \<Rightarrow> rule_action \<Rightarrow> rule_match_candidate" where
  "make_candidate i role cls spec app act =
     \<lparr>mc_rule_id = i, mc_route_role = role, mc_match_class = cls, mc_specificity = spec,
      mc_app_filter_result = app, mc_conflict = NoConflict, mc_action = act\<rparr>"

definition app_match_specificity ::
  "(string \<Rightarrow> string) \<Rightarrow> (nat \<Rightarrow> nat list) \<Rightarrow> canonical_app_pattern \<Rightarrow> normalized_app_identity \<Rightarrow> specificity_score option" where
  "app_match_specificity lc clow pattern identity =
     (case pattern of
        Exact p \<Rightarrow> if app_match_key lc p = app_match_key lc (na_process_name identity) then Some APP_EXACT else None
      | Glob p \<Rightarrow> if glob_match clow (app_match_key lc p) (app_match_key lc (na_process_name identity))
                 then Some APP_GLOB else None
      | Path path \<Rightarrow>
          (case na_original_path identity of None \<Rightarrow> None
           | Some img \<Rightarrow>
               (case match_image lc path img of None \<Rightarrow> None
                | Some File \<Rightarrow> Some APP_FILE
                | Some Folder \<Rightarrow> Some (app_folder (app_path_depth path) False)
                | Some FolderTree \<Rightarrow> Some (app_folder (app_path_depth path) True)
                | Some FileOrFolder \<Rightarrow> None)))"

definition eval_app_filter ::
  "(string \<Rightarrow> string) \<Rightarrow> (nat \<Rightarrow> nat list) \<Rightarrow> canonical_rule \<Rightarrow> normalized_app_identity option \<Rightarrow> app_filter_result" where
  "eval_app_filter lc clow rule app_identity =
     (case cr_app_match rule of None \<Rightarrow> NoFilter
      | Some app_match \<Rightarrow>
          (case app_identity of None \<Rightarrow> NotMatched
           | Some identity \<Rightarrow>
               if app_match_specificity lc clow (am_pattern app_match) identity \<noteq> None then Matched else NotMatched))"

text \<open>The loop the collectors share: both sets, the enabled rules of each, what each rule pushes.\<close>

definition each_rule :: "rule_book \<Rightarrow> (route_role \<Rightarrow> canonical_rule \<Rightarrow> 'a list) \<Rightarrow> 'a list" where
  "each_rule book push =
     concat (map (\<lambda>role. concat (map (push role) (filter cr_enabled (set_for book role)))) [Primary, Secondary])"

definition collect_exact_fqdn ::
  "(string \<Rightarrow> string) \<Rightarrow> (nat \<Rightarrow> nat list) \<Rightarrow> rule_book \<Rightarrow> string \<Rightarrow> normalized_app_identity option \<Rightarrow> rule_match_candidate list" where
  "collect_exact_fqdn lc clow book hostname app_identity =
     each_rule book (\<lambda>role rule. case cr_address_match rule of
         Some (ExactFqdn label) \<Rightarrow>
           if label = hostname
           then [make_candidate (cr_id rule) role McExactFqdn (label_count label)
                   (eval_app_filter lc clow rule app_identity) (cr_action rule)]
           else []
       | _ \<Rightarrow> [])"

definition collect_suffix_domain ::
  "(string \<Rightarrow> string) \<Rightarrow> (nat \<Rightarrow> nat list) \<Rightarrow> rule_book \<Rightarrow> string \<Rightarrow> normalized_app_identity option \<Rightarrow> rule_match_candidate list" where
  "collect_suffix_domain lc clow book hostname app_identity =
     each_rule book (\<lambda>role rule. case cr_address_match rule of
         Some (SuffixDomain label) \<Rightarrow>
           if match_suffix_domain hostname label
           then [make_candidate (cr_id rule) role McSuffixDomain (label_count label)
                   (eval_app_filter lc clow rule app_identity) (cr_action rule)]
           else []
       | Some (Zone zone_name) \<Rightarrow>
           if zone_ranks_as_suffix zone_name \<and> match_zone hostname zone_name \<and>
              \<not> holds_suffix (set_for book role) zone_name (cr_app_match rule)
           then [make_candidate (cr_id rule) role McZone (label_count zone_name)
                   (eval_app_filter lc clow rule app_identity) (cr_action rule)]
           else []
       | Some (AnyZoneDomain base) \<Rightarrow>
           (case match_any_zone_domain hostname base of None \<Rightarrow> []
            | Some named \<Rightarrow>
                if \<not> names_suffix_outright book named
                then [make_candidate (cr_id rule) role McSuffixDomain (label_count named)
                        (eval_app_filter lc clow rule app_identity) (cr_action rule)]
                else [])
       | _ \<Rightarrow> [])"

definition collect_zone ::
  "(string \<Rightarrow> string) \<Rightarrow> (nat \<Rightarrow> nat list) \<Rightarrow> rule_book \<Rightarrow> string \<Rightarrow> normalized_app_identity option \<Rightarrow> rule_match_candidate list" where
  "collect_zone lc clow book hostname app_identity =
     each_rule book (\<lambda>role rule. case cr_address_match rule of
         Some (Zone zone_name) \<Rightarrow>
           if \<not> zone_ranks_as_suffix zone_name \<and> match_zone hostname zone_name
           then [make_candidate (cr_id rule) role McZone (label_count zone_name)
                   (eval_app_filter lc clow rule app_identity) (cr_action rule)]
           else []
       | _ \<Rightarrow> [])"

definition collect_exact_ip ::
  "(string \<Rightarrow> string) \<Rightarrow> (nat \<Rightarrow> nat list) \<Rightarrow> rule_book \<Rightarrow> ip_addr \<Rightarrow> normalized_app_identity option \<Rightarrow> rule_match_candidate list" where
  "collect_exact_ip lc clow book ip app_identity =
     each_rule book (\<lambda>role rule. case cr_address_match rule of
         Some (ExactIp rule_ip) \<Rightarrow>
           if rule_ip = ip
           then [make_candidate (cr_id rule) role McExactIp SINGLE
                   (eval_app_filter lc clow rule app_identity) (cr_action rule)]
           else []
       | _ \<Rightarrow> [])"

definition collect_subnet ::
  "(string \<Rightarrow> string) \<Rightarrow> (nat \<Rightarrow> nat list) \<Rightarrow> rule_book \<Rightarrow> ip_addr \<Rightarrow> normalized_app_identity option \<Rightarrow> rule_match_candidate list" where
  "collect_subnet lc clow book ip app_identity =
     each_rule book (\<lambda>role rule. case Option.bind (cr_address_match rule) ip_blocks of
         None \<Rightarrow> []
       | Some blocks \<Rightarrow>
           (case List.find (\<lambda>b. block_contains b ip) blocks of None \<Rightarrow> []
            | Some block \<Rightarrow>
                [make_candidate (cr_id rule) role McSubnet (of_nat (prefix_len block))
                   (eval_app_filter lc clow rule app_identity) (cr_action rule)]))"

definition collect_application ::
  "(string \<Rightarrow> string) \<Rightarrow> (nat \<Rightarrow> nat list) \<Rightarrow> rule_book \<Rightarrow> normalized_app_identity \<Rightarrow> rule_match_candidate list" where
  "collect_application lc clow book app_identity =
     each_rule book (\<lambda>role rule.
       if cr_address_match rule \<noteq> None then []
       else case cr_app_match rule of None \<Rightarrow> []
         | Some app_match \<Rightarrow>
             (case app_match_specificity lc clow (am_pattern app_match) app_identity of None \<Rightarrow> []
              | Some specificity \<Rightarrow>
                  [make_candidate (cr_id rule) role McApplication specificity Matched (cr_action rule)]))"

section \<open>Selecting the winner\<close>

fun role_rank :: "route_role \<Rightarrow> nat" where
  "role_rank Primary = 0"
| "role_rank Secondary = 1"

fun apex_rank :: "match_class \<Rightarrow> nat" where
  "apex_rank McZone = 0"
| "apex_rank _ = 1"

fun action_rank :: "rule_action \<Rightarrow> nat" where
  "action_rank Block = 0"
| "action_rank Route = 1"
| "action_rank Verify = 1"

text \<open>What the comparator of \<open>select_winner\<close> compares, first difference first; a higher score sorts first.\<close>

definition winner_key :: "rule_match_candidate \<Rightarrow> int \<times> nat \<times> nat \<times> nat \<times> string" where
  "winner_key c = (- uint (mc_specificity c), apex_rank (mc_match_class c), action_rank (mc_action c),
     role_rank (mc_route_role c), mc_rule_id c)"

definition ties :: "rule_match_candidate \<Rightarrow> rule_match_candidate \<Rightarrow> bool" where
  "ties lead c \<longleftrightarrow> mc_specificity c = mc_specificity lead \<and>
     apex_rank (mc_match_class c) = apex_rank (mc_match_class lead) \<and> mc_route_role c \<noteq> mc_route_role lead"

definition select_winner :: "rule_match_candidate list \<Rightarrow> rule_match_candidate option" where
  "select_winner candidates =
     (case sort_key winner_key (filter (\<lambda>c. is_eligible (mc_app_filter_result c)) candidates) of
        [] \<Rightarrow> None
      | lead # rest \<Rightarrow> Some (lead\<lparr>mc_conflict := (if list_ex (ties lead) rest then Detected else NoConflict)\<rparr>))"

fun observed_ip :: "normalized_ip \<Rightarrow> ip_addr option" where
  "observed_ip (ValidIpv4 v4) = Some (V4 v4)"
| "observed_ip (ValidIpv6 v6) = Some (V6 v6)"
| "observed_ip IpUnavail = None"

definition effective_ips_for_matching :: "normalized_decision_input \<Rightarrow> lookup_result \<Rightarrow> ip_addr list" where
  "effective_ips_for_matching input lookup =
     (let sel = (case lr_selected_ip lookup of
            Some selected \<Rightarrow> if is_usable_for_matching (ra_cache_state selected) then [ra_addr selected] else []
          | None \<Rightarrow> [])
      in case observed_ip (ni_ip input) of
           Some ip \<Rightarrow> if ip \<in> set sel then sel else sel @ [ip]
         | None \<Rightarrow> sel)"

text \<open>
  The candidates of each stage of \<open>match_rules\<close> in the order it tries them, a stage whose guard
  fails having none: the two vetoes, exact names, suffixes, tier 3 by policy, applications.
\<close>

definition is_block :: "rule_match_candidate \<Rightarrow> bool" where
  "is_block c \<longleftrightarrow> mc_action c = Block"

definition guarded :: "normalization_error option \<Rightarrow> 'a option \<Rightarrow> ('a \<Rightarrow> 'b list) \<Rightarrow> 'b list" where
  "guarded block value collect =
     (if block = None then (case value of Some v \<Rightarrow> collect v | None \<Rightarrow> []) else [])"

fun host_of :: "normalized_hostname \<Rightarrow> string option" where
  "host_of (Valid h) = Some h"
| "host_of _ = None"

definition match_stages ::
  "(string \<Rightarrow> string) \<Rightarrow> (nat \<Rightarrow> nat list) \<Rightarrow> normalized_decision_input \<Rightarrow> lookup_result \<Rightarrow> rule_book \<Rightarrow>
   zone_priority_policy \<Rightarrow> rule_match_candidate list list" where
  "match_stages lc clow input lookup book zone_policy =
     (let avail = ni_match_class_availability input;
          effective_ips = effective_ips_for_matching input lookup;
          app = ni_app_identity input;
          host = host_of (ni_hostname input);
          on_ips = (\<lambda>collect. guarded (mca_exact_ip avail) (Some effective_ips)
            (\<lambda>ips. concat (map (\<lambda>ip. collect lc clow book ip app) ips)));
          applications = guarded (mca_application avail) app (collect_application lc clow book)
      in [filter is_block (on_ips collect_exact_ip),
          filter is_block applications,
          guarded (mca_exact_fqdn avail) host (\<lambda>h. collect_exact_fqdn lc clow book h app),
          guarded (mca_suffix_domain avail) host (\<lambda>h. collect_suffix_domain lc clow book h app)] @
         map (\<lambda>cls. case cls of
             McZone \<Rightarrow> guarded (mca_zone avail) host (\<lambda>h. collect_zone lc clow book h app)
           | McExactIp \<Rightarrow> on_ips collect_exact_ip
           | McSubnet \<Rightarrow> on_ips collect_subnet
           | _ \<Rightarrow> []) (tier3_order zone_policy) @
         [applications])"

definition match_rules ::
  "(string \<Rightarrow> string) \<Rightarrow> (nat \<Rightarrow> nat list) \<Rightarrow> normalized_decision_input \<Rightarrow> lookup_result \<Rightarrow> rule_book \<Rightarrow>
   zone_priority_policy \<Rightarrow> route_behavior_mode \<Rightarrow> requested_route_decision" where
  "match_rules lc clow input lookup book zone_policy behavior_mode =
     (case first_some (map select_winner (match_stages lc clow input lookup book zone_policy)) of
        Some winner \<Rightarrow> MatchedRoute winner
      | None \<Rightarrow> DefaultRoute
          (if nothing_available (ni_match_class_availability input) then AllClassesBlocked
           else if total_enabled_count book = 0 then EmptyRuleBook else NoMatchFound)
          behavior_mode)"

definition probe_lookup :: lookup_result where
  "probe_lookup = \<lparr>lr_selected_ip = None, lr_is_multi_ip = False,
     lr_explain_data = \<lparr>le_standard = \<lparr>ls_cache_hit = False, ls_freshness = None, ls_source = None, ls_errors = []\<rparr>,
       le_extended = \<lparr>lx_all_resolved_ips = [], lx_selected_entry_ttl_secs = None, lx_selected_entry_resolved_at = None\<rparr>\<rparr>\<rparr>"

definition probe_input ::
  "string option \<Rightarrow> ip_addr option \<Rightarrow> string option \<Rightarrow> route_behavior_mode \<Rightarrow> runtime_input" where
  "probe_input hostname observed process_name behavior_mode =
     \<lparr>ri_process_context = \<lparr>pc_pid = 0, pc_process_name = process_name, pc_process_path = None,
        pc_parent_pid = None, pc_browser_hint = False\<rparr>,
      ri_destination_hostname = hostname, ri_destination_ip = observed,
      ri_protocol_hints = \<lparr>ph_ip_protocol = None, ph_destination_port = None\<rparr>,
      ri_active_revision_id = ''rev-probe'', ri_route_behavior_mode = behavior_mode,
      ri_interface_availability = \<lparr>ia_primary = AdapterAvailable, ia_secondary = None\<rparr>,
      ri_observed_at = 0, ri_observation_source = TestHarness,
      ri_feature_flags = \<lparr>ff_browser_stub_experimental = False\<rparr>\<rparr>"


section \<open>Choice by stages\<close>

text \<open>
  What a selection procedure promises to the staged search: it fails exactly on candidates none of
  which is eligible, and what it returns is related by \<open>best\<close> to the candidates it was given.
\<close>

locale staged_choice =
  fixes sel :: "'c list \<Rightarrow> 'c option"
    and elig :: "'c \<Rightarrow> bool"
    and best :: "'c \<Rightarrow> 'c list \<Rightarrow> bool"
  assumes sel_None: "sel cs = None \<longleftrightarrow> (\<forall>c \<in> set cs. \<not> elig c)"
    and sel_Some: "sel cs = Some w \<Longrightarrow> best w cs"
begin

lemma none_chosen: "first_some (map sel stages) = None \<longleftrightarrow> (\<forall>cs \<in> set stages. \<forall>c \<in> set cs. \<not> elig c)"
  by (simp add: sel_None)

lemma first_chosen:
  "first_some (map sel stages) = Some w \<Longrightarrow>
   \<exists>i < length stages. best w (stages ! i) \<and> (\<forall>j < i. \<forall>c \<in> set (stages ! j). \<not> elig c)"
proof (induction stages)
  case (Cons cs stages)
  show ?case
  proof (cases "sel cs")
    case None
    with Cons obtain i where i: "i < length stages" "best w (stages ! i)"
      "\<forall>j < i. \<forall>c \<in> set (stages ! j). \<not> elig c" by auto
    have "\<forall>c \<in> set cs. \<not> elig c" using None by (simp add: sel_None)
    then show ?thesis using i by (intro exI [of _ "Suc i"]) (auto simp: nth_Cons split: nat.split)
  next
    case (Some v)
    then show ?thesis using Cons.prems sel_Some by (intro exI [of _ 0]) auto
  qed
qed simp

lemma head_chosen: "\<exists>c \<in> set cs. elig c \<Longrightarrow> first_some (map sel (cs # stages)) = sel cs"
  using sel_None [of cs] by (cases "sel cs") auto

lemma skip_stage: "\<forall>c \<in> set cs. \<not> elig c \<Longrightarrow> first_some (map sel (cs # stages)) = first_some (map sel stages)"
  using sel_None [of cs] by simp

lemma some_chosen: "cs \<in> set stages \<Longrightarrow> c \<in> set cs \<Longrightarrow> elig c \<Longrightarrow> first_some (map sel stages) \<noteq> None"
  unfolding none_chosen by blast

end

abbreviation eligible :: "rule_match_candidate \<Rightarrow> bool" where
  "eligible c \<equiv> is_eligible (mc_app_filter_result c)"

definition conflicting :: "rule_match_candidate \<Rightarrow> rule_match_candidate list \<Rightarrow> bool" where
  "conflicting lead cs \<longleftrightarrow> (\<exists>c \<in> set cs. eligible c \<and> ties lead c)"

text \<open>The declarative choice: an eligible candidate of least key, marked when another set ties with it.\<close>

definition best_of :: "rule_match_candidate \<Rightarrow> rule_match_candidate list \<Rightarrow> bool" where
  "best_of w cs \<longleftrightarrow> (\<exists>lead \<in> set cs. eligible lead \<and> (\<forall>c \<in> set cs. eligible c \<longrightarrow> winner_key lead \<le> winner_key c) \<and>
     w = lead\<lparr>mc_conflict := (if conflicting lead cs then Detected else NoConflict)\<rparr>)"

lemma ties_irrefl [simp]: "\<not> ties c c"
  by (simp add: ties_def)

lemma select_winner_None: "select_winner cs = None \<longleftrightarrow> (\<forall>c \<in> set cs. \<not> eligible c)"
proof -
  have "select_winner cs = None \<longleftrightarrow> sort_key winner_key (filter eligible cs) = []"
    by (simp add: select_winner_def split: list.split)
  also have "\<dots> \<longleftrightarrow> set (sort_key winner_key (filter eligible cs)) = {}" by (rule set_empty [symmetric])
  also have "\<dots> \<longleftrightarrow> (\<forall>c \<in> set cs. \<not> eligible c)" by (simp only: set_sort set_filter) auto
  finally show ?thesis .
qed

lemma select_winner_best:
  assumes "select_winner cs = Some w"
  shows "best_of w cs"
proof -
  let ?s = "sort_key winner_key (filter eligible cs)"
  obtain lead rest where s: "?s = lead # rest" and
    w: "w = lead\<lparr>mc_conflict := (if list_ex (ties lead) rest then Detected else NoConflict)\<rparr>"
    using assms by (auto simp: select_winner_def split: list.splits)
  have "set ?s = {c \<in> set cs. eligible c}" by (simp only: set_sort set_filter)
  then have e: "c \<in> set (lead # rest) \<longleftrightarrow> c \<in> set cs \<and> eligible c" for c unfolding s by auto
  have "sorted (map winner_key ?s)" by (rule sorted_sort_key)
  then have m: "\<forall>c \<in> set rest. winner_key lead \<le> winner_key c" unfolding s by simp
  have "list_ex (ties lead) rest = list_ex (ties lead) (lead # rest)" by simp
  also have "\<dots> = conflicting lead cs" unfolding list_ex_iff conflicting_def using e by blast
  finally have c: "list_ex (ties lead) rest = conflicting lead cs" .
  have le: "winner_key lead \<le> winner_key c" if "c \<in> set cs" "eligible c" for c
    using that e [of c] m by auto
  show ?thesis unfolding best_of_def w c using e [of lead] le by (intro bexI [of _ lead]) auto
qed

interpretation choice: staged_choice select_winner eligible best_of
  by unfold_locales (simp_all add: select_winner_None select_winner_best)

text \<open>
  C1. \<open>match_rules\<close> implements one lexicographic choice over all candidates of all stages: a
  matched route is the eligible candidate of least key in the first stage that has one, carrying the
  conflict mark exactly when the other set ties with it there, and the default route is taken exactly
  when no stage has an eligible candidate.
\<close>

theorem match_rules_refines:
  "case match_rules lc clow input lookup book pol mode of
     MatchedRoute w \<Rightarrow> \<exists>i < length (match_stages lc clow input lookup book pol).
       best_of w (match_stages lc clow input lookup book pol ! i) \<and>
       (\<forall>j < i. \<forall>c \<in> set (match_stages lc clow input lookup book pol ! j). \<not> eligible c)
   | DefaultRoute reason m \<Rightarrow> m = mode \<and>
       (\<forall>cs \<in> set (match_stages lc clow input lookup book pol). \<forall>c \<in> set cs. \<not> eligible c)"
  unfolding match_rules_def
  using choice.first_chosen choice.none_chosen [of "match_stages lc clow input lookup book pol"]
  by (auto split: option.split)

section \<open>Candidates and rules\<close>

lemma role_ex: "(\<exists>role. P role) \<longleftrightarrow> P Primary \<or> P Secondary"
  using route_role.exhaust by metis

lemma in_each_rule:
  "c \<in> set (each_rule book push) \<longleftrightarrow>
     (\<exists>role. \<exists>rule \<in> set (set_for book role). cr_enabled rule \<and> c \<in> set (push role rule))"
  unfolding each_rule_def role_ex by auto

definition pushed :: "'a \<Rightarrow> 'a list \<Rightarrow> bool" where
  "pushed c cs \<longleftrightarrow> c \<in> set cs"

lemma pushed_simps [simp]: "\<not> pushed c []" "pushed c [d] \<longleftrightarrow> c = d"
  by (simp_all add: pushed_def)

lemma pushed_option [simp]:
  "pushed c (case x of None \<Rightarrow> [] | Some y \<Rightarrow> f y) \<longleftrightarrow> (\<exists>y. x = Some y \<and> pushed c (f y))"
  by (cases x) auto

lemma each_rule_iff:
  assumes "\<And>role rule. pushed c (push role rule) \<longleftrightarrow> P role rule"
  shows "c \<in> set (each_rule book push) \<longleftrightarrow>
    (\<exists>role. \<exists>rule \<in> set (set_for book role). cr_enabled rule \<and> P role rule)"
  by (simp add: in_each_rule assms [unfolded pushed_def])

lemma make_candidate_fields [simp]:
  "mc_rule_id (make_candidate i role cls sp app act) = i"
  "mc_route_role (make_candidate i role cls sp app act) = role"
  "mc_match_class (make_candidate i role cls sp app act) = cls"
  "mc_specificity (make_candidate i role cls sp app act) = sp"
  "mc_app_filter_result (make_candidate i role cls sp app act) = app"
  "mc_conflict (make_candidate i role cls sp app act) = NoConflict"
  "mc_action (make_candidate i role cls sp app act) = act"
  by (simp_all add: make_candidate_def)

lemma address_cases:
  assumes "cr_address_match rule = None \<Longrightarrow> P"
    and "\<And>x. cr_address_match rule = Some (ExactFqdn x) \<Longrightarrow> P"
    and "\<And>x. cr_address_match rule = Some (SuffixDomain x) \<Longrightarrow> P"
    and "\<And>x. cr_address_match rule = Some (AnyZoneDomain x) \<Longrightarrow> P"
    and "\<And>x. cr_address_match rule = Some (Zone x) \<Longrightarrow> P"
    and "\<And>x. cr_address_match rule = Some (ExactIp x) \<Longrightarrow> P"
    and "\<And>x. cr_address_match rule = Some (Subnet x) \<Longrightarrow> P"
    and "\<And>x. cr_address_match rule = Some (IpRange x) \<Longrightarrow> P"
  shows P
  using assms by (cases "cr_address_match rule") (metis canonical_address_match.exhaust)+

text \<open>The candidate an address rule pushes.\<close>

abbreviation cand where
  "cand lc clow role rule app cls sp \<equiv>
     make_candidate (cr_id rule) role cls sp (eval_app_filter lc clow rule app) (cr_action rule)"

lemma in_collect_exact_fqdn:
  "c \<in> set (collect_exact_fqdn lc clow book h app) \<longleftrightarrow>
     (\<exists>role. \<exists>rule \<in> set (set_for book role). cr_enabled rule \<and> cr_address_match rule = Some (ExactFqdn h) \<and>
        c = cand lc clow role rule app McExactFqdn (label_count h))"
  unfolding collect_exact_fqdn_def
  by (rule each_rule_iff, rule_tac rule = rule in address_cases) (auto split: if_splits)

lemma in_collect_exact_ip:
  "c \<in> set (collect_exact_ip lc clow book ip app) \<longleftrightarrow>
     (\<exists>role. \<exists>rule \<in> set (set_for book role). cr_enabled rule \<and> cr_address_match rule = Some (ExactIp ip) \<and>
        c = cand lc clow role rule app McExactIp SINGLE)"
  unfolding collect_exact_ip_def
  by (rule each_rule_iff, rule_tac rule = rule in address_cases) (auto split: if_splits)

lemma in_collect_zone:
  "c \<in> set (collect_zone lc clow book h app) \<longleftrightarrow>
     (\<exists>role. \<exists>rule \<in> set (set_for book role). cr_enabled rule \<and> (\<exists>z. cr_address_match rule = Some (Zone z) \<and>
        \<not> zone_ranks_as_suffix z \<and> match_zone h z \<and> c = cand lc clow role rule app McZone (label_count z)))"
  unfolding collect_zone_def
  by (rule each_rule_iff, rule_tac rule = rule in address_cases) (auto split: if_splits)

lemma in_collect_application:
  "c \<in> set (collect_application lc clow book a) \<longleftrightarrow>
     (\<exists>role. \<exists>rule \<in> set (set_for book role). cr_enabled rule \<and> cr_address_match rule = None \<and>
        (\<exists>m sp. cr_app_match rule = Some m \<and> app_match_specificity lc clow (am_pattern m) a = Some sp \<and>
           c = make_candidate (cr_id rule) role McApplication sp Matched (cr_action rule)))"
  unfolding collect_application_def
  by (rule each_rule_iff) auto

text \<open>What a rule contributes to the suffix stage: the name it covers the host by, and its class.\<close>

definition suffix_claim :: "rule_book \<Rightarrow> route_role \<Rightarrow> canonical_rule \<Rightarrow> string \<Rightarrow> (string \<times> match_class) option" where
  "suffix_claim book role rule h =
     (case cr_address_match rule of
        Some (SuffixDomain label) \<Rightarrow> if match_suffix_domain h label then Some (label, McSuffixDomain) else None
      | Some (Zone z) \<Rightarrow> if zone_ranks_as_suffix z \<and> match_zone h z \<and>
            \<not> holds_suffix (set_for book role) z (cr_app_match rule) then Some (z, McZone) else None
      | Some (AnyZoneDomain base) \<Rightarrow> (case match_any_zone_domain h base of None \<Rightarrow> None
          | Some named \<Rightarrow> if names_suffix_outright book named then None else Some (named, McSuffixDomain))
      | _ \<Rightarrow> None)"

lemma in_collect_suffix_domain:
  "c \<in> set (collect_suffix_domain lc clow book h app) \<longleftrightarrow>
     (\<exists>role. \<exists>rule \<in> set (set_for book role). cr_enabled rule \<and> (\<exists>n cls. suffix_claim book role rule h = Some (n, cls) \<and>
        c = cand lc clow role rule app cls (label_count n)))"
  unfolding collect_suffix_domain_def suffix_claim_def
  by (rule each_rule_iff, rule_tac rule = rule in address_cases) (auto split: if_splits option.splits)

lemma in_collect_subnet:
  "c \<in> set (collect_subnet lc clow book ip app) \<longleftrightarrow>
     (\<exists>role. \<exists>rule \<in> set (set_for book role). cr_enabled rule \<and>
        (\<exists>bs b. Option.bind (cr_address_match rule) ip_blocks = Some bs \<and> List.find (\<lambda>b. block_contains b ip) bs = Some b \<and>
           c = cand lc clow role rule app McSubnet (of_nat (prefix_len b))))"
  unfolding collect_subnet_def
  by (rule each_rule_iff) auto

lemma in_guarded: "x \<in> set (guarded block v f) \<longleftrightarrow> block = None \<and> (\<exists>y. v = Some y \<and> x \<in> set (f y))"
  by (cases v; cases block) (simp_all add: guarded_def)

section \<open>The decision does not depend on the order of rules\<close>

definition unique_ids :: "rule_book \<Rightarrow> bool" where
  "unique_ids book \<longleftrightarrow> distinct (map cr_id (rb_primary book)) \<and> distinct (map cr_id (rb_secondary book))"

definition same_rules :: "rule_book \<Rightarrow> rule_book \<Rightarrow> bool" where
  "same_rules b b' \<longleftrightarrow> mset (rb_primary b) = mset (rb_primary b') \<and> mset (rb_secondary b) = mset (rb_secondary b')"

text \<open>At most one candidate per rule and score, which is what makes the comparator's key injective.\<close>

definition good_candidates :: "rule_match_candidate set \<Rightarrow> bool" where
  "good_candidates S \<longleftrightarrow> (\<forall>c \<in> S. \<forall>d \<in> S. mc_rule_id c = mc_rule_id d \<longrightarrow>
     mc_route_role c = mc_route_role d \<longrightarrow> mc_specificity c = mc_specificity d \<longrightarrow> c = d)"

lemma role_rank_inject [simp]: "role_rank a = role_rank b \<longleftrightarrow> a = b"
  by (cases a; cases b) simp_all

lemma winner_key_inj: "good_candidates S \<Longrightarrow> inj_on winner_key S"
  unfolding inj_on_def good_candidates_def winner_key_def by (simp add: word_uint_eq_iff)

interpretation order: keyed_order winner_key good_candidates
  by unfold_locales (rule winner_key_inj)

lemma good_candidates_mono: "good_candidates T \<Longrightarrow> S \<subseteq> T \<Longrightarrow> good_candidates S"
  unfolding good_candidates_def by blast

lemma select_winner_perm:
  assumes "good_candidates (set cs)" "mset cs' = mset cs"
  shows "select_winner cs' = select_winner cs"
proof -
  have g: "good_candidates (set (filter eligible cs))"
    by (rule good_candidates_mono [OF assms(1)]) auto
  show ?thesis unfolding select_winner_def
    using order.sort_perm [OF g, of "filter eligible cs'"] assms(2) by simp
qed

lemma unique_rule:
  assumes "unique_ids book" "r \<in> set (set_for book role)" "r' \<in> set (set_for book role)" "cr_id r = cr_id r'"
  shows "r = r'"
  using assms by (cases role) (auto simp: unique_ids_def distinct_map dest: inj_onD)

lemma good_from_rules:
  assumes "unique_ids book"
    and "\<And>c. c \<in> S \<Longrightarrow> \<exists>role. \<exists>rule \<in> set (set_for book role). \<exists>sp.
      c = make_candidate (cr_id rule) role (cls role rule) sp (filt rule) (cr_action rule)"
  shows "good_candidates S"
  unfolding good_candidates_def
proof (intro ballI impI)
  fix c d assume cd: "c \<in> S" "d \<in> S" "mc_rule_id c = mc_rule_id d" "mc_route_role c = mc_route_role d"
    "mc_specificity c = mc_specificity d"
  obtain role rule sp where c: "rule \<in> set (set_for book role)"
    "c = make_candidate (cr_id rule) role (cls role rule) sp (filt rule) (cr_action rule)"
    using assms(2) [OF cd(1)] by blast
  obtain role' rule' sp' where d: "rule' \<in> set (set_for book role')"
    "d = make_candidate (cr_id rule') role' (cls role' rule') sp' (filt rule') (cr_action rule')"
    using assms(2) [OF cd(2)] by blast
  have e: "role' = role" "sp' = sp" "cr_id rule = cr_id rule'" using c(2) d(2) cd(3-5) by simp_all
  then have "rule = rule'" using unique_rule [OF assms(1) c(1)] d(1) by blast
  then show "c = d" using c(2) d(2) e by simp
qed

lemma mset_concat_map: "mset (concat (map f xs)) = (\<Sum>x \<in># mset xs. mset (f x))"
  by (induction xs) auto

lemma same_set_for: "same_rules b b' \<Longrightarrow> mset (set_for b role) = mset (set_for b' role)"
  by (cases role) (auto simp: same_rules_def)

lemma same_set_for_set: "same_rules b b' \<Longrightarrow> set (set_for b role) = set (set_for b' role)"
  using same_set_for mset_eq_setD by blast

lemma same_each_rule:
  assumes "same_rules b b'" "push = push'"
  shows "mset (each_rule b push) = mset (each_rule b' push')"
proof -
  have "mset (concat (map (push role) (filter cr_enabled (set_for b role)))) =
      mset (concat (map (push' role) (filter cr_enabled (set_for b' role))))" for role
    using same_set_for [OF assms(1), of role] assms(2) by (simp add: mset_concat_map)
  from this [of Primary] this [of Secondary] show ?thesis by (simp add: each_rule_def)
qed

lemma same_holds: "same_rules b b' \<Longrightarrow> holds_suffix (set_for b role) = holds_suffix (set_for b' role)"
  using same_set_for_set [of b b' role] by (intro ext) (simp add: holds_suffix_def list_ex_iff)

lemma same_names: "same_rules b b' \<Longrightarrow> names_suffix_outright b = names_suffix_outright b'"
  using same_set_for_set [of b b' Primary] same_set_for_set [of b b' Secondary]
  by (intro ext) (simp add: names_suffix_outright_def all_rules_def list_ex_iff)

lemma same_enabled_count: "same_rules b b' \<Longrightarrow> total_enabled_count b = total_enabled_count b'"
  unfolding total_enabled_count_def enabled_count_def same_rules_def
  by (metis mset_filter size_mset)

lemma same_collect:
  assumes "same_rules b b'"
  shows "mset (collect_exact_fqdn lc clow b h app) = mset (collect_exact_fqdn lc clow b' h app)"
    "mset (collect_suffix_domain lc clow b h app) = mset (collect_suffix_domain lc clow b' h app)"
    "mset (collect_zone lc clow b h app) = mset (collect_zone lc clow b' h app)"
    "mset (collect_exact_ip lc clow b ip app) = mset (collect_exact_ip lc clow b' ip app)"
    "mset (collect_subnet lc clow b ip app) = mset (collect_subnet lc clow b' ip app)"
    "mset (collect_application lc clow b a) = mset (collect_application lc clow b' a)"
  unfolding collect_exact_fqdn_def collect_suffix_domain_def collect_zone_def collect_exact_ip_def
    collect_subnet_def collect_application_def same_holds [OF assms] same_names [OF assms]
  by (rule same_each_rule [OF assms refl])+

lemma same_guarded: "(\<And>v. mset (f v) = mset (g v)) \<Longrightarrow> mset (guarded block x f) = mset (guarded block x g)"
  by (cases x) (simp_all add: guarded_def)

lemma same_concat: "(\<And>v. mset (f v) = mset (g v)) \<Longrightarrow> mset (concat (map f vs)) = mset (concat (map g vs))"
  by (simp add: mset_concat_map)

lemma same_stages:
  assumes "same_rules b b'"
  shows "list_all2 (\<lambda>xs ys. mset xs = mset ys) (match_stages lc clow input lookup b pol)
    (match_stages lc clow input lookup b' pol)"
  unfolding match_stages_def Let_def tier3_order_def
  by (auto intro!: same_guarded same_concat same_collect [OF assms] arg_cong [of _ _ "filter_mset is_block"])

lemma good_collect:
  assumes "unique_ids book"
  shows "good_candidates (set (collect_exact_fqdn lc clow book h app))"
    "good_candidates (set (collect_suffix_domain lc clow book h app))"
    "good_candidates (set (collect_zone lc clow book h app))"
    "good_candidates (\<Union>ip \<in> I. set (collect_exact_ip lc clow book ip app))"
    "good_candidates (\<Union>ip \<in> I. set (collect_subnet lc clow book ip app))"
    "good_candidates (set (collect_application lc clow book a))"
proof -
  let ?f = "\<lambda>rule. eval_app_filter lc clow rule app"
  show "good_candidates (set (collect_exact_fqdn lc clow book h app))"
    by (rule good_from_rules [OF assms, where cls = "\<lambda>_ _. McExactFqdn" and filt = ?f])
      (simp only: in_collect_exact_fqdn, blast)
  show "good_candidates (set (collect_suffix_domain lc clow book h app))"
    by (rule good_from_rules [OF assms, where cls = "\<lambda>role rule. snd (the (suffix_claim book role rule h))" and filt = ?f])
      (simp only: in_collect_suffix_domain, metis option.sel snd_conv)
  show "good_candidates (set (collect_zone lc clow book h app))"
    by (rule good_from_rules [OF assms, where cls = "\<lambda>_ _. McZone" and filt = ?f])
      (simp only: in_collect_zone, blast)
  show "good_candidates (\<Union>ip \<in> I. set (collect_exact_ip lc clow book ip app))"
    by (rule good_from_rules [OF assms, where cls = "\<lambda>_ _. McExactIp" and filt = ?f])
      (simp only: UN_iff in_collect_exact_ip, blast)
  show "good_candidates (\<Union>ip \<in> I. set (collect_subnet lc clow book ip app))"
    by (rule good_from_rules [OF assms, where cls = "\<lambda>_ _. McSubnet" and filt = ?f])
      (simp only: UN_iff in_collect_subnet, blast)
  show "good_candidates (set (collect_application lc clow book a))"
    by (rule good_from_rules [OF assms, where cls = "\<lambda>_ _. McApplication" and filt = "\<lambda>_. Matched"])
      (simp only: in_collect_application, blast)
qed

lemma good_guarded:
  "(\<And>v. good_candidates (set (f v))) \<Longrightarrow> good_candidates (set (guarded block x f))"
  by (cases x; cases block) (simp_all add: guarded_def good_candidates_def)

lemma good_filter: "good_candidates (set cs) \<Longrightarrow> good_candidates (set (filter p cs))"
  by (rule good_candidates_mono) auto

lemma good_stages:
  assumes "unique_ids book" "cs \<in> set (match_stages lc clow input lookup book pol)"
  shows "good_candidates (set cs)"
proof -
  have u: "good_candidates (set (concat (map f vs)))" if "good_candidates (\<Union>v \<in> set vs. set (f v))" for f vs
    using that by simp
  have "good_candidates {}" by (simp add: good_candidates_def)
  then show ?thesis
    using assms(2) unfolding match_stages_def Let_def tier3_order_def
    by (auto intro!: good_guarded good_filter u good_collect [OF assms(1)] simp del: set_concat split: if_splits)
qed

text \<open>
  C4. The decision is independent of the order rules are stored in: for a book whose identifiers are
  unique within each set, rearranging the sets changes neither the winner nor its conflict mark nor
  the reason of a default route.
\<close>

theorem match_rules_order_independent:
  assumes "unique_ids book" "same_rules book book'"
  shows "match_rules lc clow input lookup book' pol mode = match_rules lc clow input lookup book pol mode"
proof -
  let ?s = "match_stages lc clow input lookup book pol" and ?s' = "match_stages lc clow input lookup book' pol"
  have l: "list_all2 (\<lambda>xs ys. mset xs = mset ys) ?s ?s'" by (rule same_stages [OF assms(2)])
  have "map select_winner ?s' = map select_winner ?s"
  proof (rule nth_equalityI)
    show "length (map select_winner ?s') = length (map select_winner ?s)"
      using list_all2_lengthD [OF l] by simp
    fix i assume i: "i < length (map select_winner ?s')"
    then have j: "i < length ?s" "i < length ?s'" using list_all2_lengthD [OF l] by simp_all
    have "select_winner (?s' ! i) = select_winner (?s ! i)"
      using good_stages [OF assms(1) nth_mem [OF j(1)]] list_all2_nthD [OF l j(1)] select_winner_perm by metis
    then show "map select_winner ?s' ! i = map select_winner ?s ! i" using j by simp
  qed
  then show ?thesis unfolding match_rules_def same_enabled_count [OF assms(2)] by simp
qed

section \<open>Vetoes\<close>

lemma stages_split:
  "\<exists>rest. match_stages lc clow input lookup book pol =
     filter is_block (guarded (mca_exact_ip (ni_match_class_availability input)) (Some (effective_ips_for_matching input lookup))
       (\<lambda>ips. concat (map (\<lambda>ip. collect_exact_ip lc clow book ip (ni_app_identity input)) ips))) #
     filter is_block (guarded (mca_application (ni_match_class_availability input)) (ni_app_identity input)
       (collect_application lc clow book)) # rest"
  unfolding match_stages_def Let_def by simp

lemma best_of_fields:
  assumes "best_of w cs"
  obtains c where "c \<in> set cs" "eligible c" "mc_rule_id w = mc_rule_id c" "mc_route_role w = mc_route_role c"
    "mc_match_class w = mc_match_class c" "mc_specificity w = mc_specificity c" "mc_action w = mc_action c"
    "winner_key w = winner_key c" "\<And>d. d \<in> set cs \<Longrightarrow> eligible d \<Longrightarrow> winner_key c \<le> winner_key d"
proof -
  from assms obtain c where c: "c \<in> set cs" "eligible c" "\<forall>d \<in> set cs. eligible d \<longrightarrow> winner_key c \<le> winner_key d"
    "w = c\<lparr>mc_conflict := (if conflicting c cs then Detected else NoConflict)\<rparr>"
    unfolding best_of_def by blast
  show ?thesis by (rule that [of c]) (use c in \<open>simp_all add: winner_key_def\<close>)
qed

lemma veto_wins:
  assumes "match_stages lc clow input lookup book pol = cs # rest" "c \<in> set cs" "eligible c"
  shows "\<exists>w. match_rules lc clow input lookup book pol mode = MatchedRoute w \<and> best_of w cs"
proof -
  have "select_winner cs \<noteq> None" using assms(2,3) select_winner_None by blast
  then obtain w where w: "select_winner cs = Some w" by auto
  then show ?thesis using assms(1) select_winner_best [OF w] by (simp add: match_rules_def)
qed

definition allows :: "(string \<Rightarrow> string) \<Rightarrow> (nat \<Rightarrow> nat list) \<Rightarrow> canonical_rule \<Rightarrow> normalized_app_identity option \<Rightarrow> bool" where
  "allows lc clow rule app \<longleftrightarrow> is_eligible (eval_app_filter lc clow rule app)"

text \<open>
  C2. A literal-address block is an absolute veto: when the resolved or observed address of a
  connection is named by an enabled \<open>Block\<close> rule whose application filter, if any, admits the
  process, the decision is a block by such a rule, whatever names, zones, networks or applications
  the rest of the book routes.
\<close>

theorem exact_ip_block_veto:
  assumes "mca_exact_ip (ni_match_class_availability input) = None"
    and "ip \<in> set (effective_ips_for_matching input lookup)"
    and "rule \<in> set (set_for book role)" "cr_enabled rule" "cr_action rule = Block"
    and "cr_address_match rule = Some (ExactIp ip)" "allows lc clow rule (ni_app_identity input)"
  shows "\<exists>w. match_rules lc clow input lookup book pol mode = MatchedRoute w \<and>
    mc_action w = Block \<and> mc_match_class w = McExactIp"
proof -
  let ?app = "ni_app_identity input"
  let ?cs = "filter is_block (guarded (mca_exact_ip (ni_match_class_availability input)) (Some (effective_ips_for_matching input lookup))
       (\<lambda>ips. concat (map (\<lambda>ip. collect_exact_ip lc clow book ip ?app) ips)))"
  obtain rest where st: "match_stages lc clow input lookup book pol = ?cs # rest"
    using stages_split [of lc clow input lookup book pol] by blast
  let ?c = "cand lc clow role rule ?app McExactIp SINGLE"
  have "?c \<in> set (collect_exact_ip lc clow book ip ?app)" unfolding in_collect_exact_ip using assms(3,4,6) by blast
  then have "?c \<in> set ?cs" using assms(1,2,5) by (auto simp: in_guarded is_block_def)
  moreover have "eligible ?c" using assms(7) by (simp add: allows_def)
  ultimately obtain w where w: "match_rules lc clow input lookup book pol mode = MatchedRoute w" "best_of w ?cs"
    using veto_wins [OF st] by blast
  from w(2) obtain c where "c \<in> set ?cs" "mc_action w = mc_action c" "mc_match_class w = mc_match_class c"
    by (rule best_of_fields)
  then show ?thesis using w(1) by (auto simp: in_guarded is_block_def in_collect_exact_ip)
qed


section \<open>Probes\<close>



section \<open>Evaluated decisions\<close>

definition web_book :: rule_book where
  "web_book = \<lparr>rb_primary = [plain_rule ''r1'' (SuffixDomain ''example.com'') Route],
     rb_secondary = [plain_rule ''r2'' (ExactFqdn ''www.example.com'') Route,
                     plain_rule ''r3'' (ExactIp (V4 167772165)) Block]\<rparr>"

definition web_input :: normalized_decision_input where
  "web_input = normalize_runtime_input (\<lambda>s. None) to_ascii_lowercase
     (probe_input (Some ''www.example.com'') (Some (V4 167772165)) (Some ''viewer'') PreferPrimary)"

theorem match_rules_refines_witness:
  "\<exists>w i. match_rules to_ascii_lowercase ascii_clow web_input probe_lookup web_book default_zone_policy PreferPrimary = MatchedRoute w \<and>
     best_of w (match_stages to_ascii_lowercase ascii_clow web_input probe_lookup web_book default_zone_policy ! i)"
proof -
  let ?d = "match_rules to_ascii_lowercase ascii_clow web_input probe_lookup web_book default_zone_policy PreferPrimary"
  have "is_rule_matched ?d" by code_simp
  then obtain w where w: "?d = MatchedRoute w" by (cases ?d) auto
  show ?thesis
    using match_rules_refines [of to_ascii_lowercase ascii_clow web_input probe_lookup web_book default_zone_policy PreferPrimary]
    unfolding w by auto
qed

theorem match_rules_order_independent_witness:
  "match_rules to_ascii_lowercase ascii_clow web_input probe_lookup
     (web_book\<lparr>rb_secondary := rev (rb_secondary web_book)\<rparr>) default_zone_policy PreferPrimary =
   match_rules to_ascii_lowercase ascii_clow web_input probe_lookup web_book default_zone_policy PreferPrimary"
proof (rule match_rules_order_independent)
  show "unique_ids web_book" by code_simp
  show "same_rules web_book (web_book\<lparr>rb_secondary := rev (rb_secondary web_book)\<rparr>)"
    by (simp add: same_rules_def)
qed

theorem exact_ip_block_veto_witness:
  "\<exists>w. match_rules to_ascii_lowercase ascii_clow web_input probe_lookup web_book default_zone_policy PreferPrimary = MatchedRoute w \<and>
     mc_action w = Block \<and> mc_match_class w = McExactIp"
proof (rule exact_ip_block_veto)
  show "mca_exact_ip (ni_match_class_availability web_input) = None" by code_simp
  show "V4 167772165 \<in> set (effective_ips_for_matching web_input probe_lookup)" by code_simp
  show "plain_rule ''r3'' (ExactIp (V4 167772165)) Block \<in> set (set_for web_book Secondary)" by (simp add: web_book_def)
qed (simp_all add: plain_rule_def allows_def eval_app_filter_def is_eligible_def)





end
