(* ===== verification/Rule_Specificity.thy ===== *)
theory Rule_Specificity
  imports Rule_Matching
begin

text \<open>
  How strongly a rule set claims a host name: \<open>src/core/domain/src/rule_specificity.rs\<close>. The
  shared-address census compares claims of the two sets with it; the theorem shows that its order,
  which counts bytes, decides as the matcher does, which counts labels.
\<close>

section \<open>Claims\<close>

datatype claim = ClaimZone nat | ClaimSuffix nat bool | ClaimExact

fun claim_key :: "claim \<Rightarrow> nat \<times> nat \<times> bool" where
  "claim_key (ClaimZone label_len) = (0, label_len, False)"
| "claim_key (ClaimSuffix label_len without_apex) = (1, label_len, without_apex)"
| "claim_key ClaimExact = (2, 0, False)"

lemma claim_key_inject: "claim_key a = claim_key b \<Longrightarrow> a = b"
  by (cases a; cases b) auto

instantiation claim :: linorder
begin

definition less_eq_claim :: "claim \<Rightarrow> claim \<Rightarrow> bool" where
  "less_eq_claim a b \<longleftrightarrow> claim_key a \<le> claim_key b"

definition less_claim :: "claim \<Rightarrow> claim \<Rightarrow> bool" where
  "less_claim a b \<longleftrightarrow> claim_key a < claim_key b"

instance
proof
  fix a b c :: claim
  show "a < b \<longleftrightarrow> a \<le> b \<and> \<not> b \<le> a" by (auto simp: less_eq_claim_def less_claim_def)
  show "a \<le> a" by (simp add: less_eq_claim_def)
  show "a \<le> b \<or> b \<le> a" by (auto simp: less_eq_claim_def)
  assume "a \<le> b"
  then show "b \<le> c \<Longrightarrow> a \<le> c" by (auto simp: less_eq_claim_def)
  show "b \<le> a \<Longrightarrow> a = b" using \<open>a \<le> b\<close> claim_key_inject by (simp add: less_eq_claim_def)
qed

end

definition claim_in_set :: "string \<Rightarrow> canonical_rule \<Rightarrow> rule_set \<Rightarrow> rule_book \<Rightarrow> claim option" where
  "claim_in_set hostname rule rules book =
     (case cr_address_match rule of
        Some (ExactFqdn name) \<Rightarrow> if name = hostname then Some ClaimExact else None
      | Some (SuffixDomain label) \<Rightarrow>
          if match_suffix_domain hostname label then Some (ClaimSuffix (length label) False) else None
      | Some (AnyZoneDomain base) \<Rightarrow>
          (case match_any_zone_domain hostname base of None \<Rightarrow> None
           | Some named \<Rightarrow> if names_suffix_outright book named then None
                          else Some (ClaimSuffix (length named) False))
      | Some (Zone label) \<Rightarrow>
          if match_zone hostname label then
            Some (if zone_ranks_as_suffix label
                  then ClaimSuffix (length label) (\<not> holds_suffix rules label (cr_app_match rule))
                  else ClaimZone (length label))
          else None
      | _ \<Rightarrow> None)"

definition match_specificity :: "string \<Rightarrow> rule_set \<Rightarrow> rule_book \<Rightarrow> claim option" where
  "match_specificity hostname rules book =
     (case List.map_filter (\<lambda>rule. claim_in_set hostname rule rules book) (filter cr_enabled rules) of
        [] \<Rightarrow> None
      | c # cs \<Rightarrow> Some (fold max cs c))"

text \<open>The rule is passed by reference, so the set that holds it is known: \<open>Primary\<close> or the other one.\<close>

definition rule_match_specificity :: "string \<Rightarrow> route_role \<Rightarrow> canonical_rule \<Rightarrow> rule_book \<Rightarrow> claim option" where
  "rule_match_specificity hostname holder rule book = claim_in_set hostname rule (set_for book holder) book"

section \<open>The strongest claim\<close>

lemma fold_max_Max: "fold max cs c = Max (set (c # cs))" for c :: claim
  by (metis Max.set_eq_fold)

lemma match_specificity_cases:
  "(match_specificity h rules book = None \<longleftrightarrow> (\<forall>r \<in> set rules. cr_enabled r \<longrightarrow> claim_in_set h r rules book = None)) \<and>
   (\<forall>cl. match_specificity h rules book = Some cl \<longrightarrow>
     (\<exists>r \<in> set rules. cr_enabled r \<and> claim_in_set h r rules book = Some cl) \<and>
     (\<forall>r \<in> set rules. \<forall>cl'. cr_enabled r \<longrightarrow> claim_in_set h r rules book = Some cl' \<longrightarrow> cl' \<le> cl))"
proof -
  let ?cs = "List.map_filter (\<lambda>rule. claim_in_set h rule rules book) (filter cr_enabled rules)"
  have s: "cl \<in> set ?cs \<longleftrightarrow> (\<exists>r \<in> set rules. cr_enabled r \<and> claim_in_set h r rules book = Some cl)" for cl
    by (auto simp: set_map_filter)
  show ?thesis
  proof (cases ?cs)
    case Nil
    then have "match_specificity h rules book = None" by (simp add: match_specificity_def)
    moreover have "\<forall>r \<in> set rules. cr_enabled r \<longrightarrow> claim_in_set h r rules book = None"
      using s Nil by (metis empty_iff empty_set not_None_eq)
    ultimately show ?thesis by simp
  next
    case (Cons c cs)
    then have m: "match_specificity h rules book = Some (Max (set ?cs))"
      unfolding match_specificity_def Cons by (simp only: list.case fold_max_Max)
    have i: "Max (set ?cs) \<in> set ?cs" by (rule Max_in) (simp_all add: Cons)
    have u: "cl \<in> set ?cs \<Longrightarrow> cl \<le> Max (set ?cs)" for cl by simp
    show ?thesis unfolding m using i u s by (metis option.distinct(1) option.inject)
  qed
qed

lemma match_specificity_SomeD:
  assumes "match_specificity h rules book = Some cl"
  shows "\<exists>r \<in> set rules. cr_enabled r \<and> claim_in_set h r rules book = Some cl"
  using assms match_specificity_cases by blast

lemma match_specificity_upper:
  assumes "r \<in> set rules" "cr_enabled r" "claim_in_set h r rules book = Some cl"
  shows "Some cl \<le> match_specificity h rules book"
proof (cases "match_specificity h rules book")
  case None
  then show ?thesis using assms match_specificity_cases [of h rules book] by (metis option.distinct(1))
next
  case (Some m)
  then show ?thesis using assms match_specificity_cases [of h rules book] by auto
qed

section \<open>Claims and candidates\<close>

lemma suffix_claim_claim:
  assumes "suffix_claim book role rule h = Some (n, cls)"
  shows "claim_in_set h rule (set_for book role) book = Some (ClaimSuffix (length n) (cls = McZone)) \<and>
    match_suffix_domain h n"
  by (rule address_cases [of rule]) (use assms in \<open>auto simp: suffix_claim_def claim_in_set_def match_zone_suffix
      dest: match_any_zone_domain_SomeD split: if_splits option.splits\<close>)

lemma claim_suffix_claim:
  assumes "claim_in_set h rule (set_for book role) book = Some (ClaimSuffix len wa)"
    "rule \<in> set (set_for book role)" "cr_enabled rule"
  shows "\<exists>r \<in> set (set_for book role). cr_enabled r \<and>
    (\<exists>n cls. suffix_claim book role r h = Some (n, cls) \<and> len = length n \<and> wa = (cls = McZone))"
proof (cases "\<exists>z. cr_address_match rule = Some (Zone z) \<and> holds_suffix (set_for book role) z (cr_app_match rule)")
  case True
  then obtain z r where z: "cr_address_match rule = Some (Zone z)" and
    r: "r \<in> set (set_for book role)" "cr_enabled r" "cr_address_match r = Some (SuffixDomain z)"
    by (auto simp: holds_suffix_def list_ex_iff)
  have "match_zone h z" "len = length z" "\<not> wa"
    using assms(1) z True by (auto simp: claim_in_set_def split: if_splits)
  then show ?thesis using r by (intro bexI [of _ r]) (auto simp: suffix_claim_def match_zone_suffix)
next
  case False
  show ?thesis
    by (rule bexI [OF _ assms(2)], rule address_cases [of rule])
      (use assms False in \<open>auto simp: suffix_claim_def claim_in_set_def split: if_splits option.splits\<close>)
qed

text \<open>Among names covering one host, more bytes is more labels.\<close>

lemma covering_length:
  assumes "match_suffix_domain h a" "match_suffix_domain h b"
  shows "length a < length b \<longleftrightarrow> length (labels a) < length (labels b)"
proof -
  have l: "length x < length y" if xy: "match_suffix_domain h x" "match_suffix_domain h y"
      "length (labels x) < length (labels y)" for x y
  proof -
    obtain ps where "ps \<noteq> []" "labels y = ps @ labels x" using covering_names_nested [OF xy] by blast
    then have "y = join_with dot ps @ dot # x"
      using join_with_append [of ps "labels x" dot] join_split_on [of dot y] join_split_on [of dot x] by simp
    then show ?thesis by simp
  qed
  show ?thesis
  proof (cases "length (labels a)" "length (labels b)" rule: linorder_cases)
    case less
    then show ?thesis using l [OF assms] by simp
  next
    case equal
    then show ?thesis using covering_names_eq [OF assms equal] by simp
  next
    case greater
    then show ?thesis using l [OF assms(2,1)] by simp
  qed
qed

lemma label_count_unat:
  assumes "match_suffix_domain h n" "dns_labels_are_well_formed h"
  shows "unat (label_count n) = length (labels n)"
proof -
  have "length (labels n) \<le> length (labels h)" using match_suffix_labels [OF assms(1)] by (rule suffix_length_le)
  also have "\<dots> \<le> Suc (length h)" by (simp add: length_split_by)
  also have "\<dots> \<le> 254" using assms(2) by (simp add: dns_labels_are_well_formed_def MAX_HOSTNAME_OCTETS_def split: if_splits)
  finally have "length (labels n) < 2 ^ 32" by simp
  moreover have "n \<noteq> []" using assms(1) by (auto simp: match_suffix_domain_def split: if_splits)
  ultimately show ?thesis by (simp add: label_count_def unat_of_nat)
qed

lemma label_count_mono:
  assumes "match_suffix_domain h a" "match_suffix_domain h b" "dns_labels_are_well_formed h"
  shows "label_count a < label_count b \<longleftrightarrow> length a < length b"
  using assms covering_length [OF assms(1,2)] by (simp add: word_less_nat_alt label_count_unat)

text \<open>What decides within a stage before actions, roles and identifiers do.\<close>

definition strength :: "rule_match_candidate \<Rightarrow> u32 \<times> bool" where
  "strength c = (mc_specificity c, apex_rank (mc_match_class c) = 0)"

lemma apex_rank_cases: "apex_rank cls = (if cls = McZone then 0 else 1)"
  by (cases cls) simp_all

lemma strength_key:
  assumes "strength c < strength d"
  shows "winner_key d < winner_key c"
  using assms by (auto simp: strength_def winner_key_def apex_rank_cases word_less_def word_le_def split: if_splits)

lemma ties_strength: "ties c d \<longleftrightarrow> strength c = strength d \<and> mc_route_role d \<noteq> mc_route_role c"
  by (auto simp: ties_def strength_def apex_rank_cases)

lemma best_strength:
  assumes b: "best_of w cs" and c0: "c0 \<in> set cs" "eligible c0"
    and top_c0: "\<And>c. c \<in> set cs \<Longrightarrow> eligible c \<Longrightarrow> strength c \<le> strength c0"
  shows "if \<exists>c \<in> set cs. eligible c \<and> strength c = strength c0 \<and> mc_route_role c \<noteq> mc_route_role c0
    then mc_conflict w = Detected else mc_route_role w = mc_route_role c0 \<and> mc_conflict w = NoConflict"
proof -
  from b obtain l where l: "l \<in> set cs" "eligible l" "\<forall>c \<in> set cs. eligible c \<longrightarrow> winner_key l \<le> winner_key c"
    and w: "w = l\<lparr>mc_conflict := (if conflicting l cs then Detected else NoConflict)\<rparr>"
    unfolding best_of_def by blast
  have "\<not> strength l < strength c0" using strength_key [of l c0] l(3) c0 by (meson leD)
  then have sl: "strength l = strength c0" using top_c0 [OF l(1,2)] by simp
  let ?other = "\<lambda>d. \<exists>c \<in> set cs. eligible c \<and> strength c = strength c0 \<and> mc_route_role c \<noteq> mc_route_role d"
  have cf: "conflicting l cs \<longleftrightarrow> ?other l" unfolding conflicting_def ties_strength sl by metis
  show ?thesis
  proof (cases "mc_route_role l = mc_route_role c0")
    case True
    then have "conflicting l cs \<longleftrightarrow> ?other c0" using cf by metis
    then show ?thesis unfolding w using True by (cases "?other c0") simp_all
  next
    case False
    then have "?other c0" "?other l" using l(1,2) sl c0 by metis+
    then show ?thesis unfolding w using cf by simp
  qed
qed

lemma strength_cand [simp]: "strength (make_candidate i role cls sp app act) = (sp, cls = McZone)"
  by (simp add: strength_def apex_rank_cases)

lemma suffix_strength_mono:
  assumes "match_suffix_domain h a" "match_suffix_domain h b" "dns_labels_are_well_formed h"
  shows "(label_count a, za) \<le> (label_count b, zb) \<longleftrightarrow> ClaimSuffix (length a) za \<le> ClaimSuffix (length b) zb"
proof (cases "length a" "length b" rule: linorder_cases)
  case less
  then have "label_count a < label_count b" using label_count_mono [OF assms] by simp
  then show ?thesis using less by (simp add: less_eq_claim_def less_eq_prod_def)
next
  case equal
  then have "label_count a = label_count b"
    using label_count_mono [OF assms] label_count_mono [OF assms(2,1,3)] by (metis less_irrefl linorder_neqE)
  then show ?thesis using equal by (simp add: less_eq_claim_def less_eq_prod_def)
next
  case greater
  then have "label_count b < label_count a" using label_count_mono [OF assms(2,1,3)] by simp
  then show ?thesis using greater by (auto simp: less_eq_claim_def less_eq_prod_def)
qed

lemma suffix_strength_eq:
  assumes "match_suffix_domain h a" "match_suffix_domain h b" "dns_labels_are_well_formed h"
  shows "(label_count a, za) = (label_count b, zb) \<longleftrightarrow> ClaimSuffix (length a) za = ClaimSuffix (length b) zb"
proof -
  let ?x = "(label_count a, za)" and ?y = "(label_count b, zb)"
  let ?p = "ClaimSuffix (length a) za" and ?q = "ClaimSuffix (length b) zb"
  have "?x = ?y \<longleftrightarrow> ?x \<le> ?y \<and> ?y \<le> ?x" by (rule order.eq_iff)
  also have "\<dots> \<longleftrightarrow> ?p \<le> ?q \<and> ?q \<le> ?p"
    by (simp only: suffix_strength_mono [OF assms] suffix_strength_mono [OF assms(2,1,3)])
  also have "\<dots> \<longleftrightarrow> ?p = ?q" by (rule order.eq_iff [symmetric])
  finally show ?thesis .
qed

section \<open>Claims decide as the matcher does\<close>

text \<open>Books the census compares by name alone: no application filters, no literal-address vetoes.\<close>

definition plain_book :: "rule_book \<Rightarrow> bool" where
  "plain_book book \<longleftrightarrow> list_all (\<lambda>r. cr_app_match r = None \<and>
     (cr_action r = Block \<longrightarrow> (case cr_address_match r of Some (ExactIp _) \<Rightarrow> False | _ \<Rightarrow> True))) (all_rules book)"

lemma plain_bookD:
  assumes "plain_book book" "r \<in> set (set_for book role)"
  shows "cr_app_match r = None" "cr_action r = Block \<Longrightarrow> cr_address_match r \<noteq> Some (ExactIp ip)"
  using assms by (cases role; auto simp: plain_book_def list_all_iff all_rules_def)+

definition named_input :: "normalized_decision_input \<Rightarrow> string \<Rightarrow> bool" where
  "named_input input h \<longleftrightarrow> ni_hostname input = Valid h \<and> dns_labels_are_well_formed h \<and>
     mca_exact_fqdn (ni_match_class_availability input) = None \<and>
     mca_suffix_domain (ni_match_class_availability input) = None"

lemma plain_stages:
  assumes "plain_book book" "named_input input h"
  shows "\<exists>rest. match_stages lc clow input lookup book pol =
    [] # [] # collect_exact_fqdn lc clow book h (ni_app_identity input) #
    collect_suffix_domain lc clow book h (ni_app_identity input) # rest"
proof -
  let ?app = "ni_app_identity input"
  let ?v = "filter is_block (guarded (mca_exact_ip (ni_match_class_availability input)) (Some (effective_ips_for_matching input lookup))
       (\<lambda>ips. concat (map (\<lambda>ip. collect_exact_ip lc clow book ip ?app) ips)))"
  let ?a = "filter is_block (guarded (mca_application (ni_match_class_availability input)) ?app (collect_application lc clow book))"
  have "c \<notin> set ?v" for c
    using plain_bookD [OF assms(1)] by (auto simp: in_guarded in_collect_exact_ip is_block_def)
  then have v: "?v = []" by (metis ex_in_conv set_empty)
  have "c \<notin> set ?a" for c
    using plain_bookD(1) [OF assms(1)] by (auto simp: in_guarded in_collect_application)
  then have a: "?a = []" by (metis ex_in_conv set_empty)
  have "\<exists>rest. match_stages lc clow input lookup book pol = ?v # ?a #
      guarded (mca_exact_fqdn (ni_match_class_availability input)) (host_of (ni_hostname input))
        (\<lambda>h. collect_exact_fqdn lc clow book h ?app) #
      guarded (mca_suffix_domain (ni_match_class_availability input)) (host_of (ni_hostname input))
        (\<lambda>h. collect_suffix_domain lc clow book h ?app) # rest"
    unfolding match_stages_def Let_def by simp
  then show ?thesis unfolding v a using assms(2) by (simp add: named_input_def guarded_def)
qed

lemma plain_eligible:
  assumes "plain_book book" "rule \<in> set (set_for book role)"
  shows "eligible (cand lc clow role rule app cls sp)"
  using plain_bookD(1) [OF assms] by (simp add: eval_app_filter_def is_eligible_def)

lemma claim_exact_iff:
  "claim_in_set h r rules book = Some ClaimExact \<longleftrightarrow> cr_address_match r = Some (ExactFqdn h)"
  by (rule address_cases [of r]) (auto simp: claim_in_set_def split: if_splits option.splits)

lemma other_role_iff: "a \<noteq> b \<longleftrightarrow> a = other_role b"
  by (cases a; cases b) simp_all

text \<open>A stage whose best candidate comes from one set decides for that set, unless the other ties.\<close>

lemma stage_decides:
  assumes "match_stages lc clow input lookup book pol = pre @ cs # post" "\<forall>ds \<in> set pre. ds = []"
    and "c0 \<in> set cs" "eligible c0" "\<And>c. c \<in> set cs \<Longrightarrow> strength c \<le> strength c0"
    and "(\<exists>c \<in> set cs. eligible c \<and> strength c = strength c0 \<and> mc_route_role c \<noteq> mc_route_role c0) \<longleftrightarrow> tied"
  shows "\<exists>w. match_rules lc clow input lookup book pol mode = MatchedRoute w \<and>
    (if tied then mc_conflict w = Detected else mc_route_role w = mc_route_role c0 \<and> mc_conflict w = NoConflict)"
proof -
  have "select_winner cs \<noteq> None" using assms(3,4) select_winner_None by blast
  then obtain w where w: "select_winner cs = Some w" by blast
  have p: "first_some (map select_winner pre) = None" using assms(2) select_winner_None by auto
  have "first_some (map select_winner (match_stages lc clow input lookup book pol)) = Some w"
    unfolding assms(1) map_append first_some_append p using w by simp
  then have "match_rules lc clow input lookup book pol mode = MatchedRoute w" by (simp add: match_rules_def)
  then show ?thesis using best_strength [OF select_winner_best [OF w] assms(3,4)] assms(5,6) by auto
qed

lemma exact_stage_decides:
  assumes b: "plain_book book" and n: "named_input input h"
    and m: "match_specificity h (set_for book role) book = Some ClaimExact"
    and tied: "match_specificity h (set_for book (other_role role)) book \<le> Some ClaimExact"
  shows "\<exists>w. match_rules lc clow input lookup book pol mode = MatchedRoute w \<and>
    (if match_specificity h (set_for book (other_role role)) book = Some ClaimExact then mc_conflict w = Detected
     else mc_route_role w = role \<and> mc_conflict w = NoConflict)"
proof -
  let ?app = "ni_app_identity input"
  let ?cs = "collect_exact_fqdn lc clow book h ?app"
  let ?other = "match_specificity h (set_for book (other_role role)) book"
  obtain r where r: "r \<in> set (set_for book role)" "cr_enabled r" "cr_address_match r = Some (ExactFqdn h)"
    using match_specificity_SomeD [OF m] by (auto simp: claim_exact_iff)
  let ?c = "cand lc clow role r ?app McExactFqdn (label_count h)"
  have s: "c \<in> set ?cs \<Longrightarrow> strength c = strength ?c" for c by (auto simp: in_collect_exact_fqdn)
  have "(\<exists>c \<in> set ?cs. eligible c \<and> strength c = strength ?c \<and> mc_route_role c \<noteq> mc_route_role ?c) \<longleftrightarrow>
      ?other = Some ClaimExact" (is "?L \<longleftrightarrow> ?R")
  proof
    assume ?L
    then obtain r' where r': "r' \<in> set (set_for book (other_role role))" "cr_enabled r'"
      "cr_address_match r' = Some (ExactFqdn h)"
      by (auto simp: in_collect_exact_fqdn other_role_iff)
    from match_specificity_upper [OF r'(1,2)] have "Some ClaimExact \<le> ?other"
      using r'(3) by (auto simp: claim_exact_iff)
    then show ?R using tied by simp
  next
    assume ?R
    from match_specificity_SomeD [OF this] obtain r' where
      r': "r' \<in> set (set_for book (other_role role))" "cr_enabled r'" "cr_address_match r' = Some (ExactFqdn h)"
      by (auto simp: claim_exact_iff)
    let ?c' = "cand lc clow (other_role role) r' ?app McExactFqdn (label_count h)"
    have "?c' \<in> set ?cs" unfolding in_collect_exact_fqdn using r' by blast
    moreover have "eligible ?c'" by (rule plain_eligible [OF b r'(1)])
    ultimately show ?L by (intro bexI [of _ ?c']) (auto simp: other_role_iff)
  qed
  note t = this
  obtain rest where st: "match_stages lc clow input lookup book pol = [[], []] @ ?cs # rest"
    using plain_stages [OF b n, of lc clow lookup pol] by auto
  have c: "?c \<in> set ?cs" unfolding in_collect_exact_fqdn using r by blast
  have le: "\<And>c. c \<in> set ?cs \<Longrightarrow> strength c \<le> strength ?c" using s by simp
  have p: "\<forall>ds \<in> set [[], []]. ds = []" by simp
  from stage_decides [OF st p c plain_eligible [OF b r(1)] le t, of mode] show ?thesis unfolding make_candidate_fields .
qed

lemma no_exact_candidates:
  assumes "match_specificity h (set_for book role) book = Some (ClaimSuffix len wa)"
    and "match_specificity h (set_for book (other_role role)) book \<le> Some (ClaimSuffix len wa)"
  shows "collect_exact_fqdn lc clow book h app = []"
proof -
  have "\<not> (r \<in> set (set_for book x) \<and> cr_enabled r \<and> cr_address_match r = Some (ExactFqdn h))" for r x
  proof
    assume r: "r \<in> set (set_for book x) \<and> cr_enabled r \<and> cr_address_match r = Some (ExactFqdn h)"
    then have "Some ClaimExact \<le> match_specificity h (set_for book x) book"
      by (intro match_specificity_upper [of r]) (auto simp: claim_exact_iff)
    also have "\<dots> \<le> Some (ClaimSuffix len wa)" using assms other_role_iff [of x role] by (cases "x = role") auto
    finally show False by (simp add: less_eq_claim_def)
  qed
  then have "c \<notin> set (collect_exact_fqdn lc clow book h app)" for c unfolding in_collect_exact_fqdn by blast
  then show ?thesis by (metis ex_in_conv set_empty)
qed

lemma suffix_stage_decides:
  assumes b: "plain_book book" and n: "named_input input h"
    and m: "match_specificity h (set_for book role) book = Some (ClaimSuffix len wa)"
    and tied: "match_specificity h (set_for book (other_role role)) book \<le> Some (ClaimSuffix len wa)"
  shows "\<exists>w. match_rules lc clow input lookup book pol mode = MatchedRoute w \<and>
    (if match_specificity h (set_for book (other_role role)) book = Some (ClaimSuffix len wa) then mc_conflict w = Detected
     else mc_route_role w = role \<and> mc_conflict w = NoConflict)"
proof -
  let ?app = "ni_app_identity input" and ?m = "\<lambda>x. match_specificity h (set_for book x) book"
  let ?cs = "collect_suffix_domain lc clow book h ?app"
  have wf: "dns_labels_are_well_formed h" using n by (simp add: named_input_def)
  have pick: "\<exists>r k cls. r \<in> set (set_for book x) \<and> cr_enabled r \<and> suffix_claim book x r h = Some (k, cls) \<and>
      len = length k \<and> wa = (cls = McZone)" if "?m x = Some (ClaimSuffix len wa)" for x
    using match_specificity_SomeD [OF that] claim_suffix_claim by blast
  have up: "ClaimSuffix (length k) (cls = McZone) \<le> ClaimSuffix len wa \<and>
      (ClaimSuffix (length k) (cls = McZone) = ClaimSuffix len wa \<longrightarrow> ?m x = Some (ClaimSuffix len wa))"
    if "r \<in> set (set_for book x)" "cr_enabled r" "suffix_claim book x r h = Some (k, cls)" for x r k cls
  proof -
    have "Some (ClaimSuffix (length k) (cls = McZone)) \<le> ?m x"
      using match_specificity_upper [OF that(1,2)] suffix_claim_claim [OF that(3)] by blast
    moreover have "?m x \<le> Some (ClaimSuffix len wa)" using m tied other_role_iff [of x role] by (cases "x = role") auto
    ultimately show ?thesis by (metis less_eq_option_Some order_antisym order_trans)
  qed
  obtain r k cls where r: "r \<in> set (set_for book role)" "cr_enabled r" "suffix_claim book role r h = Some (k, cls)"
    "len = length k" "wa = (cls = McZone)" using pick [OF m] by blast
  let ?c = "cand lc clow role r ?app cls (label_count k)"
  have cov: "suffix_claim book x r' h = Some (k', cls') \<Longrightarrow> match_suffix_domain h k'" for x r' k' cls'
    using suffix_claim_claim by blast
  note ord = suffix_strength_mono [OF cov cov wf] and eq = suffix_strength_eq [OF cov cov wf]
  have le: "strength c \<le> strength ?c" if c: "c \<in> set ?cs" for c
  proof -
    obtain x r' k' cls' where r': "r' \<in> set (set_for book x)" "cr_enabled r'" "suffix_claim book x r' h = Some (k', cls')"
      "c = cand lc clow x r' ?app cls' (label_count k')" using c unfolding in_collect_suffix_domain by blast
    show ?thesis using up [OF r'(1-3)] ord [OF r'(3) r(3)] r(4,5) r'(4) by simp
  qed
  have t: "(\<exists>c \<in> set ?cs. eligible c \<and> strength c = strength ?c \<and> mc_route_role c \<noteq> mc_route_role ?c) \<longleftrightarrow>
      ?m (other_role role) = Some (ClaimSuffix len wa)" (is "?L \<longleftrightarrow> ?R")
  proof
    assume ?L
    then obtain c where c: "c \<in> set ?cs" "strength c = strength ?c" "mc_route_role c \<noteq> role" by auto
    obtain x r' k' cls' where r': "r' \<in> set (set_for book x)" "cr_enabled r'" "suffix_claim book x r' h = Some (k', cls')"
      "c = cand lc clow x r' ?app cls' (label_count k')" using c(1) unfolding in_collect_suffix_domain by blast
    have x: "x = other_role role" using c(3) r'(4) by (simp add: other_role_iff)
    have "ClaimSuffix (length k') (cls' = McZone) = ClaimSuffix len wa"
      using c(2) eq [OF r'(3) r(3)] unfolding r'(4) r(4,5) strength_cand by blast
    then show ?R using up [OF r'(1-3)] x by simp
  next
    assume ?R
    from pick [OF this] obtain r' k' cls' where r': "r' \<in> set (set_for book (other_role role))" "cr_enabled r'"
      "suffix_claim book (other_role role) r' h = Some (k', cls')" "len = length k'" "wa = (cls' = McZone)" by blast
    let ?c' = "cand lc clow (other_role role) r' ?app cls' (label_count k')"
    have "?c' \<in> set ?cs" unfolding in_collect_suffix_domain using r' by blast
    moreover have "strength ?c' = strength ?c"
      unfolding strength_cand eq [OF r'(3) r(3)] using r(4,5) r'(4,5) by simp
    ultimately show ?L using plain_eligible [OF b r'(1)] by (intro bexI [of _ ?c']) (auto simp: other_role_iff)
  qed
  obtain rest where st: "match_stages lc clow input lookup book pol = [[], [], []] @ ?cs # rest"
    using plain_stages [OF b n, of lc clow lookup pol] no_exact_candidates [OF m tied] by auto
  have c: "?c \<in> set ?cs" unfolding in_collect_suffix_domain using r by blast
  have p: "\<forall>ds \<in> set [[], [], []]. ds = []" by simp
  from stage_decides [OF st p c plain_eligible [OF b r(1)] le t, of mode] show ?thesis unfolding make_candidate_fields .
qed

text \<open>
  C3. The census and the matcher agree on who owns a name. In a book without application filters and
  literal-address blocks, when one set claims a host outright or by a suffix and the other claims it
  less, \<open>match_rules\<close> decides for the first set and marks no conflict; when the claims are equal,
  the conflict is marked. So the byte lengths \<open>rule_specificity.rs\<close> compares rank as the label
  counts of the decision do.
\<close>

theorem claims_decide_as_matcher:
  assumes "plain_book book" "named_input input h"
    and "match_specificity h (set_for book role) book = Some cl" "\<forall>len. cl \<noteq> ClaimZone len"
    and "match_specificity h (set_for book (other_role role)) book \<le> Some cl"
  shows "\<exists>w. match_rules lc clow input lookup book pol mode = MatchedRoute w \<and>
    (if match_specificity h (set_for book (other_role role)) book = Some cl then mc_conflict w = Detected
     else mc_route_role w = role \<and> mc_conflict w = NoConflict)"
proof (cases cl)
  case (ClaimZone len)
  then show ?thesis using assms(4) by simp
next
  case (ClaimSuffix len wa)
  show ?thesis using suffix_stage_decides [OF assms(1,2,3,5) [unfolded ClaimSuffix]] unfolding ClaimSuffix .
next
  case ClaimExact
  show ?thesis using exact_stage_decides [OF assms(1,2,3,5) [unfolded ClaimExact]] unfolding ClaimExact .
qed

definition site_book :: rule_book where
  "site_book = \<lparr>rb_primary = [plain_rule ''r1'' (SuffixDomain ''example.com'') Route],
     rb_secondary = [plain_rule ''r2'' (SuffixDomain ''cdn.example.com'') Route]\<rparr>"

theorem claims_decide_as_matcher_witness:
  "\<exists>w. match_rules to_ascii_lowercase ascii_clow
       (normalize_runtime_input (\<lambda>s. None) to_ascii_lowercase (probe_input (Some ''a.cdn.example.com'') None None PreferPrimary))
       probe_lookup site_book default_zone_policy PreferPrimary = MatchedRoute w \<and>
     mc_route_role w = Secondary \<and> mc_conflict w = NoConflict"
proof -
  let ?i = "normalize_runtime_input (\<lambda>s. None) to_ascii_lowercase (probe_input (Some ''a.cdn.example.com'') None None PreferPrimary)"
  have "plain_book site_book" "named_input ?i ''a.cdn.example.com''" by code_simp+
  moreover have "match_specificity ''a.cdn.example.com'' (set_for site_book Secondary) site_book = Some (ClaimSuffix 15 False)"
    "match_specificity ''a.cdn.example.com'' (set_for site_book (other_role Secondary)) site_book = Some (ClaimSuffix 11 False)"
    by code_simp+
  moreover have "ClaimSuffix 11 False \<le> ClaimSuffix 15 False" by code_simp
  ultimately show ?thesis
    using claims_decide_as_matcher [of site_book ?i "''a.cdn.example.com''" Secondary "ClaimSuffix 15 False"
        to_ascii_lowercase ascii_clow probe_lookup default_zone_policy PreferPrimary] by simp
qed

end
