(* ===== verification/Spec2Isabelle.thy ===== *)
theory Spec2Isabelle
  imports App_Identity App_Path Binding_Release Decision_Input Dns_Wire Fake_Ip_Allocator
    Fake_Ip_Answer Fake_Ip_Pool Fake_Ip_Scope Foreign_Tunnels Glob Host_Names Ip_Block
    Network_Policy Rule_Book Rule_Matching Rule_Specificity
begin

text \<open>
  \<^bold>\<open>Verification of net-rule-router.\<close>

  The router sends each connection of a machine over one of two links, or blocks it, as a book of
  rules says. A rule names a destination (a host name, a zone, an address, a network or a range), an
  application, or both. The decision core under \<open>src/core/domain\<close> and the data contracts under
  \<open>src/shared/contracts\<close> are pure; the service under \<open>src/core/services/service-runtime\<close> answers DNS
  queries with virtual addresses, so that a shared real address can be steered by host name, and the
  pool of those addresses lives in \<open>src/core/platform/api\<close>. This development models that core and
  the address-answering path around it, and proves what they promise.

  \<^bold>\<open>Conventions.\<close> A Rust string is the list of its UTF-8 bytes. \<open>u32\<close>, \<open>u64\<close> and \<open>u128\<close> are words of
  that width; lengths, prefix lengths and positions are natural numbers, which a slice in memory
  bounds below the wrap of \<open>usize\<close>. An error or an early return is a value of an option or sum type; a
  panic is an outer \<^const>\<open>None\<close>. A clock reading is an argument. Mutable state is a record passed along;
  a lock around it is a step boundary. Code outside the repository is a parameter: Unicode
  lowercasing (\<open>lc\<close>, \<open>clow\<close>) and the \<open>idna\<close> crate, with the documented facts a theorem needs as its
  hypotheses, and each such theorem has a witness with a concrete function.

  \<^bold>\<open>Theories and sources\<close> (paths omit the leading \<open>src/\<close> or \<open>src/core/\<close>)\<^bold>\<open>.\<close>
  \<^item> \<open>NRR_Prelude\<close>, \<open>Std_Net\<close>: strings, trimming, splitting, decimal numerals, UTF-8; \<open>IpAddr\<close> with its
    parser and display, saturating counters. These are the standard library.
  \<^item> \<open>Ip_Block\<close> (\<open>shared/contracts/src/ip_block.rs\<close>): networks and ranges. Containment, covering and
    overlap are the set operations on addresses; the decomposition of a range into networks never
    panics, covers exactly the range, is disjoint and ascending, and is minimal.
  \<^item> \<open>Network_Policy\<close> (\<open>domain/src/address_class.rs\<close>, \<open>ip_network_policy.rs\<close>): classes of addresses, widths
    a rule may name, and the part of a local segment a blanket block lets through, which is exactly
    its private, shared and link-local addresses.
  \<^item> \<open>Host_Names\<close>, \<open>Rule_Specificity\<close> (\<open>domain/src/decision_matching.rs\<close>, \<open>rule_specificity.rs\<close>): zones and
    suffixes by labels; the claim order the editor shows agrees with what the matcher decides.
  \<^item> \<open>Glob\<close>, \<open>App_Identity\<close>, \<open>App_Path\<close> (\<open>shared/contracts/src/glob.rs\<close>, \<open>app_identity.rs\<close>,
    \<open>app_path.rs\<close>, \<open>dns_name.rs\<close>): the backtracking matcher equals a recursive reference; canonical names keep
    their match keys, unless a value ends in a separator or its file name is padded; a profile path matches only below its owner's profile.
  \<^item> \<open>Rule_Book\<close> (\<open>domain/src/canonical.rs\<close>): the total order of rules and the rewrites of a book. The locale
    \<open>keyed_order\<close> is the interface of a sort by a total key; it is interpreted on the rule key here
    and on the candidate key in \<open>Rule_Matching\<close>.
  \<^item> \<open>Decision_Input\<close> (\<open>domain/src/decision_pipeline.rs\<close>, \<open>decision_normalization.rs\<close>,
    \<open>decision_lookup.rs\<close>, \<open>decision_engine_input.rs\<close>, \<open>rule_value_validation.rs\<close>): raw input and its normalization:
    which fields make which match class unavailable and why, and which names are normalized forms.
  \<^item> \<open>Rule_Matching\<close> (\<open>domain/src/decision_rules_matching.rs\<close>): candidates, stages and the winner. The
    locale \<open>staged_choice\<close> is the contract of a staged selection; its interpretation on
    \<open>select_winner\<close> gives that the staged matcher is one lexicographic choice over all candidates.
  \<^item> \<open>Fake_Ip_Pool\<close>, \<open>Fake_Ip_Allocator\<close> (\<open>platform/api/src/fake_ip/allocator.rs\<close>, \<open>hosts_file.rs\<close>): geometry of
    the pool and the allocator. \<open>fa_run\<close> is the reachable histories of calls; in each of them a bound
    name has addresses that lead back to it, allocation succeeds while a host is free or idle, and the
    change events rebuild the map. Pools are those of \<open>pool_ok\<close>: an IPv6 prefix of 96 bits or fewer.
  \<^item> \<open>Fake_Ip_Scope\<close> (\<open>platform/api/src/fake_ip/scope.rs\<close>, \<open>app_group_discovery.rs\<close>,
    \<open>service-runtime/src/fake_ip/self_heal.rs\<close>): which names may get a virtual address.
  \<^item> \<open>Foreign_Tunnels\<close> (\<open>service-runtime/src/foreign_tunnels.rs\<close> with the route signatures and the network
    selection of \<open>route_codegen/network_routes.rs\<close>): what other tunnels own. \<open>ft_run\<close> is the histories of
    publications; the merged ranges and the binary searches answer exactly membership.
  \<^item> \<open>Fake_Ip_Answer\<close> (\<open>service-runtime/src/dns_resolver.rs\<close>, \<open>dns_resolver/query.rs\<close>): the answerers over
    scope, tunnels and allocator.
  \<^item> \<open>Binding_Release\<close> (\<open>service-runtime/src/fake_ip/binding_release.rs\<close>): the sweep that returns idle
    addresses, alone (what it releases, its count and its cursor) and interleaved with the serving of
    queries (\<open>fa_serve\<close>, \<open>sweep\<close>), where it frees no binding used since it was read.
  \<^item> \<open>Dns_Wire\<close> (\<open>service-runtime/src/dns_wire.rs\<close>): the DNS message codec. Built queries and answers read
    back, accepted addresses lie on the question's CNAME chain, and every name walk returns.

  \<^bold>\<open>Bounds and fuel.\<close> \<open>glob_match\<close> runs with \<open>(m + 2) * (n + 2)\<close> iterations for a pattern of \<open>m\<close> and a text of
  \<open>n\<close> bytes, because each iteration moves the text position or the resume point forward; the theorem shows
  it then answers. \<open>decompose_loop\<close> and the bisections terminate by a measure. The DNS name walks carry
  160 iterations, the 32 jumps and 127 labels the code allows and the end; the theorem shows that more
  changes nothing. Budgets of the code (1024 published entries, 256 bindings per sweep, 16 aliases) are
  the code's constants.

  \<^bold>\<open>Not modelled.\<close> The graphical, terminal and command-line applications, the launcher and the QML
  front end; the Windows and Linux back ends (packet filter, routes, tunnels, process inspection), which
  are system calls; storage, migrations and audit files, which are SQL and file I/O; the inter-process
  protocol and its serde renderings; diagnostics and logging; the threads, timers and channels of the
  service and its orchestration of the operating system; the user-space TCP stack of the relay; the
  vendored \<open>tappers\<close> crate. Their decisions reach this development as arguments: the served rule
  predicate of the release sweep, the gate of the answerer, the routes and adapters a publication reads.
\<close>

end
